(* ===== verification/Prelude.thy ===== *)
theory Prelude
  imports Main "HOL-Library.Word"
begin

unbundle bit_operations_syntax

text \<open>
  Shared vocabulary of the development.

  \<^item> Machine integers are words of their width; Rust's wrapping, checked and saturating
    operations are read off \<open>unat\<close>.
  \<^item> A Rust \<open>str\<close>/\<open>String\<close> is a \<open>string\<close> holding its UTF-8 bytes (a HOL \<open>char\<close> is one byte);
    \<open>Vec<u8>\<close> and \<open>&[u8]\<close> are \<open>u8 list\<close>. The two are related by \<open>as_bytes\<close> and \<open>of_bytes\<close>.
  \<^item> \<open>Result<T, E>\<close> is the sum \<open>'e + 'a\<close> with \<open>Inl\<close> the error.
  \<^item> Panics are values of the type \<open>panic\<close>.
  \<^item> A word read most significant bit first is a list of bits (\<open>bits_be\<close>); the bit-buffer
    encoders of the program are proved against this view.
\<close>

type_synonym u8 = "8 word"
type_synonym u16 = "16 word"
type_synonym u32 = "32 word"
type_synonym u64 = "64 word"
type_synonym u128 = "128 word"

datatype panic = Overflow | DivideByZero | OutOfBounds | CharBoundary

text \<open>The \<open>?\<close> operator, \<open>ok_or\<close> and \<open>map_err\<close> on \<open>Result\<close> values.\<close>

fun and_then :: "'e + 'a \<Rightarrow> ('a \<Rightarrow> 'e + 'b) \<Rightarrow> 'e + 'b" where
  "and_then (Inl e) f = Inl e"
| "and_then (Inr x) f = f x"

fun ok_or :: "'a option \<Rightarrow> 'e \<Rightarrow> 'e + 'a" where
  "ok_or None e = Inl e"
| "ok_or (Some x) e = Inr x"

fun map_err :: "('e \<Rightarrow> 'f) \<Rightarrow> 'e + 'a \<Rightarrow> 'f + 'a" where
  "map_err f (Inl e) = Inl (f e)"
| "map_err f (Inr x) = Inr x"

fun is_ok :: "'e + 'a \<Rightarrow> bool" where
  "is_ok (Inl e) = False"
| "is_ok (Inr x) = True"

lemma and_then_right [simp]: "and_then m Inr = m"
  by (cases m) simp_all

lemma and_then_assoc: "and_then (and_then m f) g = and_then m (\<lambda>x. and_then (f x) g)"
  by (cases m) simp_all

lemma and_then_Inr_iff: "and_then r f = Inr y \<longleftrightarrow> (\<exists>x. r = Inr x \<and> f x = Inr y)"
  by (cases r) simp_all

lemma and_then_Inl_iff: "and_then r f = Inl e \<longleftrightarrow> r = Inl e \<or> (\<exists>x. r = Inr x \<and> f x = Inl e)"
  by (cases r) simp_all

lemma ok_or_Inr_iff [simp]: "ok_or x e = Inr y \<longleftrightarrow> x = Some y"
  by (cases x) simp_all

lemma map_err_Inr_iff [simp]: "map_err f r = Inr y \<longleftrightarrow> r = Inr y"
  by (cases r) simp_all

text \<open>\<open>Iterator::find_map\<close>.\<close>

fun find_map :: "('a \<Rightarrow> 'b option) \<Rightarrow> 'a list \<Rightarrow> 'b option" where
  "find_map f [] = None"
| "find_map f (x # xs) = (case f x of Some y \<Rightarrow> Some y | None \<Rightarrow> find_map f xs)"

lemma find_map_SomeD: "find_map f xs = Some y \<Longrightarrow> \<exists>x\<in>set xs. f x = Some y"
  by (induction xs) (auto split: option.splits)

named_theorems byte_simps \<open>conversions between characters, bytes and bit lists\<close>


section \<open>Bytes and characters\<close>

definition byte_of_char :: "char \<Rightarrow> u8" where
  "byte_of_char c = word_of_nat (of_char c)"

definition char_of_byte :: "u8 \<Rightarrow> char" where
  "char_of_byte b = char_of (unat b)"

abbreviation as_bytes :: "string \<Rightarrow> u8 list" where
  "as_bytes \<equiv> map byte_of_char"

abbreviation of_bytes :: "u8 list \<Rightarrow> string" where
  "of_bytes \<equiv> map char_of_byte"

lemma of_char_less [simp]: "(of_char c :: nat) < 256"
  by (metis mod_less_divisor of_char_mod_256 zero_less_numeral)

lemma unat_byte_of_char [simp]: "unat (byte_of_char c) = of_char c"
  by (simp add: byte_of_char_def unat_of_nat take_bit_eq_mod)

lemma char_of_byte_of_char [simp]: "char_of_byte (byte_of_char c) = c"
  by (simp add: char_of_byte_def)

lemma byte_of_char_of_byte [simp]: "byte_of_char (char_of_byte b) = b"
proof -
  have "unat b < 256"
    using unsigned_less [of b] by simp
  then show ?thesis
    by (simp add: byte_of_char_def char_of_byte_def of_char_of)
qed

lemma char_byte_comp [simp]: "char_of_byte \<circ> byte_of_char = id" "byte_of_char \<circ> char_of_byte = id"
  by auto

lemma of_bytes_as_bytes [simp]: "of_bytes (as_bytes s) = s"
  by (simp add: o_def map_idI)

lemma as_bytes_of_bytes [simp]: "as_bytes (of_bytes bs) = bs"
  by (simp add: o_def map_idI)

lemma byte_of_char_eq_iff [simp]: "byte_of_char c = byte_of_char d \<longleftrightarrow> c = d"
  by (metis char_of_byte_of_char)

lemma char_of_byte_eq_iff [simp]: "char_of_byte a = char_of_byte b \<longleftrightarrow> a = b"
  by (metis byte_of_char_of_byte)


section \<open>Words as bit lists, most significant bit first\<close>

definition bits_be :: "nat \<Rightarrow> 'a::len word \<Rightarrow> bool list" where
  "bits_be n w = map (bit w) (rev [0..<n])"

lemma length_bits_be [simp]: "length (bits_be n w) = n"
  by (simp add: bits_be_def)

lemma bits_be_0 [simp]: "bits_be 0 w = []"
  by (simp add: bits_be_def)

lemma bits_be_zero: "bits_be n (0 :: 'a::len word) = replicate n False"
  by (rule nth_equalityI) (simp_all add: bits_be_def)

lemma upt_split: "[0..<k + m] = [0..<m] @ map ((+) m) [0..<k]"
  by (rule nth_equalityI) (auto simp: nth_append)

lemma bits_be_cong: "(\<And>i. i < n \<Longrightarrow> bit w i = bit v i) \<Longrightarrow> bits_be n w = bits_be n v"
  by (simp add: bits_be_def)

lemma bits_be_add: "bits_be (k + m) w = map (\<lambda>i. bit w (m + i)) (rev [0..<k]) @ bits_be m w"
  unfolding bits_be_def upt_split by (simp add: rev_map o_def)

lemma not_bit_high:
  fixes w :: "'a::len word"
  assumes "unat w < 2 ^ n" and "n \<le> i"
  shows "\<not> bit w i"
  using assms
  by (metis bit_take_bit_iff leD take_bit_nat_eq_self unsigned_take_bit_eq word_eq_iff_unsigned)

lemma bits_be_push:
  fixes w v :: "'a::len word"
  assumes "k + m \<le> LENGTH('a)" and "unat v < 2 ^ m"
  shows "bits_be (k + m) (push_bit m w OR v) = bits_be k w @ bits_be m v"
proof -
  have v: "\<not> bit v i" if "m \<le> i" for i
    using assms(2) that by (rule not_bit_high)
  have hi: "bit (push_bit m w OR v) (m + i) = bit w i" if "i < k" for i
    using that assms(1) v [of "m + i"] by (auto simp: bit_simps)
  have lo: "bit (push_bit m w OR v) i = bit v i" if "i < m" for i
    using that by (auto simp: bit_simps)
  have "map (\<lambda>i. bit (push_bit m w OR v) (m + i)) (rev [0..<k]) = bits_be k w"
    by (simp add: bits_be_def hi)
  moreover have "bits_be m (push_bit m w OR v) = bits_be m v"
    by (rule bits_be_cong) (rule lo)
  ultimately show ?thesis
    unfolding bits_be_add by simp
qed

lemma drop_bits_be: "n \<le> k \<Longrightarrow> drop n (bits_be k w) = bits_be (k - n) w"
  using bits_be_add [of n "k - n" w] by (simp add: bits_be_def)

lemma take_bits_be:
  fixes w :: "'a::len word"
  assumes "n \<le> k"
  shows "take n (bits_be k w) = bits_be n (drop_bit (k - n) w)"
  using assms bits_be_add [of n "k - n" w]
  by (simp add: bits_be_def bit_simps o_def add.commute)

lemma bits_be_and_mask [simp]:
  fixes w :: "'a::len word"
  shows "bits_be n (w AND mask n) = bits_be n w"
  by (rule bits_be_cong) (auto simp: bit_simps dest: bit_imp_le_length)

lemma bits_be_ucast:
  fixes w :: "'a::len word"
  assumes "n \<le> LENGTH('b)"
  shows "bits_be n (ucast w :: 'b::len word) = bits_be n w"
  by (rule bits_be_cong) (use assms in \<open>auto simp: bit_simps\<close>)

lemma bits_be_inject:
  fixes w v :: "'a::len word"
  assumes "bits_be n w = bits_be n v" and "unat w < 2 ^ n" and "unat v < 2 ^ n"
  shows "w = v"
proof (rule bit_word_eqI)
  fix i
  have eq: "bit w i = bit v i" if "i < n" for i
    using assms(1) that by (auto simp: bits_be_def)
  show "bit w i = bit v i"
    using eq [of i] not_bit_high [OF assms(2), of i] not_bit_high [OF assms(3), of i]
    by (cases "i < n") auto
qed

lemma bits_be_full_inject:
  fixes w v :: "'a::len word"
  assumes "bits_be LENGTH('a) w = bits_be LENGTH('a) v"
  shows "w = v"
  by (rule bits_be_inject [OF assms]) simp_all

lemma concat_bits_inject:
  fixes xs ys :: "'a::len word list"
  assumes "concat (map (bits_be LENGTH('a)) xs) = concat (map (bits_be LENGTH('a)) ys)"
  shows "xs = ys"
  using assms
proof (induction xs arbitrary: ys)
  case Nil
  then show ?case by (cases ys) (auto dest: arg_cong [where f = length])
next
  case (Cons x xs)
  from Cons.prems obtain y ys' where ys: "ys = y # ys'"
    by (cases ys) (auto dest: arg_cong [where f = length])
  with Cons.prems have "bits_be LENGTH('a) x = bits_be LENGTH('a) y"
    and "concat (map (bits_be LENGTH('a)) xs) = concat (map (bits_be LENGTH('a)) ys')"
    by (simp_all add: append_eq_append_conv)
  with Cons.IH ys show ?case
    by (auto intro: bits_be_full_inject)
qed

lemma length_concat_bits [simp]: "length (concat (map (bits_be n) xs)) = n * length xs"
  by (induction xs) auto


section \<open>Splitting strings\<close>

text \<open>\<open>str::split_once\<close> with a character pattern, \<open>str::split\<close>, \<open>str::strip_prefix\<close>.\<close>

fun split_once :: "'a \<Rightarrow> 'a list \<Rightarrow> ('a list \<times> 'a list) option" where
  "split_once d [] = None"
| "split_once d (x # xs) =
     (if x = d then Some ([], xs)
      else map_option (\<lambda>(a, b). (x # a, b)) (split_once d xs))"

fun split_on :: "'a \<Rightarrow> 'a list \<Rightarrow> 'a list list" where
  "split_on d [] = [[]]"
| "split_on d (x # xs) =
     (if x = d then [] # split_on d xs
      else (case split_on d xs of [] \<Rightarrow> [[x]] | y # ys \<Rightarrow> (x # y) # ys))"

fun strip_prefix :: "'a list \<Rightarrow> 'a list \<Rightarrow> 'a list option" where
  "strip_prefix [] s = Some s"
| "strip_prefix (p # ps) [] = None"
| "strip_prefix (p # ps) (x # xs) = (if p = x then strip_prefix ps xs else None)"

lemma split_once_None_iff [simp]: "split_once d xs = None \<longleftrightarrow> d \<notin> set xs"
  by (induction xs) auto

lemma split_once_append [simp]: "d \<notin> set xs \<Longrightarrow> split_once d (xs @ d # ys) = Some (xs, ys)"
  by (induction xs) auto

lemma split_once_Some: "split_once d xs = Some (a, b) \<Longrightarrow> xs = a @ d # b \<and> d \<notin> set a"
  by (induction xs arbitrary: a b) (auto split: if_splits)

lemma split_on_nonempty [simp]: "split_on d xs \<noteq> []"
  by (cases xs) (auto split: list.split)

lemma split_on_single [simp]: "d \<notin> set xs \<Longrightarrow> split_on d xs = [xs]"
  by (induction xs) auto

lemma split_on_append [simp]: "d \<notin> set xs \<Longrightarrow> split_on d (xs @ d # ys) = xs # split_on d ys"
  by (induction xs) auto

lemma strip_prefix_append [simp]: "strip_prefix p (p @ s) = Some s"
  by (induction p) auto

lemma strip_prefix_Some_iff: "strip_prefix p s = Some r \<longleftrightarrow> s = p @ r"
  by (induction p s rule: strip_prefix.induct) auto


section \<open>Integers as text\<close>

text \<open>
  \<open>u8::from_str_radix\<close>/\<open>str::parse\<close> on unsigned types: an empty string and a lone sign are
  errors, one leading \<open>+\<close> is accepted, every further character must be a digit of the
  radix, and the value must fit.
\<close>

datatype parse_int_error = Empty | InvalidDigit | PosOverflow

definition to_digit :: "nat \<Rightarrow> char \<Rightarrow> nat option" where
  "to_digit radix c =
     (let n = of_char c;
          d = (if 48 \<le> n \<and> n \<le> 57 then Some (n - 48)
               else if 97 \<le> n \<and> n \<le> 122 then Some (n - 87)
               else if 65 \<le> n \<and> n \<le> 90 then Some (n - 55) else None)
      in case d of None \<Rightarrow> None | Some v \<Rightarrow> if v < radix then Some v else None)"

fun parse_digits :: "nat \<Rightarrow> nat \<Rightarrow> nat \<Rightarrow> string \<Rightarrow> parse_int_error + nat" where
  "parse_digits radix lim acc [] = Inr acc"
| "parse_digits radix lim acc (c # cs) =
     (case to_digit radix c of
        None \<Rightarrow> Inl InvalidDigit
      | Some d \<Rightarrow>
          if lim < acc * radix + d then Inl PosOverflow
          else parse_digits radix lim (acc * radix + d) cs)"

definition from_str_radix :: "nat \<Rightarrow> nat \<Rightarrow> string \<Rightarrow> parse_int_error + nat" where
  "from_str_radix radix lim s =
     (case s of
        [] \<Rightarrow> Inl Empty
      | c # cs \<Rightarrow>
          if (c = CHR ''+'' \<or> c = CHR ''-'') \<and> cs = [] then Inl InvalidDigit
          else if c = CHR ''+'' then parse_digits radix lim 0 cs
          else parse_digits radix lim 0 s)"

text \<open>\<open>to_string\<close> of an unsigned integer.\<close>

definition digit_char :: "nat \<Rightarrow> char" where
  "digit_char d = char_of (if d < 10 then 48 + d else 87 + d)"

fun dec_string :: "nat \<Rightarrow> string" where
  "dec_string n = (if n < 10 then [digit_char n] else dec_string (n div 10) @ [digit_char (n mod 10)])"

declare dec_string.simps [simp del]

lemma digit_char_numeral [simp]:
  "digit_char 0 = CHR ''0''"
  "digit_char (Suc 0) = CHR ''1''"
  "digit_char (Suc (Suc 0)) = CHR ''2''"
  "digit_char 1 = CHR ''1''"
  "digit_char 2 = CHR ''2''"
  "digit_char 3 = CHR ''3''"
  "digit_char 4 = CHR ''4''"
  "digit_char 5 = CHR ''5''"
  "digit_char 6 = CHR ''6''"
  "digit_char 7 = CHR ''7''"
  "digit_char 8 = CHR ''8''"
  "digit_char 9 = CHR ''9''"
  "digit_char 10 = CHR ''a''"
  "digit_char 11 = CHR ''b''"
  "digit_char 12 = CHR ''c''"
  "digit_char 13 = CHR ''d''"
  "digit_char 14 = CHR ''e''"
  "digit_char 15 = CHR ''f''"
  by (simp_all add: digit_char_def char_of_def bit_0 bit_Suc)

lemma to_digit_digit_char: "d < radix \<Longrightarrow> radix \<le> 36 \<Longrightarrow> to_digit radix (digit_char d) = Some d"
  by (auto simp: to_digit_def digit_char_def of_char_of)

lemma parse_digits_append:
  "parse_digits r lim acc (xs @ ys) =
     (case parse_digits r lim acc xs of Inl e \<Rightarrow> Inl e | Inr a \<Rightarrow> parse_digits r lim a ys)"
  by (induction xs arbitrary: acc) (auto split: option.splits)

lemma dec_string_digits: "c \<in> set (dec_string n) \<Longrightarrow> \<exists>d<10. c = digit_char d"
proof (induction n arbitrary: c rule: dec_string.induct)
  case (1 n)
  then show ?case
    by (cases "n < 10") (auto simp: dec_string.simps [of n] intro: exI [of _ "n mod 10"])
qed

lemma dec_string_nonempty [simp]: "dec_string n \<noteq> []"
  by (subst dec_string.simps) simp

lemma digit_char_not_sign:
  "d < 10 \<Longrightarrow> digit_char d \<noteq> CHR ''+'' \<and> digit_char d \<noteq> CHR ''-''
     \<and> digit_char d \<noteq> CHR ''&'' \<and> digit_char d \<noteq> CHR ''=''"
  by (auto simp: digit_char_def char_of_eq_iff take_bit_eq_mod)

lemma parse_digits_dec_string:
  "n \<le> lim \<Longrightarrow> parse_digits 10 lim 0 (dec_string n) = Inr n"
proof (induction n rule: dec_string.induct)
  case (1 n)
  show ?case
  proof (cases "n < 10")
    case True
    with "1.prems" show ?thesis
      by (simp add: dec_string.simps [of n] to_digit_digit_char)
  next
    case False
    with "1.IH" "1.prems" have "parse_digits 10 lim 0 (dec_string (n div 10)) = Inr (n div 10)"
      by simp
    with False "1.prems" show ?thesis
      by (simp add: dec_string.simps [of n] parse_digits_append to_digit_digit_char)
  qed
qed

lemma from_str_radix_dec_string [simp]:
  assumes "n \<le> lim"
  shows "from_str_radix 10 lim (dec_string n) = Inr n"
proof -
  obtain c cs where s: "dec_string n = c # cs"
    by (cases "dec_string n") auto
  then have "c \<noteq> CHR ''+''" "c \<noteq> CHR ''-''"
    using dec_string_digits [of c n] digit_char_not_sign by auto
  with s parse_digits_dec_string [OF assms] show ?thesis
    by (simp add: from_str_radix_def)
qed


section \<open>UTF-8\<close>

text \<open>\<open>core::str::from_utf8\<close>: the well-formed byte sequences of the Unicode standard.\<close>

definition utf8_cont :: "u8 \<Rightarrow> bool" where
  "utf8_cont b \<longleftrightarrow> 0x80 \<le> b \<and> b \<le> 0xBF"

fun utf8_valid :: "u8 list \<Rightarrow> bool" where
  "utf8_valid [] = True"
| "utf8_valid (b # bs) =
     (if b < 0x80 then utf8_valid bs
      else if 0xC2 \<le> b \<and> b \<le> 0xDF then
        (case bs of c1 # r \<Rightarrow> utf8_cont c1 \<and> utf8_valid r | _ \<Rightarrow> False)
      else if 0xE0 \<le> b \<and> b \<le> 0xEF then
        (case bs of c1 # c2 # r \<Rightarrow>
           utf8_cont c1 \<and> utf8_cont c2 \<and> (b = 0xE0 \<longrightarrow> 0xA0 \<le> c1) \<and> (b = 0xED \<longrightarrow> c1 \<le> 0x9F)
             \<and> utf8_valid r
         | _ \<Rightarrow> False)
      else if 0xF0 \<le> b \<and> b \<le> 0xF4 then
        (case bs of c1 # c2 # c3 # r \<Rightarrow>
           utf8_cont c1 \<and> utf8_cont c2 \<and> utf8_cont c3
             \<and> (b = 0xF0 \<longrightarrow> 0x90 \<le> c1) \<and> (b = 0xF4 \<longrightarrow> c1 \<le> 0x8F) \<and> utf8_valid r
         | _ \<Rightarrow> False)
      else False)"

declare utf8_valid.simps(2) [simp del]

lemma utf8_valid_Cons_ascii [simp]: "b < 0x80 \<Longrightarrow> utf8_valid (b # bs) = utf8_valid bs"
  by (simp add: utf8_valid.simps(2))

lemma utf8_valid_ascii: "(\<And>b. b \<in> set bs \<Longrightarrow> b < 0x80) \<Longrightarrow> utf8_valid bs"
  by (induction bs) auto


section \<open>Byte order\<close>

text \<open>\<open>to_be_bytes\<close> and \<open>from_be_bytes\<close> of the integer types.\<close>

definition to_be_bytes :: "'a::len word \<Rightarrow> u8 list" where
  "to_be_bytes w = map (\<lambda>i. ucast (drop_bit (8 * i) w)) (rev [0..<LENGTH('a) div 8])"

definition from_be_bytes :: "u8 list \<Rightarrow> 'a::len word" where
  "from_be_bytes bs = foldl (\<lambda>acc b. push_bit 8 acc OR ucast b) 0 bs"

lemma length_to_be_bytes [simp]: "length (to_be_bytes (w :: 'a::len word)) = LENGTH('a) div 8"
  by (simp add: to_be_bytes_def)


lemma unat_of_nat_small: "n < 2 ^ LENGTH('a) \<Longrightarrow> unat (of_nat n :: 'a::len word) = n"
  by (simp only: unat_of_nat) simp


section \<open>Reachable states\<close>

inductive reachable :: "('s \<Rightarrow> bool) \<Rightarrow> ('s \<Rightarrow> 's \<Rightarrow> bool) \<Rightarrow> 's \<Rightarrow> bool" for init step where
  start: "init s \<Longrightarrow> reachable init step s"
| move: "reachable init step s \<Longrightarrow> step s t \<Longrightarrow> reachable init step t"

lemma reachable_invariant:
  assumes "reachable init step s"
    and "\<And>s. init s \<Longrightarrow> P s" and "\<And>s t. P s \<Longrightarrow> step s t \<Longrightarrow> P t"
  shows "P s"
  using assms(1) by induction (use assms(2,3) in blast)+

lemma reachable_steps: "step\<^sup>*\<^sup>* s t \<Longrightarrow> reachable init step s \<Longrightarrow> reachable init step t"
  by (induction rule: rtranclp_induct) (auto intro: move)

text \<open>Subtraction on \<open>usize\<close> that must not go below zero.\<close>

definition sub_usize :: "nat \<Rightarrow> nat \<Rightarrow> panic + nat" where
  "sub_usize a b = (if b \<le> a then Inr (a - b) else Inl Overflow)"

lemma sub_usize_ok [simp]: "b \<le> a \<Longrightarrow> sub_usize a b = Inr (a - b)"
  by (simp add: sub_usize_def)

lemma sub_usize_Inr_iff [simp]: "sub_usize a b = Inr c \<longleftrightarrow> b \<le> a \<and> c = a - b"
  by (auto simp: sub_usize_def)

text \<open>Saturating arithmetic on a \<open>usize\<close> of 64 bits.\<close>

definition saturating_add :: "nat \<Rightarrow> nat \<Rightarrow> nat" where
  "saturating_add a b = min (a + b) (2 ^ 64 - 1)"

definition saturating_mul :: "nat \<Rightarrow> nat \<Rightarrow> nat" where
  "saturating_mul a b = min (a * b) (2 ^ 64 - 1)"

end
