(* ===== verification/Otp_Encoding.thy ===== *)
theory Otp_Encoding
  imports Prelude
begin

unbundle bit_operations_syntax

text \<open>
  The text encodings of the OTP crate: \<open>encoding/base32.rs\<close>, \<open>encoding/hex.rs\<close> and
  \<open>encoding/url.rs\<close>. Base32 runs a bit buffer over the input (16 bits wide when encoding,
  32 when decoding, old bits falling off the top); it is proved against the view of the
  data as one bit string. The three codecs meet the interface \<open>codec\<close>, whose client is the
  \<open>otpauth\<close> URI code.
\<close>


section \<open>The interface of a text codec\<close>

locale codec =
  fixes enc :: "'a \<Rightarrow> string"
    and dec :: "string \<Rightarrow> 'e + 'a"
    and valid :: "'a \<Rightarrow> bool"
    and alphabet :: "char set"
  assumes dec_enc: "valid x \<Longrightarrow> dec (enc x) = Inr x"
    and enc_alphabet: "set (enc x) \<subseteq> alphabet"
begin

lemma enc_inj: "valid x \<Longrightarrow> valid y \<Longrightarrow> enc x = enc y \<Longrightarrow> x = y"
  by (metis dec_enc sum.inject(2))

lemma enc_free: "d \<notin> alphabet \<Longrightarrow> d \<notin> set (enc x)"
  using enc_alphabet by blast

lemma split_once_enc: "d \<notin> alphabet \<Longrightarrow> split_once d (enc x @ d # r) = Some (enc x, r)"
  by (simp add: enc_free)

lemma split_on_enc: "d \<notin> alphabet \<Longrightarrow> split_on d (enc x @ d # r) = enc x # split_on d r"
  by (simp add: enc_free)

end


section \<open>Base32\<close>

definition BASE32_ALPHABET :: string where
  "BASE32_ALPHABET = ''ABCDEFGHIJKLMNOPQRSTUVWXYZ234567''"

text \<open>The inner \<open>while bits_left >= 5\<close> loop and the loop over the bytes.\<close>

fun base32_emit :: "u16 \<Rightarrow> nat \<Rightarrow> string \<Rightarrow> nat \<times> string" where
  "base32_emit buffer bits_left encoded =
     (if 5 \<le> bits_left then
        let index = drop_bit (bits_left - 5) buffer AND 0x1F
        in base32_emit buffer (bits_left - 5) (encoded @ [BASE32_ALPHABET ! unat index])
      else (bits_left, encoded))"

declare base32_emit.simps [simp del]

fun base32_encode_loop :: "u8 list \<Rightarrow> u16 \<Rightarrow> nat \<Rightarrow> string \<Rightarrow> u16 \<times> nat \<times> string" where
  "base32_encode_loop [] buffer bits_left encoded = (buffer, bits_left, encoded)"
| "base32_encode_loop (byte # rest) buffer bits_left encoded =
     (let buffer' = push_bit 8 buffer OR ucast byte;
          (bits_left', encoded') = base32_emit buffer' (bits_left + 8) encoded
      in base32_encode_loop rest buffer' bits_left' encoded')"

definition base32_encode :: "u8 list \<Rightarrow> string" where
  "base32_encode data =
     (let (buffer, bits_left, encoded) = base32_encode_loop data 0 0 []
      in if 0 < bits_left then
           let index = push_bit (5 - bits_left) buffer AND 0x1F
           in encoded @ [BASE32_ALPHABET ! unat index]
         else encoded)"

datatype DecodeBase32Error = InvalidChar char

definition base32_value :: "char \<Rightarrow> u32 option" where
  "base32_value c =
     (let b = of_char c :: nat in
      if 65 \<le> b \<and> b \<le> 90 then Some (word_of_nat (b - 65))
      else if 97 \<le> b \<and> b \<le> 122 then Some (word_of_nat (b - 97))
      else if 50 \<le> b \<and> b \<le> 55 then Some (word_of_nat (b - 50 + 26))
      else None)"

fun base32_decode_loop :: "string \<Rightarrow> u32 \<Rightarrow> nat \<Rightarrow> u8 list \<Rightarrow> DecodeBase32Error + u8 list" where
  "base32_decode_loop [] buffer bits_left output = Inr output"
| "base32_decode_loop (c # rest) buffer bits_left output =
     (case base32_value c of
        None \<Rightarrow> Inl (InvalidChar c)
      | Some val \<Rightarrow>
          let buffer' = push_bit 5 buffer OR val; bits_left' = bits_left + 5
          in if 8 \<le> bits_left' then
               base32_decode_loop rest buffer' (bits_left' - 8)
                 (output @ [ucast (drop_bit (bits_left' - 8) buffer')])
             else base32_decode_loop rest buffer' bits_left' output)"

definition base32_decode :: "string \<Rightarrow> DecodeBase32Error + u8 list" where
  "base32_decode data = base32_decode_loop data 0 0 []"


section \<open>Hex\<close>

definition HEX_BYTES :: string where
  "HEX_BYTES =
      ''000102030405060708090a0b0c0d0e0f101112131415161718191a1b1c1d1e1f'' @
      ''202122232425262728292a2b2c2d2e2f303132333435363738393a3b3c3d3e3f'' @
      ''404142434445464748494a4b4c4d4e4f505152535455565758595a5b5c5d5e5f'' @
      ''606162636465666768696a6b6c6d6e6f707172737475767778797a7b7c7d7e7f'' @
      ''808182838485868788898a8b8c8d8e8f909192939495969798999a9b9c9d9e9f'' @
      ''a0a1a2a3a4a5a6a7a8a9aaabacadaeafb0b1b2b3b4b5b6b7b8b9babbbcbdbebf'' @
      ''c0c1c2c3c4c5c6c7c8c9cacbcccdcecfd0d1d2d3d4d5d6d7d8d9dadbdcdddedf'' @
      ''e0e1e2e3e4e5e6e7e8e9eaebecedeeeff0f1f2f3f4f5f6f7f8f9fafbfcfdfeff''"

definition hex_encode :: "u8 list \<Rightarrow> string" where
  "hex_encode data = concat (map (\<lambda>b. take 2 (drop (2 * unat b) HEX_BYTES)) data)"

datatype DecodeHexError = InvalidLength | ParseInt parse_int_error

text \<open>
  Slicing a \<open>str\<close> panics unless both ends are character boundaries; a suffix starts at a
  boundary when it is empty or its first byte is not a continuation byte.
\<close>

definition char_boundary :: "string \<Rightarrow> bool" where
  "char_boundary s = (case s of [] \<Rightarrow> True | c # _ \<Rightarrow> \<not> utf8_cont (byte_of_char c))"

fun hex_decode_pairs :: "string \<Rightarrow> u8 list \<Rightarrow> panic + (DecodeHexError + u8 list)" where
  "hex_decode_pairs (c1 # c2 # rest) output =
     (if \<not> char_boundary (c1 # c2 # rest) \<or> \<not> char_boundary rest then Inl CharBoundary
      else case from_str_radix 16 255 [c1, c2] of
        Inl e \<Rightarrow> Inr (Inl (ParseInt e))
      | Inr v \<Rightarrow> hex_decode_pairs rest (output @ [word_of_nat v]))"
| "hex_decode_pairs _ output = Inr (Inr output)"

definition hex_decode :: "string \<Rightarrow> panic + (DecodeHexError + u8 list)" where
  "hex_decode data =
     (if odd (length data) then Inr (Inl InvalidLength) else hex_decode_pairs data [])"


section \<open>Percent-encoding\<close>

definition SAFE_CHARS :: string where
  "SAFE_CHARS = ''ABCDEFGHIJKLMNOPQRSTUVWXYZabcdefghijklmnopqrstuvwxyz0123456789-_.~''"

definition upper_hex :: "nat \<Rightarrow> char" where
  "upper_hex d = char_of (if d < 10 then 48 + d else 55 + d)"

definition url_encode_byte :: "u8 \<Rightarrow> string" where
  "url_encode_byte b =
     (if char_of_byte b \<in> set SAFE_CHARS then [char_of_byte b]
      else [CHR ''%'', upper_hex (unat b div 16), upper_hex (unat b mod 16)])"

definition url_encode :: "u8 list \<Rightarrow> string" where
  "url_encode data = concat (map url_encode_byte data)"

datatype DecodeUrlError = InvalidHex string | UnexpectedEnd | InvalidUtf8

fun url_decode_loop :: "string \<Rightarrow> u8 list \<Rightarrow> DecodeUrlError + u8 list" where
  "url_decode_loop [] bytes = Inr bytes"
| "url_decode_loop (c # cs) bytes =
     (if c = CHR ''%'' then
        (case cs of
           h1 # h2 # rest \<Rightarrow>
             (let hex_str = (if utf8_valid (as_bytes [h1, h2]) then [h1, h2] else [])
              in case from_str_radix 16 255 hex_str of
                   Inl e \<Rightarrow> Inl (InvalidHex hex_str)
                 | Inr v \<Rightarrow> url_decode_loop rest (bytes @ [word_of_nat v]))
         | _ \<Rightarrow> Inl UnexpectedEnd)
      else url_decode_loop cs (bytes @ [byte_of_char c]))"

definition url_decode :: "string \<Rightarrow> DecodeUrlError + string" where
  "url_decode data =
     (case url_decode_loop data [] of
        Inl e \<Rightarrow> Inl e
      | Inr bytes \<Rightarrow> if utf8_valid bytes then Inr (of_bytes bytes) else Inl InvalidUtf8)"


section \<open>Base32 against the bit string\<close>

text \<open>The bit string a Base32 text stands for: five bits per character.\<close>

definition base32_bits :: "string \<Rightarrow> bool list" where
  "base32_bits s = concat (map (\<lambda>c. bits_be 5 (the (base32_value c))) s)"

abbreviation byte_bits :: "u8 list \<Rightarrow> bool list" where
  "byte_bits data \<equiv> concat (map (bits_be 8) data)"

lemma base32_bits_simps [simp]:
  "base32_bits [] = []"
  "base32_bits (c # s) = bits_be 5 (the (base32_value c)) @ base32_bits s"
  "base32_bits (s @ t) = base32_bits s @ base32_bits t"
  by (simp_all add: base32_bits_def)

lemma base32_value_alphabet: "n < 32 \<Longrightarrow> base32_value (BASE32_ALPHABET ! n) = Some (word_of_nat n)"
proof -
  have "list_all (\<lambda>n. base32_value (BASE32_ALPHABET ! n) = Some (word_of_nat n)) [0..<32]"
    by (simp add: upt_rec BASE32_ALPHABET_def base32_value_def)
  then show "n < 32 \<Longrightarrow> ?thesis" by (simp add: list_all_iff)
qed

lemma base32_value_bound: "base32_value c = Some v \<Longrightarrow> unat v < 2 ^ 5"
  by (auto simp: base32_value_def Let_def unat_of_nat take_bit_eq_mod simp del: of_nat_diff of_nat_add
      split: if_splits)

lemma and_31 [simp]: "(w::u16) AND 0x1F = w AND mask 5"
  by (simp add: mask_eq_exp_minus_1)

lemma unat_and_mask5: "unat ((w::u16) AND mask 5) < 32"
proof -
  have "w AND mask 5 \<le> mask 5" by (rule word_and_le1)
  then have "unat (w AND mask 5) \<le> unat (mask 5 :: u16)" by (simp only: word_le_nat_alt)
  then show ?thesis by (simp add: mask_eq_exp_minus_1 del: and_31)
qed

lemma base32_char_bits:
  fixes w :: u16
  defines "c \<equiv> BASE32_ALPHABET ! unat (w AND mask 5)"
  shows "c \<in> set BASE32_ALPHABET" and "bits_be 5 (the (base32_value c)) = bits_be 5 w"
proof -
  have less: "unat (w AND mask 5) < 32" by (rule unat_and_mask5)
  then show "c \<in> set BASE32_ALPHABET"
    unfolding c_def by (intro nth_mem) (simp add: BASE32_ALPHABET_def)
  have "bits_be 5 (the (base32_value c)) = bits_be 5 (ucast (w AND mask 5) :: u32)"
    using base32_value_alphabet [OF less] by (simp add: c_def unsigned_ucast_eq)
  also have "\<dots> = bits_be 5 w"
    by (simp add: bits_be_ucast)
  finally show "bits_be 5 (the (base32_value c)) = bits_be 5 w" .
qed

lemma base32_emit_spec:
  assumes "k \<le> 16"
  shows "\<exists>s. base32_emit buffer k encoded = (k mod 5, encoded @ s) \<and>
    set s \<subseteq> set BASE32_ALPHABET \<and> bits_be k buffer = base32_bits s @ bits_be (k mod 5) buffer"
  using assms
proof (induction buffer k encoded rule: base32_emit.induct)
  case (1 buffer k encoded)
  show ?case
  proof (cases "5 \<le> k")
    case False
    then show ?thesis by (simp add: base32_emit.simps [of buffer k])
  next
    case True
    define c where "c = BASE32_ALPHABET ! unat (drop_bit (k - 5) buffer AND mask 5)"
    have "take 5 (bits_be k buffer) @ drop 5 (bits_be k buffer) =
        bits_be 5 (the (base32_value c)) @ bits_be (k - 5) buffer"
      using True by (simp only: take_bits_be drop_bits_be c_def base32_char_bits(2))
    then have split: "bits_be k buffer = bits_be 5 (the (base32_value c)) @ bits_be (k - 5) buffer"
      by simp
    have c: "c \<in> set BASE32_ALPHABET" by (simp add: c_def base32_char_bits(1))
    obtain s where "base32_emit buffer (k - 5) (encoded @ [c]) = (k mod 5, (encoded @ [c]) @ s)"
      and "set s \<subseteq> set BASE32_ALPHABET"
      and "bits_be (k - 5) buffer = base32_bits s @ bits_be (k mod 5) buffer"
    proof -
      have "k - 5 \<le> 16" using "1.prems" by simp
      from "1.IH" [OF True refl this] that show thesis
        unfolding le_mod_geq [OF True] c_def and_31 [symmetric] by blast
    qed
    with True split c show ?thesis
      by (intro exI [of _ "c # s"]) (simp add: base32_emit.simps [of buffer k] c_def [symmetric])
  qed
qed

lemma base32_push_byte:
  assumes "k < 5"
  shows "bits_be (k + 8) (push_bit 8 buffer OR ucast (byte::u8) :: u16) = bits_be k buffer @ bits_be 8 byte"
proof -
  have "unat byte < 2 ^ LENGTH(8)" by (rule unsigned_less)
  then have "unat (ucast byte :: u16) < 2 ^ 8"
    by (simp add: unsigned_ucast_eq take_bit_nat_eq_self)
  then show ?thesis
    using assms by (subst bits_be_push) (simp_all add: bits_be_ucast)
qed

lemma base32_encode_loop_spec:
  assumes "k < 5"
  shows "\<exists>buffer' k' s. base32_encode_loop data buffer k encoded = (buffer', k', encoded @ s) \<and>
    k' < 5 \<and> set s \<subseteq> set BASE32_ALPHABET \<and>
    bits_be k buffer @ byte_bits data = base32_bits s @ bits_be k' buffer'"
  using assms
proof (induction data arbitrary: buffer k encoded)
  case Nil
  then show ?case by auto
next
  case (Cons byte data)
  define buffer1 where "buffer1 = push_bit 8 buffer OR (ucast byte :: u16)"
  from Cons.prems have "k + 8 \<le> 16" by simp
  from base32_emit_spec [OF this, of buffer1 encoded] obtain s1 where
    e: "base32_emit buffer1 (k + 8) encoded = ((k + 8) mod 5, encoded @ s1)"
    and s1: "set s1 \<subseteq> set BASE32_ALPHABET"
    and b1: "bits_be (k + 8) buffer1 = base32_bits s1 @ bits_be ((k + 8) mod 5) buffer1"
    by auto
  obtain buffer' k' s where
    l: "base32_encode_loop data buffer1 ((k + 8) mod 5) (encoded @ s1) = (buffer', k', (encoded @ s1) @ s)"
    and "k' < 5" "set s \<subseteq> set BASE32_ALPHABET"
    and "bits_be ((k + 8) mod 5) buffer1 @ byte_bits data = base32_bits s @ bits_be k' buffer'"
    using Cons.IH [of "(k + 8) mod 5" buffer1 "encoded @ s1"] by auto
  moreover have "bits_be k buffer @ bits_be 8 byte = bits_be (k + 8) buffer1"
    using base32_push_byte [OF Cons.prems] by (simp add: buffer1_def)
  ultimately have "(bits_be k buffer @ bits_be 8 byte) @ byte_bits data = base32_bits (s1 @ s) @ bits_be k' buffer'"
    by (simp add: b1)
  with l e s1 \<open>k' < 5\<close> \<open>set s \<subseteq> set BASE32_ALPHABET\<close> show ?case
    by (intro exI [of _ buffer'] exI [of _ k'] exI [of _ "s1 @ s"]) (simp add: buffer1_def [symmetric])
qed

lemma base32_encode_bits:
  "\<exists>p<5. base32_bits (base32_encode data) = byte_bits data @ replicate p False \<and>
     set (base32_encode data) \<subseteq> set BASE32_ALPHABET"
proof -
  obtain b k s where l: "base32_encode_loop data 0 0 [] = (b, k, s)"
    and k: "k < 5" and s: "set s \<subseteq> set BASE32_ALPHABET"
    and bits: "byte_bits data = base32_bits s @ bits_be k b"
    using base32_encode_loop_spec [of 0 data 0 "[]"] by auto
  show ?thesis
  proof (cases "k = 0")
    case True
    with l s bits show ?thesis by (auto simp: base32_encode_def intro: exI [of _ 0])
  next
    case False
    define c where "c = BASE32_ALPHABET ! unat (push_bit (5 - k) b AND mask 5)"
    have "bits_be (k + (5 - k)) (push_bit (5 - k) b OR 0) = bits_be k b @ bits_be (5 - k) (0 :: u16)"
      using k by (intro bits_be_push) auto
    then have "bits_be 5 (the (base32_value c)) = bits_be k b @ replicate (5 - k) False"
      using k by (simp add: c_def base32_char_bits(2) bits_be_zero)
    moreover have "base32_encode data = s @ [c]"
      using l False by (simp add: base32_encode_def c_def)
    moreover have "c \<in> set BASE32_ALPHABET" by (simp add: c_def base32_char_bits(1))
    ultimately show ?thesis
      using False s bits by (intro exI [of _ "5 - k"]) simp
  qed
qed

lemma base32_decode_loop_spec:
  assumes "k < 8" and "\<And>c. c \<in> set s \<Longrightarrow> base32_value c \<noteq> None"
  shows "\<exists>out (buffer' :: u32) k'. base32_decode_loop s buffer k acc = Inr (acc @ out) \<and>
    k' < 8 \<and> bits_be k buffer @ base32_bits s = byte_bits out @ bits_be k' buffer'"
  using assms
proof (induction s arbitrary: buffer k acc)
  case Nil
  then show ?case by (intro exI [of _ "[]"] exI [of _ buffer] exI [of _ k]) simp
next
  case (Cons c s)
  from Cons.prems(2) obtain v where v: "base32_value c = Some v" by fastforce
  define buffer1 where "buffer1 = push_bit 5 buffer OR v"
  have b1: "bits_be (k + 5) buffer1 = bits_be k buffer @ bits_be 5 v"
    using Cons.prems(1) base32_value_bound [OF v] unfolding buffer1_def by (intro bits_be_push) auto
  show ?case
  proof (cases "8 \<le> k + 5")
    case False
    from Cons.IH [of "k + 5" buffer1 acc] Cons.prems(2) False v b1 show ?thesis
      by (auto simp: buffer1_def [symmetric])
  next
    case True
    define x :: u8 where "x = ucast (drop_bit (k + 5 - 8) buffer1)"
    have "take 8 (bits_be (k + 5) buffer1) = bits_be 8 x"
      using True by (simp add: take_bits_be x_def bits_be_ucast)
    moreover have "drop 8 (bits_be (k + 5) buffer1) = bits_be (k + 5 - 8) buffer1"
      using True by (simp add: drop_bits_be)
    ultimately have split: "bits_be (k + 5) buffer1 = bits_be 8 x @ bits_be (k + 5 - 8) buffer1"
      by (metis append_take_drop_id)
    obtain out and buffer' :: u32 and k' where
      "base32_decode_loop s buffer1 (k + 5 - 8) (acc @ [x]) = Inr ((acc @ [x]) @ out)"
      "k' < 8" "bits_be (k + 5 - 8) buffer1 @ base32_bits s = byte_bits out @ bits_be k' buffer'"
      using Cons.IH [of "k + 5 - 8" buffer1 "acc @ [x]"] Cons.prems by fastforce
    moreover from this have "(bits_be k buffer @ bits_be 5 v) @ base32_bits s = byte_bits (x # out) @ bits_be k' buffer'"
      unfolding b1 [symmetric] split by simp
    ultimately show ?thesis
      using True v by (intro exI [of _ "x # out"] exI [of _ buffer'] exI [of _ k'])
        (simp add: buffer1_def [symmetric] x_def)
  qed
qed

lemma base32_alphabet_value: "c \<in> set BASE32_ALPHABET \<Longrightarrow> base32_value c \<noteq> None"
proof -
  assume "c \<in> set BASE32_ALPHABET"
  moreover have "length BASE32_ALPHABET = 32" by (simp add: BASE32_ALPHABET_def)
  ultimately obtain n where "n < 32" "c = BASE32_ALPHABET ! n"
    by (auto simp: in_set_conv_nth)
  then show ?thesis by (simp add: base32_value_alphabet)
qed

lemma base32_decode_encode: "base32_decode (base32_encode data) = Inr data"
proof -
  obtain p where p: "p < 5"
    and bits: "base32_bits (base32_encode data) = byte_bits data @ replicate p False"
    and alph: "set (base32_encode data) \<subseteq> set BASE32_ALPHABET"
    using base32_encode_bits by blast
  obtain out and b :: u32 and k where out: "base32_decode (base32_encode data) = Inr out" and k: "k < 8"
    and eq: "base32_bits (base32_encode data) = byte_bits out @ bits_be k b"
  proof -
    have "base32_value c \<noteq> None" if "c \<in> set (base32_encode data)" for c
      using that alph base32_alphabet_value by blast
    from base32_decode_loop_spec [of 0 "base32_encode data" 0 "[]", OF _ this] that show thesis
      by (auto simp: base32_decode_def)
  qed
  from bits eq have eq': "byte_bits data @ replicate p False = byte_bits out @ bits_be k b" by simp
  then have "8 * length data + p = 8 * length out + k"
    by (metis length_append length_bits_be length_concat_bits length_replicate)
  with p k have len: "length data = length out" by presburger
  with eq' have "byte_bits data = byte_bits out" by (simp add: append_eq_append_conv)
  then have "data = out" by (intro concat_bits_inject) simp
  with out show ?thesis by simp
qed

lemma base32_decode_loop_error:
  "base32_decode_loop s buffer k acc = Inl (InvalidChar c) \<longleftrightarrow>
     (\<exists>p q. s = p @ c # q \<and> base32_value c = None \<and> (\<forall>d\<in>set p. base32_value d \<noteq> None))"
proof (induction s arbitrary: buffer k acc)
  case Nil
  then show ?case by simp
next
  case (Cons d s)
  show ?case
  proof (cases "base32_value d")
    case None
    then show ?thesis by (auto simp: Cons_eq_append_conv)
  next
    case (Some v)
    have "(\<exists>p q. d # s = p @ c # q \<and> base32_value c = None \<and> (\<forall>e\<in>set p. base32_value e \<noteq> None)) \<longleftrightarrow>
        (\<exists>p q. s = p @ c # q \<and> base32_value c = None \<and> (\<forall>e\<in>set p. base32_value e \<noteq> None))"
      (is "?L \<longleftrightarrow> ?R")
    proof
      assume ?L
      then obtain p q where pq: "d # s = p @ c # q" "base32_value c = None" "\<forall>e\<in>set p. base32_value e \<noteq> None"
        by blast
      with Some obtain p' where "p = d # p'" by (cases p) auto
      with pq show ?R by auto
    next
      assume ?R
      then obtain p q where "s = p @ c # q" "base32_value c = None" "\<forall>e\<in>set p. base32_value e \<noteq> None"
        by blast
      with Some show ?L by (intro exI [of _ "d # p"] exI [of _ q]) simp
    qed
    moreover have "base32_decode_loop (d # s) buffer k acc = Inl (InvalidChar c) \<longleftrightarrow> ?R"
      by (simp only: base32_decode_loop.simps Some option.case Let_def Cons.IH if_cancel split: if_split) simp
    ultimately show ?thesis by (simp only:)
  qed
qed

lemma length_base32_bits [simp]: "length (base32_bits s) = 5 * length s"
  by (induction s) auto

lemma length_base32_encode: "length (base32_encode data) = (8 * length data + 4) div 5"
proof -
  obtain p where p: "p < 5" and bits: "base32_bits (base32_encode data) = byte_bits data @ replicate p False"
    using base32_encode_bits by blast
  have "5 * length (base32_encode data) = 8 * length data + p"
    using arg_cong [OF bits, of length] by simp
  with p have "8 * length data + 4 = (4 - p) + 5 * length (base32_encode data)" by linarith
  then show ?thesis using p by simp
qed


section \<open>Hex and percent-encoding\<close>

lemma upper_hex_numeral [simp]:
  "upper_hex 0 = CHR ''0''"
  "upper_hex (Suc 0) = CHR ''1''"
  "upper_hex (Suc (Suc 0)) = CHR ''2''"
  "upper_hex 1 = CHR ''1''"
  "upper_hex 2 = CHR ''2''"
  "upper_hex 3 = CHR ''3''"
  "upper_hex 4 = CHR ''4''"
  "upper_hex 5 = CHR ''5''"
  "upper_hex 6 = CHR ''6''"
  "upper_hex 7 = CHR ''7''"
  "upper_hex 8 = CHR ''8''"
  "upper_hex 9 = CHR ''9''"
  "upper_hex 10 = CHR ''A''"
  "upper_hex 11 = CHR ''B''"
  "upper_hex 12 = CHR ''C''"
  "upper_hex 13 = CHR ''D''"
  "upper_hex 14 = CHR ''E''"
  "upper_hex 15 = CHR ''F''"
  by (simp_all add: upper_hex_def char_of_def bit_0 bit_Suc)

lemma take_drop_concat:
  assumes "\<And>x. x \<in> set xs \<Longrightarrow> length (f x) = m" and "k < length xs" and "j + t \<le> m"
  shows "take t (drop (k * m + j) (concat (map f xs))) = take t (drop j (f (xs ! k)))"
  using assms
proof (induction xs arbitrary: k)
  case Nil
  then show ?case by simp
next
  case (Cons x xs)
  show ?case
  proof (cases k)
    case 0
    with Cons.prems show ?thesis by simp
  next
    case (Suc k')
    with Cons.prems Cons.IH [of k'] show ?thesis by simp
  qed
qed

lemma HEX_BYTES_table:
  "HEX_BYTES = concat (map (\<lambda>h. concat (map (\<lambda>l. [digit_char h, digit_char l]) [0..<16])) [0..<16])"
proof -
  have "[0..<16] = [0, 1, 2, 3, 4, 5, 6, 7, 8, 9, 10, 11, 12, 13, 14, 15]"
    by (simp add: upt_rec)
  then show ?thesis
    by (simp only: HEX_BYTES_def list.map concat.simps append.simps digit_char_numeral)
qed

lemma hex_pair_table:
  assumes "n < 256"
  shows "take 2 (drop (2 * n) HEX_BYTES) = [digit_char (n div 16), digit_char (n mod 16)]"
proof -
  obtain h l where h: "h < 16" and l: "l < 16" and n: "n = 16 * h + l"
    using assms by (intro that [of "n div 16" "n mod 16"]) auto
  let ?row = "\<lambda>h. concat (map (\<lambda>l. [digit_char h, digit_char l]) [0..<16])"
  have len: "length (?row x) = 32" for x
    by (simp add: length_concat o_def sum_list_triv)
  have "take 2 (drop (2 * n) HEX_BYTES) = take 2 (drop (h * 32 + l * 2) (concat (map ?row [0..<16])))"
    unfolding HEX_BYTES_table n by (simp add: algebra_simps)
  also have "\<dots> = take 2 (drop (l * 2) (?row ([0..<16] ! h)))"
    using h l by (intro take_drop_concat) (simp_all add: len)
  also have "\<dots> = take 2 (drop (l * 2 + 0) (?row h))"
    using h by simp
  also have "\<dots> = take 2 (drop 0 [digit_char h, digit_char ([0..<16] ! l)])"
    using l by (intro take_drop_concat) simp_all
  finally show ?thesis
    using l by (simp add: n)
qed

lemma unat_byte_less: "unat (b::u8) < 256"
proof -
  have "unat b < 2 ^ LENGTH(8)" by (rule unsigned_less)
  then show ?thesis by simp
qed

lemma digit_char_ascii: "d < 36 \<Longrightarrow> byte_of_char (digit_char d) < 0x80"
  by (auto simp: digit_char_def word_less_nat_alt of_char_of)

lemma upper_hex_ascii: "d < 16 \<Longrightarrow> byte_of_char (upper_hex d) < 0x80"
  by (auto simp: upper_hex_def word_less_nat_alt of_char_of)

lemma to_digit_upper_hex: "d < 16 \<Longrightarrow> to_digit 16 (upper_hex d) = Some d"
  by (auto simp: to_digit_def upper_hex_def of_char_of)

lemma from_str_radix_pair:
  assumes "to_digit 16 h = Some a" and "to_digit 16 l = Some b"
  shows "from_str_radix 16 255 [h, l] = Inr (16 * a + b)"
proof -
  have "a < 16" "b < 16" using assms by (auto simp: to_digit_def Let_def split: if_splits option.splits)
  moreover have "h \<noteq> CHR ''+''" using assms(1) by (auto simp: to_digit_def)
  ultimately show ?thesis using assms by (simp add: from_str_radix_def)
qed

lemma not_cont_ascii: "b < 0x80 \<Longrightarrow> \<not> utf8_cont b"
  by (auto simp: utf8_cont_def)

lemma hex_decode_pairs_encode: "hex_decode_pairs (hex_encode data) acc = Inr (Inr (acc @ data))"
proof (induction data arbitrary: acc)
  case Nil
  then show ?case by (simp add: hex_encode_def)
next
  case (Cons b data)
  define h l where "h = digit_char (unat b div 16)" and "l = digit_char (unat b mod 16)"
  have b: "unat b < 256" by (rule unat_byte_less)
  then have enc: "hex_encode (b # data) = h # l # hex_encode data"
    by (simp add: hex_encode_def hex_pair_table h_def l_def)
  have "to_digit 16 h = Some (unat b div 16)" "to_digit 16 l = Some (unat b mod 16)"
    using b by (simp_all add: h_def l_def to_digit_digit_char)
  then have "from_str_radix 16 255 [h, l] = Inr (16 * (unat b div 16) + unat b mod 16)"
    by (rule from_str_radix_pair)
  then have val: "from_str_radix 16 255 [h, l] = Inr (unat b)" by simp
  have bound: "char_boundary (hex_encode bs)" for bs
  proof (cases bs)
    case Nil
    then show ?thesis by (simp add: hex_encode_def char_boundary_def)
  next
    case (Cons x xs)
    have "unat x < 256" by (rule unat_byte_less)
    then show ?thesis
      using Cons digit_char_ascii [of "unat x div 16"]
      by (auto simp: hex_encode_def hex_pair_table char_boundary_def not_cont_ascii)
  qed
  with bound [of "b # data"] val Cons.IH [of "acc @ [b]"] show ?case
    by (simp add: enc)
qed

lemma hex_decode_encode: "hex_decode (hex_encode data) = Inr (Inr data)"
proof -
  have "length (hex_encode data) = 2 * length data"
    by (induction data) (simp_all add: hex_encode_def hex_pair_table unat_byte_less)
  then show ?thesis by (simp add: hex_decode_def hex_decode_pairs_encode)
qed

lemma url_decode_loop_encode:
  "url_decode_loop (url_encode data @ rest) acc = url_decode_loop rest (acc @ data)"
proof (induction data arbitrary: acc)
  case Nil
  then show ?case by (simp add: url_encode_def)
next
  case (Cons b data)
  have IH: "url_decode_loop (url_encode data @ rest) (acc @ [b]) = url_decode_loop rest (acc @ b # data)"
    using Cons.IH [of "acc @ [b]"] by simp
  show ?case
  proof (cases "char_of_byte b \<in> set SAFE_CHARS")
    case True
    then have "char_of_byte b \<noteq> CHR ''%''" by (auto simp: SAFE_CHARS_def)
    with True IH show ?thesis by (simp add: url_encode_def url_encode_byte_def)
  next
    case False
    define h l where "h = upper_hex (unat b div 16)" and "l = upper_hex (unat b mod 16)"
    have b: "unat b div 16 < 16" "unat b mod 16 < 16" using unat_byte_less [of b] by auto
    then have "to_digit 16 h = Some (unat b div 16)" "to_digit 16 l = Some (unat b mod 16)"
      by (simp_all add: h_def l_def to_digit_upper_hex)
    then have "from_str_radix 16 255 [h, l] = Inr (16 * (unat b div 16) + unat b mod 16)"
      by (rule from_str_radix_pair)
    then have val: "from_str_radix 16 255 [h, l] = Inr (unat b)" by simp
    have "utf8_valid (as_bytes [h, l])"
      using b by (simp add: h_def l_def upper_hex_ascii)
    with False val IH show ?thesis
      by (simp add: url_encode_def url_encode_byte_def h_def [symmetric] l_def [symmetric])
  qed
qed

lemma url_decode_encode:
  assumes "utf8_valid (as_bytes s)"
  shows "url_decode (url_encode (as_bytes s)) = Inr s"
  using assms url_decode_loop_encode [of "as_bytes s" "[]" "[]"] by (simp add: url_decode_def)

lemma upper_hex_safe:
  assumes "d < 16"
  shows "upper_hex d \<in> set SAFE_CHARS"
proof -
  have "list_all (\<lambda>d. upper_hex d \<in> set SAFE_CHARS) [0, 1, 2, 3, 4, 5, 6, 7, 8, 9, 10, 11, 12, 13, 14, 15]"
    by (simp add: SAFE_CHARS_def)
  moreover have "d \<in> set [0, 1, 2, 3, 4, 5, 6, 7, 8, 9, 10, 11, 12, 13, 14, 15]"
    using assms by (simp, arith)
  ultimately show ?thesis by (simp only: list_all_iff)
qed

lemma url_encode_chars: "set (url_encode data) \<subseteq> insert (CHR ''%'') (set SAFE_CHARS)"
proof -
  have "set (url_encode_byte b) \<subseteq> insert (CHR ''%'') (set SAFE_CHARS)" for b
    using unat_byte_less [of b] by (auto simp: url_encode_byte_def intro: upper_hex_safe)
  then show ?thesis by (auto simp: url_encode_def)
qed

lemma url_encode_eq_Nil_iff [simp]: "url_encode data = [] \<longleftrightarrow> data = []"
  by (cases data) (simp_all add: url_encode_def url_encode_byte_def)

interpretation base32: codec base32_encode base32_decode "\<lambda>_. True" "set BASE32_ALPHABET"
proof unfold_locales
  show "base32_decode (base32_encode x) = Inr x" for x by (rule base32_decode_encode)
  show "set (base32_encode x) \<subseteq> set BASE32_ALPHABET" for x
    using base32_encode_bits [of x] by blast
qed

interpretation url: codec "\<lambda>s. url_encode (as_bytes s)" url_decode "\<lambda>s. utf8_valid (as_bytes s)"
  "insert (CHR ''%'') (set SAFE_CHARS)"
proof unfold_locales
  show "url_decode (url_encode (as_bytes s)) = Inr s" if "utf8_valid (as_bytes s)" for s
    using that by (rule url_decode_encode)
  show "set (url_encode (as_bytes s)) \<subseteq> insert (CHR ''%'') (set SAFE_CHARS)" for s
    by (rule url_encode_chars)
qed


section \<open>Properties\<close>

text \<open>C37. Base32: decoding inverts encoding on every byte string, the text has the unpadded
  length, and decoding fails exactly on the first character outside the accepted alphabet.\<close>

theorem base32_codec:
  "base32_decode (base32_encode d) = Inr d \<and>
   length (base32_encode d) = (8 * length d + 4) div 5 \<and>
   (base32_decode s = Inl (InvalidChar c) \<longleftrightarrow>
      (\<exists>p q. s = p @ c # q \<and> base32_value c = None \<and> list_all (\<lambda>x. base32_value x \<noteq> None) p))"
  unfolding list_all_iff
  by (simp only: base32_decode_encode length_base32_encode) (simp add: base32_decode_def base32_decode_loop_error)

text \<open>Percent-encoding and hex: decoding inverts encoding, on every valid UTF-8 string and on
  every byte string.\<close>

theorem url_hex_roundtrip:
  assumes "utf8_valid (as_bytes s)"
  shows "url_decode (url_encode (as_bytes s)) = Inr s \<and> hex_decode (hex_encode d) = Inr (Inr d)"
  using assms by (simp add: url_decode_encode hex_decode_encode)

theorem url_hex_roundtrip_witness:
  "url_decode (url_encode (as_bytes ''a:b/c'')) = Inr ''a:b/c'' \<and> hex_decode (hex_encode [0, 255]) = Inr (Inr [0, 255])"
  using url_hex_roundtrip [of "''a:b/c''" "[0, 255]"] by (simp add: byte_of_char_def)

end
