(* ===== verification/Otp_Hash.thy ===== *)
theory Otp_Hash
  imports Prelude
begin

unbundle bit_operations_syntax

text \<open>
  The hash functions of the OTP crate (\<open>alg/sha1.rs\<close>, \<open>alg/sha256.rs\<close>, \<open>alg/sha512.rs\<close>,
  \<open>alg/mod.rs\<close>) and the HMAC built on them (\<open>hmac.rs\<close>). The arrays of the source are lists
  of fixed length, updated by index in the order of the source's loops.

  The padding is compared with the one of RFC 3174 and RFC 6234. \<open>Vec::resize\<close> shortens a
  vector when the requested length is smaller, and the length the code asks for is smaller
  than the message with its \<open>0x80\<close> mark when the message length is 56 to 62 modulo the
  64-byte block (112 to 126 modulo 128 for SHA-512). The theorems state exactly for which
  lengths the padding is the RFC's, and what happens for the others.
\<close>


section \<open>Byte order and chunks\<close>

text \<open>\<open>slice::chunks\<close>: pieces of the given size, the last one possibly shorter.\<close>

fun chunks :: "nat \<Rightarrow> 'a list \<Rightarrow> 'a list list" where
  "chunks n xs = (if n = 0 \<or> xs = [] then [] else take n xs # chunks n (drop n xs))"

declare chunks.simps [simp del]

text \<open>\<open>Vec::resize\<close>: pad with a value, or truncate.\<close>

definition resize :: "nat \<Rightarrow> 'a \<Rightarrow> 'a list \<Rightarrow> 'a list" where
  "resize n x xs = (if length xs \<le> n then xs @ replicate (n - length xs) x else take n xs)"

text \<open>The bytes of the word at index \<open>i\<close> of a chunk, and the write of a word into the digest.\<close>

definition chunk_word :: "nat \<Rightarrow> u8 list \<Rightarrow> nat \<Rightarrow> u8 list" where
  "chunk_word n chunk i = map (\<lambda>j. chunk ! (i * n + j)) [0..<n]"


section \<open>SHA-1\<close>

definition sha1_padded :: "u8 list \<Rightarrow> u8 list" where
  "sha1_padded input =
     (let bit_len = (word_of_nat (length input) * 8 :: u64);
          padded = input @ [0x80];
          padded = resize ((length padded + 64) div 64 * 64 - 8) 0x00 padded
      in padded @ to_be_bytes bit_len)"

type_synonym sha1_state = "u32 \<times> u32 \<times> u32 \<times> u32 \<times> u32"

definition sha1_init :: sha1_state where
  "sha1_init = (0x67452301, 0xEFCDAB89, 0x98BADCFE, 0x10325476, 0xC3D2E1F0)"

definition sha1_words :: "u8 list \<Rightarrow> u32 list" where
  "sha1_words chunk =
     (let words = replicate 80 0;
          words = fold (\<lambda>i w. w[i := from_be_bytes (chunk_word 4 chunk i)]) [0..<16] words
      in fold (\<lambda>i w. w[i := word_rotl 1 (w ! (i - 3) XOR w ! (i - 8) XOR w ! (i - 14) XOR w ! (i - 16))])
           [16..<80] words)"

definition sha1_f :: "nat \<Rightarrow> u32 \<Rightarrow> u32 \<Rightarrow> u32 \<Rightarrow> u32 \<times> u32" where
  "sha1_f i b c d =
     (if i < 20 then ((b AND c) OR (NOT b AND d), 0x5A827999)
      else if i < 40 then (b XOR c XOR d, 0x6ED9EBA1)
      else if i < 60 then ((b AND c) OR (b AND d) OR (c AND d), 0x8F1BBCDC)
      else (b XOR c XOR d, 0xCA62C1D6))"

definition sha1_round :: "u32 list \<Rightarrow> nat \<Rightarrow> sha1_state \<Rightarrow> sha1_state" where
  "sha1_round words i s =
     (let (a, b, c, d, e) = s;
          (f, k) = sha1_f i b c d;
          temp = word_rotl 5 a + f + e + k + words ! i
      in (temp, a, word_rotl 30 b, c, d))"

definition sha1_block :: "u8 list \<Rightarrow> sha1_state \<Rightarrow> sha1_state" where
  "sha1_block chunk s =
     (let (s0, s1, s2, s3, s4) = s;
          words = sha1_words chunk;
          (a, b, c, d, e) = fold (sha1_round words) [0..<80] s
      in (s0 + a, s1 + b, s2 + c, s3 + d, s4 + e))"

definition sha1_digest :: "sha1_state \<Rightarrow> u8 list" where
  "sha1_digest s = (let (a, b, c, d, e) = s in concat (map to_be_bytes [a, b, c, d, e]))"

definition sha1 :: "u8 list \<Rightarrow> u8 list" where
  "sha1 input = sha1_digest (fold sha1_block (chunks 64 (sha1_padded input)) sha1_init)"


section \<open>SHA-256\<close>

text \<open>The tables of round constants are written row by row as in the source.\<close>

definition K256 :: "u32 list" where
  "K256 = concat [
    [0x428a2f98, 0x71374491, 0xb5c0fbcf, 0xe9b5dba5, 0x3956c25b, 0x59f111f1, 0x923f82a4],
    [0xab1c5ed5, 0xd807aa98, 0x12835b01, 0x243185be, 0x550c7dc3, 0x72be5d74, 0x80deb1fe],
    [0x9bdc06a7, 0xc19bf174, 0xe49b69c1, 0xefbe4786, 0x0fc19dc6, 0x240ca1cc, 0x2de92c6f],
    [0x4a7484aa, 0x5cb0a9dc, 0x76f988da, 0x983e5152, 0xa831c66d, 0xb00327c8, 0xbf597fc7],
    [0xc6e00bf3, 0xd5a79147, 0x06ca6351, 0x14292967, 0x27b70a85, 0x2e1b2138, 0x4d2c6dfc],
    [0x53380d13, 0x650a7354, 0x766a0abb, 0x81c2c92e, 0x92722c85, 0xa2bfe8a1, 0xa81a664b],
    [0xc24b8b70, 0xc76c51a3, 0xd192e819, 0xd6990624, 0xf40e3585, 0x106aa070, 0x19a4c116],
    [0x1e376c08, 0x2748774c, 0x34b0bcb5, 0x391c0cb3, 0x4ed8aa4a, 0x5b9cca4f, 0x682e6ff3],
    [0x748f82ee, 0x78a5636f, 0x84c87814, 0x8cc70208, 0x90befffa, 0xa4506ceb, 0xbef9a3f7],
    [0xc67178f2]]"

definition sha256_padded :: "u8 list \<Rightarrow> u8 list" where
  "sha256_padded input =
     (let bit_len = (word_of_nat (length input) * 8 :: u64);
          padded = input @ [0x80];
          padded = resize ((length padded + 64) div 64 * 64 - 8) 0x00 padded
      in padded @ to_be_bytes bit_len)"

type_synonym 'w sha2_state = "'w \<times> 'w \<times> 'w \<times> 'w \<times> 'w \<times> 'w \<times> 'w \<times> 'w"

definition sha256_init :: "u32 sha2_state" where
  "sha256_init = (0x6a09e667, 0xbb67ae85, 0x3c6ef372, 0xa54ff53a,
                  0x510e527f, 0x9b05688c, 0x1f83d9ab, 0x5be0cd19)"

definition sha256_words :: "u8 list \<Rightarrow> u32 list" where
  "sha256_words chunk =
     (let words = replicate 64 0;
          words = fold (\<lambda>i w. w[i := from_be_bytes (chunk_word 4 chunk i)]) [0..<16] words
      in fold (\<lambda>i w.
           let x = w ! (i - 15); y = w ! (i - 2);
               s0 = word_rotr 7 x XOR word_rotr 18 x XOR drop_bit 3 x;
               s1 = word_rotr 17 y XOR word_rotr 19 y XOR drop_bit 10 y
           in w[i := w ! (i - 16) + s0 + w ! (i - 7) + s1]) [16..<64] words)"

definition sha256_round :: "u32 list \<Rightarrow> nat \<Rightarrow> u32 sha2_state \<Rightarrow> u32 sha2_state" where
  "sha256_round words i s =
     (let (a, b, c, d, e, f, g, h) = s;
          s1 = word_rotr 6 e XOR word_rotr 11 e XOR word_rotr 25 e;
          ch = (e AND f) XOR (NOT e AND g);
          temp1 = h + s1 + ch + K256 ! i + words ! i;
          s0 = word_rotr 2 a XOR word_rotr 13 a XOR word_rotr 22 a;
          maj = (a AND b) XOR (a AND c) XOR (b AND c);
          temp2 = s0 + maj
      in (temp1 + temp2, a, b, c, d + temp1, e, f, g))"

definition add_state :: "'w::plus sha2_state \<Rightarrow> 'w sha2_state \<Rightarrow> 'w sha2_state" where
  "add_state s t =
     (let (s0, s1, s2, s3, s4, s5, s6, s7) = s; (a, b, c, d, e, f, g, h) = t
      in (s0 + a, s1 + b, s2 + c, s3 + d, s4 + e, s5 + f, s6 + g, s7 + h))"

definition sha256_block :: "u8 list \<Rightarrow> u32 sha2_state \<Rightarrow> u32 sha2_state" where
  "sha256_block chunk s = add_state s (fold (sha256_round (sha256_words chunk)) [0..<64] s)"

definition sha2_digest :: "'a::len word sha2_state \<Rightarrow> u8 list" where
  "sha2_digest s =
     (let (a, b, c, d, e, f, g, h) = s in concat (map to_be_bytes [a, b, c, d, e, f, g, h]))"

definition sha256 :: "u8 list \<Rightarrow> u8 list" where
  "sha256 input = sha2_digest (fold sha256_block (chunks 64 (sha256_padded input)) sha256_init)"


section \<open>SHA-512\<close>

definition K512 :: "u64 list" where
  "K512 = concat [
    [0x428a2f98d728ae22, 0x7137449123ef65cd, 0xb5c0fbcfec4d3b2f],
    [0xe9b5dba58189dbbc, 0x3956c25bf348b538, 0x59f111f1b605d019],
    [0x923f82a4af194f9b, 0xab1c5ed5da6d8118, 0xd807aa98a3030242],
    [0x12835b0145706fbe, 0x243185be4ee4b28c, 0x550c7dc3d5ffb4e2],
    [0x72be5d74f27b896f, 0x80deb1fe3b1696b1, 0x9bdc06a725c71235],
    [0xc19bf174cf692694, 0xe49b69c19ef14ad2, 0xefbe4786384f25e3],
    [0x0fc19dc68b8cd5b5, 0x240ca1cc77ac9c65, 0x2de92c6f592b0275],
    [0x4a7484aa6ea6e483, 0x5cb0a9dcbd41fbd4, 0x76f988da831153b5],
    [0x983e5152ee66dfab, 0xa831c66d2db43210, 0xb00327c898fb213f],
    [0xbf597fc7beef0ee4, 0xc6e00bf33da88fc2, 0xd5a79147930aa725],
    [0x06ca6351e003826f, 0x142929670a0e6e70, 0x27b70a8546d22ffc],
    [0x2e1b21385c26c926, 0x4d2c6dfc5ac42aed, 0x53380d139d95b3df],
    [0x650a73548baf63de, 0x766a0abb3c77b2a8, 0x81c2c92e47edaee6],
    [0x92722c851482353b, 0xa2bfe8a14cf10364, 0xa81a664bbc423001],
    [0xc24b8b70d0f89791, 0xc76c51a30654be30, 0xd192e819d6ef5218],
    [0xd69906245565a910, 0xf40e35855771202a, 0x106aa07032bbd1b8],
    [0x19a4c116b8d2d0c8, 0x1e376c085141ab53, 0x2748774cdf8eeb99],
    [0x34b0bcb5e19b48a8, 0x391c0cb3c5c95a63, 0x4ed8aa4ae3418acb],
    [0x5b9cca4f7763e373, 0x682e6ff3d6b2b8a3, 0x748f82ee5defb2fc],
    [0x78a5636f43172f60, 0x84c87814a1f0ab72, 0x8cc702081a6439ec],
    [0x90befffa23631e28, 0xa4506cebde82bde9, 0xbef9a3f7b2c67915],
    [0xc67178f2e372532b, 0xca273eceea26619c, 0xd186b8c721c0c207],
    [0xeada7dd6cde0eb1e, 0xf57d4f7fee6ed178, 0x06f067aa72176fba],
    [0x0a637dc5a2c898a6, 0x113f9804bef90dae, 0x1b710b35131c471b],
    [0x28db77f523047d84, 0x32caab7b40c72493, 0x3c9ebe0a15c9bebc],
    [0x431d67c49c100d4c, 0x4cc5d4becb3e42b6, 0x597f299cfc657e2a],
    [0x5fcb6fab3ad6faec, 0x6c44198c4a475817]]"

definition sha512_padded :: "u8 list \<Rightarrow> u8 list" where
  "sha512_padded input =
     (let bit_len = (word_of_nat (length input) * 8 :: u128);
          padded = input @ [0x80];
          padded = resize ((length padded + 128) div 128 * 128 - 16) 0x00 padded
      in padded @ to_be_bytes bit_len)"

definition sha512_init :: "u64 sha2_state" where
  "sha512_init = (0x6a09e667f3bcc908, 0xbb67ae8584caa73b, 0x3c6ef372fe94f82b, 0xa54ff53a5f1d36f1,
                  0x510e527fade682d1, 0x9b05688c2b3e6c1f, 0x1f83d9abfb41bd6b, 0x5be0cd19137e2179)"

definition sha512_words :: "u8 list \<Rightarrow> u64 list" where
  "sha512_words chunk =
     (let words = replicate 80 0;
          words = fold (\<lambda>i w. w[i := from_be_bytes (chunk_word 8 chunk i)]) [0..<16] words
      in fold (\<lambda>i w.
           let x = w ! (i - 15); y = w ! (i - 2);
               s0 = word_rotr 1 x XOR word_rotr 8 x XOR drop_bit 7 x;
               s1 = word_rotr 19 y XOR word_rotr 61 y XOR drop_bit 6 y
           in w[i := w ! (i - 16) + s0 + w ! (i - 7) + s1]) [16..<80] words)"

definition sha512_round :: "u64 list \<Rightarrow> nat \<Rightarrow> u64 sha2_state \<Rightarrow> u64 sha2_state" where
  "sha512_round words i s =
     (let (a, b, c, d, e, f, g, h) = s;
          s1 = word_rotr 14 e XOR word_rotr 18 e XOR word_rotr 41 e;
          ch = (e AND f) XOR (NOT e AND g);
          temp1 = h + s1 + ch + K512 ! i + words ! i;
          s0 = word_rotr 28 a XOR word_rotr 34 a XOR word_rotr 39 a;
          maj = (a AND b) XOR (a AND c) XOR (b AND c);
          temp2 = s0 + maj
      in (temp1 + temp2, a, b, c, d + temp1, e, f, g))"

definition sha512_block :: "u8 list \<Rightarrow> u64 sha2_state \<Rightarrow> u64 sha2_state" where
  "sha512_block chunk s = add_state s (fold (sha512_round (sha512_words chunk)) [0..<80] s)"

definition sha512 :: "u8 list \<Rightarrow> u8 list" where
  "sha512 input = sha2_digest (fold sha512_block (chunks 128 (sha512_padded input)) sha512_init)"


section \<open>Algorithm and HMAC\<close>

datatype Algorithm = SHA1 | SHA256 | SHA512

fun hash_bytes :: "Algorithm \<Rightarrow> u8 list \<Rightarrow> u8 list" where
  "hash_bytes SHA1 data = sha1 data"
| "hash_bytes SHA256 data = sha256 data"
| "hash_bytes SHA512 data = sha512 data"

fun alg_to_string :: "Algorithm \<Rightarrow> string" where
  "alg_to_string SHA1 = ''SHA1''"
| "alg_to_string SHA256 = ''SHA256''"
| "alg_to_string SHA512 = ''SHA512''"

definition HMAC_INNER_PAD :: u8 where "HMAC_INNER_PAD = 0x36"

definition HMAC_OUTER_PAD :: u8 where "HMAC_OUTER_PAD = 0x5c"

fun block_size :: "Algorithm \<Rightarrow> nat" where
  "block_size SHA1 = 64"
| "block_size SHA256 = 64"
| "block_size SHA512 = 128"

text \<open>\<open>v[..xs.len()].copy_from_slice(xs)\<close>.\<close>

definition copy_front :: "'a list \<Rightarrow> 'a list \<Rightarrow> 'a list" where
  "copy_front xs v = xs @ drop (length xs) v"

definition hmac :: "Algorithm \<Rightarrow> u8 list \<Rightarrow> u8 list \<Rightarrow> u8 list" where
  "hmac alg key message =
     (let bs = block_size alg;
          key_block = replicate bs 0;
          key_block = (if bs < length key then copy_front (hash_bytes alg key) key_block
                       else copy_front key key_block);
          inner_key_pad = map (\<lambda>i. key_block ! i XOR HMAC_INNER_PAD) [0..<bs];
          outer_key_pad = map (\<lambda>i. key_block ! i XOR HMAC_OUTER_PAD) [0..<bs];
          inner = inner_key_pad @ message;
          inner_hash = hash_bytes alg inner;
          outer = outer_key_pad @ inner_hash
      in hash_bytes alg outer)"


section \<open>Facts about the building blocks\<close>

lemma chunks_Nil [simp]: "chunks n [] = []"
  by (simp add: chunks.simps)

lemma chunks_append:
  assumes "length xs = n" and "0 < n"
  shows "chunks n (xs @ ys) = xs # chunks n ys"
  using assms by (subst chunks.simps) auto

lemma chunks_all_full:
  assumes "0 < n" and "length xs = k * n"
  shows "\<forall>c \<in> set (chunks n xs). length c = n"
  using assms
proof (induction k arbitrary: xs)
  case 0
  then show ?case by simp
next
  case (Suc k)
  then have "xs = take n xs @ drop n xs" "length (take n xs) = n" "length (drop n xs) = k * n"
    by simp_all
  with Suc.IH [of "drop n xs"] Suc.prems(1) show ?case
    by (metis chunks_append set_ConsD)
qed

lemma length_copy_front: "length xs \<le> length v \<Longrightarrow> length (copy_front xs v) = length v"
  by (simp add: copy_front_def)

text \<open>
  The loops that fill an array in increasing order: the filled entries satisfy the
  recurrence in the finished array, provided it reads smaller indices only.
\<close>

lemma fold_fill:
  fixes g :: "'a list \<Rightarrow> nat \<Rightarrow> 'a"
  assumes local: "\<And>i v w. \<lbrakk>a \<le> i; i < b; \<And>j. j < i \<Longrightarrow> v ! j = w ! j\<rbrakk> \<Longrightarrow> g v i = g w i"
    and "a \<le> b" and "b \<le> length w"
  defines "r \<equiv> fold (\<lambda>i w. w[i := g w i]) [a..<b] w"
  shows "length r = length w \<and> (\<forall>j. j < a \<or> b \<le> j \<longrightarrow> r ! j = w ! j) \<and> (\<forall>i. a \<le> i \<and> i < b \<longrightarrow> r ! i = g r i)"
  using assms(2,3) local unfolding r_def
proof (induction b rule: dec_induct)
  case base
  then show ?case by auto
next
  case (step n)
  define r' where "r' = fold (\<lambda>i w. w[i := g w i]) [a..<n] w"
  have "n \<le> length w" using step.prems(1) by simp
  moreover have "g v i = g u i" if "a \<le> i" "i < n" "\<And>j. j < i \<Longrightarrow> v ! j = u ! j" for i v u
    using that by (intro step.prems(2)) simp_all
  ultimately have IH: "length r' = length w \<and> (\<forall>j. j < a \<or> n \<le> j \<longrightarrow> r' ! j = w ! j) \<and>
      (\<forall>i. a \<le> i \<and> i < n \<longrightarrow> r' ! i = g r' i)"
    unfolding r'_def by (rule step.IH)
  have r: "fold (\<lambda>i w. w[i := g w i]) [a..<Suc n] w = r'[n := g r' n]"
    using step.hyps(1) by (simp add: r'_def)
  have g: "g (r'[n := x]) i = g r' i" if "a \<le> i" "i \<le> n" for i x
    using that by (intro step.prems(2)) auto
  show ?case
    unfolding r using IH step.prems(1) step.hyps(1) by (auto simp: less_Suc_eq nth_list_update g)
qed


section \<open>Padding\<close>

text \<open>
  The padding of the RFCs: the mark, the fewest zero bytes that leave room for the length
  field at the end of a block, the length in bits.
\<close>

definition rfc_pad :: "nat \<Rightarrow> u8 list \<Rightarrow> u8 list \<Rightarrow> u8 list" where
  "rfc_pad block lenfield m =
     m @ 0x80 # replicate ((2 * block - 1 - length lenfield - length m mod block) mod block) 0 @ lenfield"

text \<open>The padding step of the code, over the block size and the length field.\<close>

definition code_pad :: "nat \<Rightarrow> u8 list \<Rightarrow> u8 list \<Rightarrow> u8 list" where
  "code_pad block lenfield m =
     resize ((length m + 1 + block) div block * block - length lenfield) 0 (m @ [0x80]) @ lenfield"

lemma sha1_padded_code_pad:
  "sha1_padded m = code_pad 64 (to_be_bytes (word_of_nat (length m) * 8 :: u64)) m"
  by (simp add: sha1_padded_def code_pad_def)

lemma sha256_padded_code_pad:
  "sha256_padded m = code_pad 64 (to_be_bytes (word_of_nat (length m) * 8 :: u64)) m"
  by (simp add: sha256_padded_def code_pad_def)

lemma sha512_padded_code_pad:
  "sha512_padded m = code_pad 128 (to_be_bytes (word_of_nat (length m) * 8 :: u128)) m"
  by (simp add: sha512_padded_def code_pad_def)

lemmas padded_code_pad = sha1_padded_code_pad sha256_padded_code_pad sha512_padded_code_pad

lemma length_resize [simp]: "length (resize n x xs) = n"
  by (simp add: resize_def)

lemma length_code_pad:
  assumes "0 < block" and "length lenfield < block"
  shows "length (code_pad block lenfield m) = (length m + 1 + block) div block * block"
proof -
  have "(length m + 1 + block) div block = (length m + 1) div block + 1"
    using assms(1) by (intro div_add_self2) simp
  then have "block \<le> (length m + 1 + block) div block * block" by simp
  with assms(2) show ?thesis
    unfolding code_pad_def length_append length_resize by linarith
qed

text \<open>
  With \<open>r\<close> the message length modulo the block and \<open>q\<close> the number of whole blocks before:
  the code asks for \<open>(q + 1) * block - lenfield\<close> bytes, or one block more when the mark
  fills the block exactly.
\<close>

lemma code_pad_target:
  fixes block q r :: nat
  assumes "0 < block" and "r < block"
  shows "(q * block + r + 1 + block) div block * block =
    (if r + 1 = block then (q + 2) * block else (q + 1) * block)"
proof -
  have "q * block + r + 1 + block = r + 1 + (q + 1) * block" by simp
  then have "(q * block + r + 1 + block) div block = (r + 1 + (q + 1) * block) div block"
    by (simp only:)
  also have "\<dots> = q + 1 + (r + 1) div block"
    using assms(1) by (simp only: div_mult_self1)
  also have "(r + 1) div block = (if r + 1 = block then 1 else 0)"
    using assms by auto
  finally show ?thesis by (simp add: algebra_simps)
qed

lemma code_pad_eq_rfc_pad_iff:
  assumes f: "0 < length lenfield" "length lenfield < block"
  shows "code_pad block lenfield m = rfc_pad block lenfield m \<longleftrightarrow>
    length m mod block < block - length lenfield \<or> length m mod block + 1 = block"
proof -
  define q r where "q = length m div block" and "r = length m mod block"
  have m: "length m = q * block + r" and r: "r < block"
    using f by (simp_all add: q_def r_def)
  define n where "n = (length m + 1 + block) div block * block - length lenfield"
  have n: "n = (if r + 1 = block then (q + 2) * block else (q + 1) * block) - length lenfield"
    using code_pad_target [OF _ r, of q] f unfolding n_def m by simp
  define z where "z = (2 * block - 1 - length lenfield - r) mod block"
  have code: "code_pad block lenfield m = resize n 0 (m @ [0x80]) @ lenfield"
    by (simp add: code_pad_def n_def)
  have rfc: "rfc_pad block lenfield m = (m @ 0x80 # replicate z 0) @ lenfield"
    by (simp add: rfc_pad_def z_def r_def)
  have eq: "code_pad block lenfield m = rfc_pad block lenfield m \<longleftrightarrow>
      resize n 0 (m @ [0x80]) = m @ 0x80 # replicate z 0"
    unfolding code rfc by simp
  consider (fits) "r + length lenfield < block" | (mark_last) "r + 1 = block"
    | (short) "block \<le> r + length lenfield" "r + 1 < block"
    using r by linarith
  then show ?thesis
  proof cases
    case fits
    then have "z = block - 1 - length lenfield - r" and "r + 1 \<noteq> block"
      using f unfolding z_def by (auto simp: mod_if)
    with n fits m have "n = length m + 1 + z" by (simp add: algebra_simps)
    then show ?thesis
      using fits unfolding eq r_def [symmetric] by (auto simp: resize_def)
  next
    case mark_last
    then have "z = block - length lenfield"
      using f unfolding z_def by (auto simp: mod_if)
    with n mark_last m f have "n = length m + 1 + z" by (simp add: algebra_simps)
    then show ?thesis
      using mark_last unfolding eq r_def [symmetric] by (auto simp: resize_def)
  next
    case short
    then have "n = (q + 1) * block - length lenfield" by (simp add: n)
    also have "\<dots> < length m + 1" using short m f by simp
    finally have "length (resize n 0 (m @ [0x80])) < length (m @ 0x80 # replicate z 0)"
      by simp
    with short show ?thesis
      unfolding eq r_def [symmetric] by (auto dest: arg_cong [where f = length])
  qed
qed

lemma code_pad_truncates:
  assumes "length p mod block = block - length lenfield" and "length lenfield < block"
    and "length s = length t" and "length s + 1 < length lenfield"
  shows "code_pad block lenfield (p @ s) = code_pad block lenfield (p @ t)"
proof (cases "s = []")
  case True
  with assms(3) show ?thesis by simp
next
  case False
  define q where "q = length p div block"
  have p: "length p = q * block + (block - length lenfield)"
    using assms(1) by (metis div_mult_mod_eq q_def)
  have n: "(length (p @ u) + 1 + block) div block * block - length lenfield = length p"
    if "length u = length s" for u :: "u8 list"
  proof -
    have r: "block - length lenfield + length s < block" "block - length lenfield + length s + 1 \<noteq> block"
      using assms(2,4) that by linarith+
    show ?thesis
      using code_pad_target [OF _ r(1), of q] r assms(2) that p by (auto simp: algebra_simps)
  qed
  have "resize (length p) 0 ((p @ u) @ [0x80]) = p" if "length u = length s" for u :: "u8 list"
    using False that by (auto simp: resize_def)
  then show ?thesis
    using n [of s] n [of t] assms(3) unfolding code_pad_def by simp
qed


section \<open>Message schedules\<close>

lemma chunk_word_fill:
  fixes chunk :: "u8 list"
  defines "load \<equiv> \<lambda>n. fold (\<lambda>i w. w[i := from_be_bytes (chunk_word n chunk i)]) [0..<16]"
  shows "16 \<le> length w \<Longrightarrow> length (load n w) = length w"
    and "16 \<le> length w \<Longrightarrow> i < 16 \<Longrightarrow> load n w ! i = from_be_bytes (chunk_word n chunk i)"
  using fold_fill [of 0 16 "\<lambda>_ i. from_be_bytes (chunk_word n chunk i)" w]
  unfolding load_def by simp_all

lemma sha1_words_schedule:
  fixes chunk :: "u8 list"
  defines "W \<equiv> sha1_words chunk"
  shows "length W = 80"
    and "i < 16 \<Longrightarrow> W ! i = from_be_bytes (chunk_word 4 chunk i)"
    and "16 \<le> i \<Longrightarrow> i < 80 \<Longrightarrow>
      W ! i = word_rotl 1 (W ! (i - 3) XOR W ! (i - 8) XOR W ! (i - 14) XOR W ! (i - 16))"
proof -
  define w :: "u32 list" where
    "w = fold (\<lambda>i w. w[i := from_be_bytes (chunk_word 4 chunk i)]) [0..<16] (replicate 80 0)"
  have len: "length w = 80"
    using chunk_word_fill(1) [of "replicate 80 0" 4 chunk] by (simp add: w_def)
  have low: "w ! i = from_be_bytes (chunk_word 4 chunk i)" if "i < 16" for i
    using chunk_word_fill(2) [of "replicate 80 0" i 4 chunk] that by (simp add: w_def)
  define g where "g = (\<lambda>(w :: u32 list) i.
    word_rotl 1 (w ! (i - 3) XOR w ! (i - 8) XOR w ! (i - 14) XOR w ! (i - 16)))"
  have W: "W = fold (\<lambda>i w. w[i := g w i]) [16..<80] w"
    unfolding W_def sha1_words_def Let_def w_def g_def by (rule refl)
  have fill: "length W = length w \<and> (\<forall>j. j < 16 \<or> 80 \<le> j \<longrightarrow> W ! j = w ! j) \<and> (\<forall>i. 16 \<le> i \<and> i < 80 \<longrightarrow> W ! i = g W i)"
    unfolding W by (rule fold_fill) (simp_all add: g_def len)
  from fill len show "length W = 80" by simp
  from fill low show "i < 16 \<Longrightarrow> W ! i = from_be_bytes (chunk_word 4 chunk i)" by simp
  from fill show "16 \<le> i \<Longrightarrow> i < 80 \<Longrightarrow>
      W ! i = word_rotl 1 (W ! (i - 3) XOR W ! (i - 8) XOR W ! (i - 14) XOR W ! (i - 16))"
    by (simp add: g_def)
qed


section \<open>Digest lengths and HMAC\<close>

lemma length_sha1 [simp]: "length (sha1 m) = 20"
  by (simp add: sha1_def sha1_digest_def split_beta)

lemma length_sha256 [simp]: "length (sha256 m) = 32"
  by (simp add: sha256_def sha2_digest_def split_beta)

lemma length_sha512 [simp]: "length (sha512 m) = 64"
  by (simp add: sha512_def sha2_digest_def split_beta)

text \<open>
  The construction of RFC 2104 over an arbitrary hash function, and what holds of it for
  every hash function whose output fits a block.
\<close>

definition rfc2104_key :: "(u8 list \<Rightarrow> u8 list) \<Rightarrow> nat \<Rightarrow> u8 list \<Rightarrow> u8 list" where
  "rfc2104_key H blk key =
     (let k = (if blk < length key then H key else key) in k @ replicate (blk - length k) 0)"

definition rfc2104 :: "(u8 list \<Rightarrow> u8 list) \<Rightarrow> nat \<Rightarrow> u8 list \<Rightarrow> u8 list \<Rightarrow> u8 list" where
  "rfc2104 H blk key m =
     (let k = rfc2104_key H blk key
      in H (map (\<lambda>b. b XOR 0x5c) k @ H (map (\<lambda>b. b XOR 0x36) k @ m)))"

locale hash_function =
  fixes H :: "u8 list \<Rightarrow> u8 list" and hlen blk :: nat
  assumes length_H: "length (H m) = hlen"
    and hlen_le: "hlen \<le> blk"
begin

lemma length_key: "length (rfc2104_key H blk key) = blk"
  using hlen_le by (simp add: rfc2104_key_def Let_def length_H)

lemma length_mac: "length (rfc2104 H blk key m) = hlen"
  by (simp add: rfc2104_def Let_def length_H)

lemma long_key: "blk < length key \<Longrightarrow> rfc2104 H blk key m = rfc2104 H blk (H key) m"
  using hlen_le by (simp add: rfc2104_def rfc2104_key_def Let_def length_H)

lemma key_trailing_zero:
  assumes "length key < blk"
  shows "rfc2104 H blk (key @ [0]) m = rfc2104 H blk key m"
proof -
  have "rfc2104_key H blk (key @ [0]) = rfc2104_key H blk key"
    using assms by (simp add: rfc2104_key_def Let_def Suc_diff_Suc flip: replicate_Suc)
  then show ?thesis by (simp add: rfc2104_def)
qed

end

interpretation sha1_hash: hash_function sha1 20 64
  by unfold_locales simp_all

interpretation sha256_hash: hash_function sha256 32 64
  by unfold_locales simp_all

interpretation sha512_hash: hash_function sha512 64 128
  by unfold_locales simp_all

fun digest_len :: "Algorithm \<Rightarrow> nat" where
  "digest_len SHA1 = 20"
| "digest_len SHA256 = 32"
| "digest_len SHA512 = 64"

interpretation alg_hash: hash_function "hash_bytes alg" "digest_len alg" "block_size alg" for alg
  by unfold_locales (cases alg; simp)+

lemma map_nth_upt: "length xs = n \<Longrightarrow> map (\<lambda>i. f (xs ! i)) [0..<n] = map f xs"
  by (metis (no_types, lifting) map_map map_nth o_apply map_cong)

lemma hmac_eq_rfc2104: "hmac alg key m = rfc2104 (hash_bytes alg) (block_size alg) key m"
proof -
  define k where "k = rfc2104_key (hash_bytes alg) (block_size alg) key"
  have k: "(if block_size alg < length key
        then copy_front (hash_bytes alg key) (replicate (block_size alg) 0)
        else copy_front key (replicate (block_size alg) 0)) = k"
    by (simp add: k_def rfc2104_key_def copy_front_def Let_def)
  have "length k = block_size alg"
    by (simp add: k_def alg_hash.length_key)
  then show ?thesis
    by (simp add: hmac_def rfc2104_def Let_def k k_def [symmetric] HMAC_INNER_PAD_def HMAC_OUTER_PAD_def
        map_nth_upt [where f = "\<lambda>b. b XOR _"])
qed

lemma length_hmac [simp]: "length (hmac alg key m) = digest_len alg"
  by (simp add: hmac_eq_rfc2104 alg_hash.length_mac)

lemma sha_chunks_collision:
  assumes "length p mod block_size alg = block_size alg - block_size alg div 8"
    and "length s = length t" and "length s + 1 < block_size alg div 8"
  shows "hash_bytes alg (p @ s) = hash_bytes alg (p @ t)"
proof (cases alg)
  case SHA1
  with assms code_pad_truncates [of p 64 "to_be_bytes (word_of_nat (length (p @ s)) * 8 :: u64)" s t]
  show ?thesis by (simp add: sha1_def padded_code_pad)
next
  case SHA256
  with assms code_pad_truncates [of p 64 "to_be_bytes (word_of_nat (length (p @ s)) * 8 :: u64)" s t]
  show ?thesis by (simp add: sha256_def padded_code_pad)
next
  case SHA512
  with assms code_pad_truncates [of p 128 "to_be_bytes (word_of_nat (length (p @ s)) * 8 :: u128)" s t]
  show ?thesis by (simp add: sha512_def padded_code_pad)
qed


section \<open>Properties\<close>

text \<open>C36. The padded message of each hash function is the one of RFC 3174 and RFC 6234 exactly
  when the message length modulo the block leaves room for the length field after the mark,
  or the mark is the last byte of a block; for the lengths between the padding is wrong.\<close>

theorem sha_padding_rfc:
  "(sha1_padded m = rfc_pad 64 (to_be_bytes (word_of_nat (length m) * 8 :: u64)) m \<longleftrightarrow>
      length m mod 64 < 56 \<or> length m mod 64 = 63) \<and>
   (sha256_padded m = rfc_pad 64 (to_be_bytes (word_of_nat (length m) * 8 :: u64)) m \<longleftrightarrow>
      length m mod 64 < 56 \<or> length m mod 64 = 63) \<and>
   (sha512_padded m = rfc_pad 128 (to_be_bytes (word_of_nat (length m) * 8 :: u128)) m \<longleftrightarrow>
      length m mod 128 < 112 \<or> length m mod 128 = 127)"
  using code_pad_eq_rfc_pad_iff [of "to_be_bytes (word_of_nat (length m) * 8 :: u64)" 64 m]
    code_pad_eq_rfc_pad_iff [of "to_be_bytes (word_of_nat (length m) * 8 :: u128)" 128 m]
  by (simp add: padded_code_pad)

text \<open>For those lengths the hash functions collide: two messages with a common prefix that
  ends where the length field would start, and different tails of the same length that fit
  the field with the mark, have the same hash. Two secrets longer than a block that differ
  only there have the same HMAC on every message.\<close>

theorem sha_collision:
  assumes "length p mod block_size alg = block_size alg - block_size alg div 8"
    and "length s = length t" and "length s + 1 < block_size alg div 8"
  shows "hash_bytes alg (p @ s) = hash_bytes alg (p @ t) \<and>
    (block_size alg < length p \<longrightarrow> hmac alg (p @ s) msg = hmac alg (p @ t) msg)"
  using sha_chunks_collision [OF assms] assms(2) by (simp add: hmac_def)

theorem sha_collision_witness:
  "sha1 (replicate 56 0 @ [1]) = sha1 (replicate 56 0 @ [2]) \<and>
   hmac SHA1 (replicate 120 0 @ [1]) [7] = hmac SHA1 (replicate 120 0 @ [2]) [7]"
  using sha_collision [of "replicate 56 0" SHA1 "[1]" "[2]" "[7]"]
    sha_collision [of "replicate 120 0" SHA1 "[1]" "[2]" "[7]"]
  by simp

text \<open>\<open>hmac\<close> is the construction of RFC 2104 over the selected hash function, and its
  result has the digest length of that function.\<close>

theorem hmac_rfc2104:
  "hmac alg key m = rfc2104 (hash_bytes alg) (block_size alg) key m \<and>
   length (hmac alg key m) = digest_len alg"
  by (simp add: hmac_eq_rfc2104 alg_hash.length_mac)

end
