(* ===== verification/Otp.thy ===== *)
theory Otp
  imports Otp_Encoding Otp_Hash
begin

unbundle bit_operations_syntax

text \<open>
  One-time passwords: \<open>hotp.rs\<close>, \<open>totp.rs\<close> and \<open>secret.rs\<close>. A code is computed with the
  arithmetic of \<open>u32\<close> and \<open>u64\<close>; the parameter \<open>checks\<close> says whether the build has overflow
  checks (a debug build panics on overflow, a release build wraps around). A division by zero
  panics in both. The \<open>otpauth\<close> URIs are printed and parsed as in the source, with the checks
  of \<open>from_uri\<close> in the order of the code.
\<close>


section \<open>Checked and wrapping arithmetic\<close>

definition pow_u32 :: "bool \<Rightarrow> u32 \<Rightarrow> nat \<Rightarrow> panic + u32" where
  "pow_u32 checks b e = (if checks \<and> 2 ^ 32 \<le> unat b ^ e then Inl Overflow else Inr (b ^ e))"

definition add_u64 :: "bool \<Rightarrow> u64 \<Rightarrow> u64 \<Rightarrow> panic + u64" where
  "add_u64 checks a b = (if checks \<and> 2 ^ 64 \<le> unat a + unat b then Inl Overflow else Inr (a + b))"

definition div_u64 :: "u64 \<Rightarrow> u64 \<Rightarrow> panic + u64" where
  "div_u64 a b = (if b = 0 then Inl DivideByZero else Inr (a div b))"

definition rem_u32 :: "u32 \<Rightarrow> u32 \<Rightarrow> panic + u32" where
  "rem_u32 a b = (if b = 0 then Inl DivideByZero else Inr (a mod b))"


section \<open>HOTP\<close>

record Hotp =
  hotp_alg :: Algorithm
  hotp_issuer :: string
  hotp_label :: string
  hotp_digits :: u8
  hotp_counter :: u64
  hotp_secret :: "u8 list"

definition hotp_default :: Hotp where
  "hotp_default = \<lparr>hotp_alg = SHA1, hotp_issuer = [], hotp_label = [], hotp_digits = 6,
                   hotp_counter = 0, hotp_secret = []\<rparr>"

definition hotp_new :: "Algorithm \<Rightarrow> string \<Rightarrow> string \<Rightarrow> u8 \<Rightarrow> u64 \<Rightarrow> u8 list \<Rightarrow> Hotp" where
  "hotp_new alg issuer label digits counter secret =
     \<lparr>hotp_alg = alg, hotp_issuer = issuer, hotp_label = label, hotp_digits = digits,
      hotp_counter = counter, hotp_secret = secret\<rparr>"

text \<open>The dynamic truncation in the body of \<open>generate_at\<close>.\<close>

definition hotp_truncate :: "u8 list \<Rightarrow> u32" where
  "hotp_truncate hmac_result =
     (let offset = unat (hmac_result ! (length hmac_result - 1) AND 0x0f)
      in push_bit 24 (ucast (hmac_result ! offset) AND 0x7f)
           OR push_bit 16 (ucast (hmac_result ! (offset + 1)))
           OR push_bit 8 (ucast (hmac_result ! (offset + 2)))
           OR ucast (hmac_result ! (offset + 3)))"

definition hotp_generate_at :: "bool \<Rightarrow> Hotp \<Rightarrow> u64 \<Rightarrow> panic + u32" where
  "hotp_generate_at checks self counter =
     (let message = to_be_bytes counter;
          hmac_result = hmac (hotp_alg self) (hotp_secret self) message;
          code = hotp_truncate hmac_result
      in and_then (pow_u32 checks 10 (unat (hotp_digits self))) (rem_u32 code))"

definition hotp_generate :: "bool \<Rightarrow> Hotp \<Rightarrow> panic + u32 \<times> Hotp" where
  "hotp_generate checks self =
     and_then (hotp_generate_at checks self (hotp_counter self)) (\<lambda>otp.
     and_then (add_u64 checks (hotp_counter self) 1) (\<lambda>counter.
     Inr (otp, self\<lparr>hotp_counter := counter\<rparr>)))"

text \<open>The loop over \<open>1..=window\<close>: \<open>i\<close> is the current value, \<open>n\<close> the number of values left.\<close>

fun hotp_verify_loop :: "bool \<Rightarrow> Hotp \<Rightarrow> u32 \<Rightarrow> u64 \<Rightarrow> u64 \<Rightarrow> nat \<Rightarrow> panic + bool" where
  "hotp_verify_loop checks self otp counter i 0 = Inr False"
| "hotp_verify_loop checks self otp counter i (Suc n) =
     and_then (if i \<le> counter
               then and_then (hotp_generate_at checks self (counter - i)) (\<lambda>code. Inr (code = otp))
               else Inr False) (\<lambda>hit_below.
     if hit_below then Inr True
     else and_then (add_u64 checks counter i) (\<lambda>above.
          and_then (hotp_generate_at checks self above) (\<lambda>code.
          if code = otp then Inr True
          else hotp_verify_loop checks self otp counter (i + 1) n)))"

definition hotp_verify :: "bool \<Rightarrow> Hotp \<Rightarrow> u32 \<Rightarrow> u64 \<Rightarrow> u64 \<Rightarrow> panic + bool" where
  "hotp_verify checks self otp counter window =
     and_then (hotp_generate_at checks self counter) (\<lambda>code.
     if code = otp then Inr True
     else hotp_verify_loop checks self otp counter 1 (unat window))"


section \<open>TOTP\<close>

record Totp =
  totp_period :: u64
  totp_hotp :: Hotp

definition totp_new :: "Algorithm \<Rightarrow> string \<Rightarrow> string \<Rightarrow> u8 \<Rightarrow> u64 \<Rightarrow> u8 list \<Rightarrow> Totp" where
  "totp_new alg issuer label digits period secret =
     \<lparr>totp_period = period, totp_hotp = hotp_new alg issuer label digits 0 secret\<rparr>"

definition totp_generate_at :: "bool \<Rightarrow> Totp \<Rightarrow> u64 \<Rightarrow> panic + u32" where
  "totp_generate_at checks self timestamp_secs =
     and_then (div_u64 timestamp_secs (totp_period self)) (hotp_generate_at checks (totp_hotp self))"

definition totp_verify :: "bool \<Rightarrow> Totp \<Rightarrow> u32 \<Rightarrow> u64 \<Rightarrow> u64 \<Rightarrow> panic + bool" where
  "totp_verify checks self otp timestamp_secs window =
     and_then (div_u64 timestamp_secs (totp_period self)) (\<lambda>counter.
     hotp_verify checks (totp_hotp self) otp counter window)"


section \<open>Key URIs\<close>

text \<open>
  The two modules have an error type each, with the same variants but for the last ones
  (counter against period); one datatype holds them all.
\<close>

datatype ParseUriError =
    InvalidPrefix | InvalidFormat | InvalidLabel | InvalidIssuer | InvalidDigits
  | InvalidSecret | InvalidAlgorithm | IssuerMismatch | MissingSecret
  | InvalidCounter | MissingCounter | InvalidPeriod

definition uri_label :: "Hotp \<Rightarrow> string" where
  "uri_label self =
     (if hotp_issuer self = [] then url_encode (as_bytes (hotp_label self))
      else url_encode (as_bytes (hotp_issuer self @ '':'' @ hotp_label self)))"

definition uri_issuer :: "Hotp \<Rightarrow> string" where
  "uri_issuer self =
     (if hotp_issuer self \<noteq> [] then ''&issuer='' @ url_encode (as_bytes (hotp_issuer self)) else [])"

definition hotp_to_uri :: "Hotp \<Rightarrow> string" where
  "hotp_to_uri self =
     ''otpauth://hotp/'' @ uri_label self @ ''?secret='' @ base32_encode (hotp_secret self)
       @ uri_issuer self @ ''&algorithm='' @ alg_to_string (hotp_alg self)
       @ ''&digits='' @ dec_string (unat (hotp_digits self))
       @ ''&counter='' @ dec_string (unat (hotp_counter self))"

definition totp_to_uri :: "Totp \<Rightarrow> string" where
  "totp_to_uri self =
     (let h = totp_hotp self in
     ''otpauth://totp/'' @ uri_label h @ ''?secret='' @ base32_encode (hotp_secret h)
       @ uri_issuer h @ ''&algorithm='' @ alg_to_string (hotp_alg h)
       @ ''&digits='' @ dec_string (unat (hotp_digits h))
       @ ''&period='' @ dec_string (unat (totp_period self)))"

text \<open>
  \<open>str::to_uppercase\<close> as far as a comparison with an algorithm name can see it: besides the
  ASCII letters only \<open>U+017F\<close> (bytes \<open>C5 BF\<close>) and \<open>U+0131\<close> (bytes \<open>C4 B1\<close>) have a single ASCII
  capital; the expansions \<open>SS\<close>, \<open>ST\<close>, \<open>FF\<close>, \<open>FI\<close> and \<open>FL\<close> of ligatures occur in no name.
\<close>

fun to_uppercase :: "u8 list \<Rightarrow> u8 list" where
  "to_uppercase [] = []"
| "to_uppercase [b] = [if 0x61 \<le> b \<and> b \<le> 0x7A then b - 0x20 else b]"
| "to_uppercase (b # c # rest) =
     (if b = 0xC5 \<and> c = 0xBF then 0x53 # to_uppercase rest
      else if b = 0xC4 \<and> c = 0xB1 then 0x49 # to_uppercase rest
      else (if 0x61 \<le> b \<and> b \<le> 0x7A then b - 0x20 else b) # to_uppercase (c # rest))"

definition parse_uri_algorithm :: "string \<Rightarrow> ParseUriError + Algorithm" where
  "parse_uri_algorithm s =
     (let alg = of_bytes (to_uppercase (as_bytes s)) in
      if alg = ''SHA1'' then Inr SHA1
      else if alg = ''SHA256'' then Inr SHA256
      else if alg = ''SHA512'' then Inr SHA512
      else Inl InvalidAlgorithm)"

text \<open>\<open>params.get(k)\<close> on the collected hash map: the last of several equal keys counts.\<close>

definition uri_params :: "string \<Rightarrow> string \<rightharpoonup> string" where
  "uri_params queries =
     map_of (rev (map (\<lambda>param. case split_once (CHR ''='') param of
                                 Some (key, val) \<Rightarrow> (key, val)
                               | None \<Rightarrow> (param, []))
                      (split_on (CHR ''&'') queries)))"

text \<open>The head of \<open>from_uri\<close>: the issuer and the label before the \<open>?\<close>, and the parameters.\<close>

definition uri_head ::
  "string \<Rightarrow> string \<Rightarrow> ParseUriError + string option \<times> string \<times> (string \<rightharpoonup> string)" where
  "uri_head prefix uri =
     and_then (ok_or (strip_prefix prefix uri) InvalidPrefix) (\<lambda>rest.
     and_then (ok_or (split_once (CHR ''?'') rest) InvalidFormat) (\<lambda>(label_encoded, queries).
     if label_encoded = [] then Inl InvalidLabel
     else and_then (map_err (\<lambda>_. InvalidLabel) (url_decode label_encoded)) (\<lambda>label_decoded.
     let (issuer_from_label, label) =
           (case split_once (CHR '':'') label_decoded of
              Some (issuer, label) \<Rightarrow> (Some issuer, label)
            | None \<Rightarrow> (None, label_decoded))
     in Inr (issuer_from_label, label, uri_params queries))))"

definition uri_digits :: "(string \<rightharpoonup> string) \<Rightarrow> ParseUriError + u8" where
  "uri_digits params =
     (case params ''digits'' of None \<Rightarrow> Inr 6
      | Some val \<Rightarrow> and_then (map_err (\<lambda>_. InvalidDigits) (from_str_radix 10 (2 ^ 8 - 1) val))
                      (\<lambda>n. Inr (of_nat n)))"

text \<open>The rest of \<open>from_uri\<close> after the counter or the period: secret, issuer and algorithm.\<close>

definition uri_secret :: "(string \<rightharpoonup> string) \<Rightarrow> ParseUriError + u8 list" where
  "uri_secret params =
     and_then (ok_or (params ''secret'') MissingSecret) (\<lambda>raw_secret.
     map_err (\<lambda>_. InvalidSecret) (base32_decode raw_secret))"

definition uri_issuer_of :: "string option \<Rightarrow> (string \<rightharpoonup> string) \<Rightarrow> ParseUriError + string" where
  "uri_issuer_of issuer_from_label params =
     and_then (case params ''issuer'' of None \<Rightarrow> Inr None
               | Some iss \<Rightarrow> and_then (map_err (\<lambda>_. InvalidIssuer) (url_decode iss)) (\<lambda>s. Inr (Some s)))
     (\<lambda>issuer_from_param.
     case (issuer_from_label, issuer_from_param) of
       (None, None) \<Rightarrow> Inr []
     | (None, Some from_param) \<Rightarrow> Inr from_param
     | (Some from_label, None) \<Rightarrow> Inr from_label
     | (Some from_label, Some from_param) \<Rightarrow>
         if from_label \<noteq> from_param then Inl IssuerMismatch else Inr from_param)"

definition uri_algorithm :: "(string \<rightharpoonup> string) \<Rightarrow> ParseUriError + Algorithm" where
  "uri_algorithm params =
     (case params ''algorithm'' of None \<Rightarrow> Inr SHA1 | Some alg \<Rightarrow> parse_uri_algorithm alg)"

definition hotp_from_uri :: "string \<Rightarrow> ParseUriError + Hotp" where
  "hotp_from_uri uri =
     and_then (uri_head ''otpauth://hotp/'' uri) (\<lambda>(issuer_from_label, label, params).
     and_then (uri_digits params) (\<lambda>digits.
     and_then (and_then (ok_or (params ''counter'') MissingCounter) (\<lambda>val.
                 map_err (\<lambda>_. InvalidCounter) (from_str_radix 10 (2 ^ 64 - 1) val))) (\<lambda>counter.
     and_then (uri_secret params) (\<lambda>secret.
     and_then (uri_issuer_of issuer_from_label params) (\<lambda>issuer.
     and_then (uri_algorithm params) (\<lambda>alg.
     Inr (hotp_new alg issuer label digits (of_nat counter) secret)))))))"

definition totp_from_uri :: "string \<Rightarrow> ParseUriError + Totp" where
  "totp_from_uri uri =
     and_then (uri_head ''otpauth://totp/'' uri) (\<lambda>(issuer_from_label, label, params).
     and_then (uri_digits params) (\<lambda>digits.
     and_then (case params ''period'' of None \<Rightarrow> Inr 30
               | Some val \<Rightarrow> map_err (\<lambda>_. InvalidPeriod) (from_str_radix 10 (2 ^ 64 - 1) val)) (\<lambda>period.
     and_then (uri_secret params) (\<lambda>secret.
     and_then (uri_issuer_of issuer_from_label params) (\<lambda>issuer.
     and_then (uri_algorithm params) (\<lambda>alg.
     Inr (totp_new alg issuer label digits (of_nat period) secret)))))))"


section \<open>Facts about the code\<close>

text \<open>The dynamic truncation of RFC 4226, section 5.3: the low 31 bits of four bytes.\<close>

definition rfc4226_truncate :: "u8 list \<Rightarrow> nat" where
  "rfc4226_truncate mac =
     (let offset = unat (last mac) mod 16
      in unat (from_be_bytes (take 4 (drop offset mac)) :: u32) mod 2 ^ 31)"

lemma take4_drop:
  "n + 4 \<le> length xs \<Longrightarrow> take 4 (drop n xs) = [xs ! n, xs ! (n + 1), xs ! (n + 2), xs ! (n + 3)]"
  by (simp add: list_eq_iff_nth_eq less_Suc_eq numeral_eq_Suc nth_Cons')

lemma from_be_bytes_4:
  "(from_be_bytes [a, b, c, d] :: u32) =
     push_bit 24 (ucast a) OR push_bit 16 (ucast b) OR push_bit 8 (ucast c) OR ucast d"
  unfolding from_be_bytes_def
  by (rule bit_word_eqI) (auto simp: bit_simps)

lemma unat_and_15: "unat (b AND 0x0f :: u8) = unat b mod 16"
proof -
  have "(0x0f :: u8) = mask 4" by (simp add: mask_eq_exp_minus_1)
  then have "b AND 0x0f = take_bit 4 b" by (simp only: take_bit_eq_mask)
  then have "unat (b AND 0x0f) = take_bit 4 (unat b)" by (simp only: unsigned_take_bit_eq)
  then show ?thesis by (simp only: take_bit_eq_mod) simp
qed

lemma truncate_offset_bound:
  "20 \<le> length mac \<Longrightarrow> unat (mac ! (length mac - 1) AND 0x0f :: u8) + 4 \<le> length mac"
  using mod_less_divisor [of 16 "unat (mac ! (length mac - 1))"]
  by (simp add: unat_and_15)

lemma take_bit_ucast_u8: "8 \<le> n \<Longrightarrow> take_bit n (ucast (b :: u8) :: u32) = ucast b"
  by (rule bit_word_eqI) (auto simp: bit_simps dest: bit_imp_le_length)

lemma and_7f: "(w :: u32) AND 0x7f = take_bit 7 w"
proof -
  have "(0x7f :: u32) = mask 7" by (simp add: mask_eq_exp_minus_1)
  then show ?thesis by (simp only: take_bit_eq_mask)
qed

lemma hotp_truncate_rfc:
  assumes "20 \<le> length mac"
  shows "unat (hotp_truncate mac) = rfc4226_truncate mac"
proof -
  let ?o = "unat (last mac) mod 16"
  from assms have last: "mac ! (length mac - 1) = last mac"
    by (simp add: last_conv_nth flip: length_greater_0_conv)
  have off: "?o + 4 \<le> length mac"
    using truncate_offset_bound [OF assms] by (simp only: unat_and_15 last)
  have "hotp_truncate mac = take_bit 31 (from_be_bytes (take 4 (drop ?o mac)) :: u32)"
    unfolding hotp_truncate_def Let_def last unat_and_15 take4_drop [OF off] from_be_bytes_4
    by (simp add: take_bit_or take_bit_push_bit take_bit_ucast_u8 and_7f)
  then show ?thesis
    by (simp add: rfc4226_truncate_def Let_def take_bit_eq_mod unat_mod_distrib)
qed

lemma digest_len_bound [simp]: "20 \<le> digest_len alg"
  by (cases alg) simp_all

lemma pow_u32_10: "d \<le> 9 \<Longrightarrow> pow_u32 checks 10 d = Inr (10 ^ d)"
  using power_increasing [of d 9 "10 :: nat"]
  by (simp add: pow_u32_def)


lemma unat_pow10: "d \<le> 9 \<Longrightarrow> unat (10 ^ d :: u32) = 10 ^ d"
proof -
  assume "d \<le> 9"
  then have "(10 :: nat) ^ d \<le> 10 ^ 9" by (rule power_increasing) simp
  moreover have "unat (of_nat (10 ^ d) :: u32) = 10 ^ d mod 2 ^ 32" by (simp only: unat_of_nat) simp
  ultimately show ?thesis by simp
qed

lemma hotp_generate_at_ok:
  assumes "hotp_digits h \<le> 9"
  shows "hotp_generate_at checks h c =
    Inr (of_nat (rfc4226_truncate (hmac (hotp_alg h) (hotp_secret h) (to_be_bytes c))
                 mod 10 ^ unat (hotp_digits h)))"
proof -
  let ?mac = "hmac (hotp_alg h) (hotp_secret h) (to_be_bytes c)" and ?d = "unat (hotp_digits h)"
  have d: "?d \<le> 9" using assms by (simp add: word_le_nat_alt)
  have pos: "(10 ^ ?d :: u32) \<noteq> 0"
    using unat_pow10 [OF d] by (metis power_not_zero unat_0 zero_neq_numeral)
  have "hotp_truncate ?mac mod 10 ^ ?d = of_nat (unat (hotp_truncate ?mac) mod 10 ^ ?d)"
    by (simp add: word_arith_nat_mod unat_pow10 [OF d])
  then show ?thesis
    by (simp add: hotp_generate_at_def Let_def pow_u32_10 [OF d] rem_u32_def pos hotp_truncate_rfc)
qed

lemma unat_le_max: "unat (w :: 'a::len word) \<le> 2 ^ LENGTH('a) - 1"
proof -
  have "unat w < 2 ^ LENGTH('a)" by (rule unsigned_less)
  then show ?thesis by linarith
qed

lemma hotp_generate_at_bound:
  assumes "hotp_generate_at checks h c = Inr code" and "hotp_digits h \<le> 9"
  shows "unat code < 10 ^ unat (hotp_digits h)"
proof -
  let ?d = "unat (hotp_digits h)"
  have d: "?d \<le> 9" using assms by (simp add: word_le_nat_alt)
  define n where "n = rfc4226_truncate (hmac (hotp_alg h) (hotp_secret h) (to_be_bytes c)) mod 10 ^ ?d"
  have n: "n < 10 ^ ?d" "code = of_nat n"
    using assms(1) hotp_generate_at_ok [OF assms(2), of checks c] by (simp_all add: n_def)
  have "unat (of_nat n :: u32) \<le> n"
    by (simp only: unat_of_nat mod_less_eq_dividend)
  with n show ?thesis by simp
qed

lemma pow_u32_10_overflow: "10 \<le> d \<Longrightarrow> pow_u32 True 10 d = Inl Overflow"
  using power_increasing [of 10 d "10 :: nat"] by (simp add: pow_u32_def)

lemma hotp_generate_at_Overflow:
  "9 < hotp_digits h \<Longrightarrow> hotp_generate_at True h c = Inl Overflow"
  by (simp add: hotp_generate_at_def Let_def pow_u32_10_overflow word_less_nat_alt)

lemma pow10_u32_eq_0_iff: "(10 ^ d :: u32) = 0 \<longleftrightarrow> 32 \<le> d"
proof -
  have "(10 ^ d :: u32) = of_nat (10 ^ d)" by simp
  also have "\<dots> = 0 \<longleftrightarrow> (2 :: nat) ^ 32 dvd 10 ^ d"
    by (simp only: word_of_nat_eq_0_iff) simp
  also have "(10 :: nat) ^ d = 2 ^ d * 5 ^ d"
    by (simp flip: power_mult_distrib)
  also have "(2 :: nat) ^ 32 dvd 2 ^ d * 5 ^ d \<longleftrightarrow> (2 :: nat) ^ 32 dvd 2 ^ d"
    by (rule coprime_dvd_mult_left_iff)
      (simp only: coprime_power_left_iff coprime_power_right_iff, simp add: coprime_iff_gcd_eq_1 gcd_non_0_nat)
  also have "\<dots> \<longleftrightarrow> 32 \<le> d"
    by (rule dvd_power_iff_le) simp
  finally show ?thesis .
qed

lemma hotp_generate_at_release:
  "hotp_generate_at False h c =
     (if 32 \<le> hotp_digits h then Inl DivideByZero
      else Inr (hotp_truncate (hmac (hotp_alg h) (hotp_secret h) (to_be_bytes c))
                mod 10 ^ unat (hotp_digits h)))"
  by (simp add: hotp_generate_at_def Let_def pow_u32_def rem_u32_def pow10_u32_eq_0_iff
      word_le_nat_alt)

lemma hotp_verify_loop_spec:
  assumes "hotp_digits h \<le> 9" and "unat counter + unat i + n \<le> 2 ^ 64"
  shows "hotp_verify_loop checks h otp counter i n =
    Inr (\<exists>j. unat i \<le> j \<and> j < unat i + n \<and>
           (j \<le> unat counter \<and> hotp_generate_at checks h (of_nat (unat counter - j)) = Inr otp
            \<or> hotp_generate_at checks h (of_nat (unat counter + j)) = Inr otp))"
  using assms(2)
proof (induction n arbitrary: i)
  case 0
  then show ?case by simp
next
  case (Suc n)
  define P where "P = (\<lambda>j. j \<le> unat counter \<and> hotp_generate_at checks h (of_nat (unat counter - j)) = Inr otp
            \<or> hotp_generate_at checks h (of_nat (unat counter + j)) = Inr otp)"
  have gen: "\<exists>code. hotp_generate_at checks h c = Inr code" for c
    using hotp_generate_at_ok [OF assms(1)] by blast
  have below: "i \<le> counter \<Longrightarrow> counter - i = of_nat (unat counter - unat i)"
    by (simp add: word_le_nat_alt of_nat_diff)
  have add: "add_u64 checks counter i = Inr (of_nat (unat counter + unat i))"
    using Suc.prems by (simp add: add_u64_def)
  have step: "hotp_verify_loop checks h otp counter i (Suc n) =
      (if P (unat i) then Inr True else hotp_verify_loop checks h otp counter (i + 1) n)"
  proof -
    obtain c1 where c1: "hotp_generate_at checks h (of_nat (unat counter - unat i)) = Inr c1"
      using gen by blast
    obtain c2 where c2: "hotp_generate_at checks h (of_nat (unat counter + unat i)) = Inr c2"
      using gen by blast
    have "P (unat i) \<longleftrightarrow> i \<le> counter \<and> c1 = otp \<or> c2 = otp"
      unfolding P_def c1 c2 word_le_nat_alt by simp
    moreover have "i \<le> counter \<Longrightarrow> hotp_generate_at checks h (counter - i) = Inr c1"
      using c1 below by simp
    ultimately show ?thesis
      by (cases "i \<le> counter") (simp_all add: add c2 del: of_nat_add)
  qed
  have rest: "hotp_verify_loop checks h otp counter (i + 1) n =
      Inr (\<exists>j. Suc (unat i) \<le> j \<and> j < Suc (unat i) + n \<and> P j)"
  proof (cases "n = 0")
    case False
    have "i + 1 = of_nat (Suc (unat i))" by simp
    also have "unat (of_nat (Suc (unat i)) :: u64) = Suc (unat i)"
      using Suc.prems False by (intro unat_of_nat_small) simp
    finally have u: "unat (i + 1) = Suc (unat i)" .
    with Suc.prems have "unat counter + unat (i + 1) + n \<le> 2 ^ 64" by linarith
    from Suc.IH [OF this] show ?thesis unfolding u P_def .
  qed simp
  have "(\<exists>j. unat i \<le> j \<and> j < unat i + Suc n \<and> P j) \<longleftrightarrow>
      P (unat i) \<or> (\<exists>j. Suc (unat i) \<le> j \<and> j < Suc (unat i) + n \<and> P j)"
    by (metis Suc_leI add_Suc_right add_Suc le_add1 le_neq_implies_less le_eq_less_or_eq less_add_Suc1 Suc_leD)
  with step rest have "hotp_verify_loop checks h otp counter i (Suc n) =
      Inr (\<exists>j. unat i \<le> j \<and> j < unat i + Suc n \<and> P j)" by simp
  then show ?case unfolding P_def .
qed

lemma window_iff:
  fixes c w :: nat
  shows "(G c \<or> (\<exists>j. 1 \<le> j \<and> j < 1 + w \<and> (j \<le> c \<and> G (c - j) \<or> G (c + j)))) \<longleftrightarrow>
    (\<exists>n. c - w \<le> n \<and> n \<le> c + w \<and> G n)" (is "?L \<longleftrightarrow> ?R")
proof
  assume ?L
  then consider "G c" | j where "j < 1 + w" "j \<le> c" "G (c - j)" | j where "j < 1 + w" "G (c + j)"
    by blast
  then show ?R
  proof cases
    case 1
    then show ?thesis by (intro exI [of _ c]) simp
  next
    case 2
    then show ?thesis by (intro exI [of _ "c - j"]) auto
  next
    case 3
    then show ?thesis by (intro exI [of _ "c + j"]) simp
  qed
next
  assume ?R
  then obtain n where n: "c - w \<le> n" "n \<le> c + w" "G n" by blast
  consider "n = c" | "n < c" | "c < n" by linarith
  then show ?L
  proof cases
    case 2
    with n show ?thesis by (intro disjI2 exI [of _ "c - n"]) auto
  next
    case 3
    with n show ?thesis by (intro disjI2 exI [of _ "n - c"]) auto
  qed (use n in simp)
qed

lemma hotp_verify_spec:
  assumes "hotp_digits h \<le> 9" and "unat counter + unat window < 2 ^ 64"
  shows "hotp_verify checks h otp counter window =
    Inr (\<exists>c. unat counter - unat window \<le> unat c \<and> unat c \<le> unat counter + unat window \<and>
             hotp_generate_at checks h c = Inr otp)"
proof -
  define G where "G = (\<lambda>n. hotp_generate_at checks h (of_nat n) = Inr otp)"
  have gen: "\<exists>code. hotp_generate_at checks h counter = Inr code"
    using hotp_generate_at_ok [OF assms(1)] by blast
  have "hotp_verify checks h otp counter window =
      Inr (G (unat counter) \<or> (\<exists>j. 1 \<le> j \<and> j < 1 + unat window \<and>
           (j \<le> unat counter \<and> G (unat counter - j) \<or> G (unat counter + j))))"
    using gen hotp_verify_loop_spec [OF assms(1), of counter 1 "unat window"] assms(2)
    by (auto simp: hotp_verify_def G_def)
  also have "(G (unat counter) \<or> (\<exists>j. 1 \<le> j \<and> j < 1 + unat window \<and>
           (j \<le> unat counter \<and> G (unat counter - j) \<or> G (unat counter + j)))) \<longleftrightarrow>
      (\<exists>n. unat counter - unat window \<le> n \<and> n \<le> unat counter + unat window \<and> G n)"
    by (rule window_iff)
  also have "\<dots> \<longleftrightarrow> (\<exists>c. unat counter - unat window \<le> unat c \<and> unat c \<le> unat counter + unat window \<and>
             hotp_generate_at checks h c = Inr otp)"
  proof -
    have small: "unat (of_nat n :: u64) = n" if "n \<le> unat counter + unat window" for n
      using assms(2) that by (intro unat_of_nat_small) simp
    have inv: "G (unat c) \<longleftrightarrow> hotp_generate_at checks h c = Inr otp" for c
      by (simp add: G_def)
    show ?thesis
    proof (rule iffI; elim exE conjE)
      fix n assume "unat counter - unat window \<le> n" "n \<le> unat counter + unat window" "G n"
      then show "\<exists>c. unat counter - unat window \<le> unat c \<and> unat c \<le> unat counter + unat window \<and>
          hotp_generate_at checks h c = Inr otp"
        by (intro exI [of _ "of_nat n"]) (simp add: small G_def)
    qed (use inv in blast)
  qed
  finally show ?thesis .
qed



section \<open>Key URIs: facts\<close>

lemma utf8_valid_append: "utf8_valid xs \<Longrightarrow> utf8_valid (xs @ ys) = utf8_valid ys"
proof (induction xs rule: utf8_valid.induct)
  case 1
  then show ?case by simp
next
  case (2 b bs)
  then show ?case
    by (auto simp: utf8_valid.simps(2) [of b] split: if_splits list.splits)
qed

fun join_params :: "(string \<times> string) list \<Rightarrow> string" where
  "join_params [] = []"
| "join_params [(k, v)] = k @ ''='' @ v"
| "join_params ((k, v) # kvs) = k @ ''='' @ v @ ''&'' @ join_params kvs"

lemma split_on_join_params:
  "kvs \<noteq> [] \<Longrightarrow> (\<And>k v. (k, v) \<in> set kvs \<Longrightarrow> CHR ''&'' \<notin> set k \<union> set v) \<Longrightarrow>
   split_on (CHR ''&'') (join_params kvs) = map (\<lambda>(k, v). k @ ''='' @ v) kvs"
proof (induction kvs rule: join_params.induct)
  case (2 k v)
  then show ?case by simp
next
  case (3 k v kv kvs)
  have "CHR ''&'' \<notin> set (k @ ''='' @ v)" using "3.prems"(2) [of k v] by simp
  moreover have "split_on (CHR ''&'') (join_params (kv # kvs)) = map (\<lambda>(k, v). k @ ''='' @ v) (kv # kvs)"
    by (rule "3.IH") (use "3.prems"(2) in auto)
  ultimately show ?case
    using split_on_append [of "CHR ''&''" "k @ ''='' @ v" "join_params (kv # kvs)"] by simp
qed simp

lemma uri_params_join:
  assumes "kvs \<noteq> []" and "\<And>k v. (k, v) \<in> set kvs \<Longrightarrow> CHR ''&'' \<notin> set k \<union> set v \<and> CHR ''='' \<notin> set k"
  shows "uri_params (join_params kvs) = map_of (rev kvs)"
proof -
  have "map ((\<lambda>param. case split_once (CHR ''='') param of
          Some (key, val) \<Rightarrow> (key, val) | None \<Rightarrow> (param, [])) \<circ> (\<lambda>(k, v). k @ ''='' @ v)) kvs = kvs"
    by (rule map_idI) (use assms(2) in \<open>auto simp: split_once_append\<close>)
  then show ?thesis
    using assms by (simp add: uri_params_def split_on_join_params)
qed

definition uri_kvs :: "Hotp \<Rightarrow> string \<Rightarrow> string \<Rightarrow> (string \<times> string) list" where
  "uri_kvs h k v =
     [(''secret'', base32_encode (hotp_secret h))]
     @ (if hotp_issuer h = [] then [] else [(''issuer'', url_encode (as_bytes (hotp_issuer h)))])
     @ [(''algorithm'', alg_to_string (hotp_alg h)),
        (''digits'', dec_string (unat (hotp_digits h))), (k, v)]"

lemma hotp_to_uri_join:
  "hotp_to_uri h = ''otpauth://hotp/'' @ uri_label h @ CHR ''?'' #
     join_params (uri_kvs h ''counter'' (dec_string (unat (hotp_counter h))))"
  by (simp add: hotp_to_uri_def uri_kvs_def uri_issuer_def)

lemma totp_to_uri_join:
  "totp_to_uri t = ''otpauth://totp/'' @ uri_label (totp_hotp t) @ CHR ''?'' #
     join_params (uri_kvs (totp_hotp t) ''period'' (dec_string (unat (totp_period t))))"
  by (simp add: totp_to_uri_def uri_kvs_def uri_issuer_def Let_def)

lemma dec_string_free: "CHR ''&'' \<notin> set (dec_string n)"
  using dec_string_digits digit_char_not_sign by metis

lemma uri_params_kvs:
  assumes "CHR ''&'' \<notin> set k" "CHR ''='' \<notin> set k"
  shows "uri_params (join_params (uri_kvs h k (dec_string n))) = map_of (rev (uri_kvs h k (dec_string n)))"
proof (rule uri_params_join)
  show "uri_kvs h k (dec_string n) \<noteq> []" by (simp add: uri_kvs_def)
  have "CHR ''&'' \<notin> set (base32_encode x)" for x
    by (rule base32.enc_free) (simp add: BASE32_ALPHABET_def)
  moreover have "CHR ''&'' \<notin> set (url_encode (as_bytes x))" for x
    by (rule url.enc_free) (simp add: SAFE_CHARS_def)
  moreover have "CHR ''&'' \<notin> set (alg_to_string a)" for a
    by (cases a) simp_all
  ultimately show "CHR ''&'' \<notin> set k' \<union> set v \<and> CHR ''='' \<notin> set k'"
    if "(k', v) \<in> set (uri_kvs h k (dec_string n))" for k' v
    using that assms by (auto simp: uri_kvs_def dec_string_free split: if_splits)
qed


definition uri_safe :: "Hotp \<Rightarrow> bool" where
  "uri_safe h \<longleftrightarrow> CHR '':'' \<notin> set (hotp_issuer h) \<and>
     (hotp_issuer h = [] \<longrightarrow> hotp_label h \<noteq> [] \<and> CHR '':'' \<notin> set (hotp_label h))"

definition hotp_utf8 :: "Hotp \<Rightarrow> bool" where
  "hotp_utf8 h \<longleftrightarrow> utf8_valid (as_bytes (hotp_issuer h)) \<and> utf8_valid (as_bytes (hotp_label h))"

definition full_label :: "Hotp \<Rightarrow> string" where
  "full_label h = (if hotp_issuer h = [] then hotp_label h else hotp_issuer h @ '':'' @ hotp_label h)"

lemma uri_label_full: "uri_label h = url_encode (as_bytes (full_label h))"
  by (simp add: uri_label_def full_label_def)

lemma full_label_utf8: "hotp_utf8 h \<Longrightarrow> utf8_valid (as_bytes (full_label h))"
  by (simp add: hotp_utf8_def full_label_def utf8_valid_append byte_of_char_def)

lemma full_label_Nil_iff: "full_label h = [] \<longleftrightarrow> hotp_issuer h = [] \<and> hotp_label h = []"
  by (simp add: full_label_def)

lemma uri_head_to_uri:
  assumes "hotp_utf8 h"
  shows "uri_head p (p @ uri_label h @ CHR ''?'' # q) =
    (if full_label h = [] then Inl InvalidLabel
     else Inr (case split_once (CHR '':'') (full_label h) of
                 Some (issuer, label) \<Rightarrow> (Some issuer, label, uri_params q)
               | None \<Rightarrow> (None, full_label h, uri_params q)))"
proof -
  have "CHR ''?'' \<notin> set (uri_label h)"
    unfolding uri_label_full by (rule url.enc_free) (simp add: SAFE_CHARS_def)
  moreover have "uri_label h = [] \<longleftrightarrow> full_label h = []"
    by (simp add: uri_label_full url_encode_eq_Nil_iff)
  moreover have "url_decode (uri_label h) = Inr (full_label h)"
    unfolding uri_label_full by (rule url.dec_enc) (rule full_label_utf8 [OF assms])
  ultimately show ?thesis
    by (auto simp: uri_head_def Let_def simp del: split_once_None_iff split: option.split)
qed

lemma uri_secret_kvs: "k \<noteq> ''secret'' \<Longrightarrow> uri_secret (map_of (rev (uri_kvs h k v))) = Inr (hotp_secret h)"
  by (simp add: uri_secret_def uri_kvs_def base32.dec_enc)

lemma uri_digits_kvs: "k \<noteq> ''digits'' \<Longrightarrow> uri_digits (map_of (rev (uri_kvs h k v))) = Inr (hotp_digits h)"
  using unat_le_max [of "hotp_digits h"]
  by (simp add: uri_digits_def uri_kvs_def)

lemma parse_uri_algorithm_to_string: "parse_uri_algorithm (alg_to_string a) = Inr a"
  by (cases a) (simp_all add: parse_uri_algorithm_def Let_def byte_of_char_def char_of_byte_def char_of_def bit_0)

lemma uri_algorithm_kvs: "k \<noteq> ''algorithm'' \<Longrightarrow> uri_algorithm (map_of (rev (uri_kvs h k v))) = Inr (hotp_alg h)"
  by (simp add: uri_algorithm_def uri_kvs_def parse_uri_algorithm_to_string)

lemma uri_issuer_kvs:
  assumes "k \<noteq> ''issuer''" "hotp_utf8 h"
  shows "uri_issuer_of from_label (map_of (rev (uri_kvs h k v))) =
    (if hotp_issuer h = [] then Inr (case from_label of None \<Rightarrow> [] | Some i \<Rightarrow> i)
     else if from_label = None \<or> from_label = Some (hotp_issuer h) then Inr (hotp_issuer h)
     else Inl IssuerMismatch)"
  using assms
  by (auto simp: uri_issuer_of_def uri_kvs_def hotp_utf8_def url.dec_enc split: option.split)


lemma hotp_from_to_uri:
  assumes "hotp_utf8 h"
  shows "hotp_from_uri (hotp_to_uri h) =
    (if full_label h = [] then Inl InvalidLabel
     else case split_once (CHR '':'') (full_label h) of
       None \<Rightarrow> Inr h
     | Some (issuer, label) \<Rightarrow>
         if hotp_issuer h = [] then Inr (h\<lparr>hotp_issuer := issuer, hotp_label := label\<rparr>)
         else if issuer = hotp_issuer h then Inr (h\<lparr>hotp_label := label\<rparr>)
         else Inl IssuerMismatch)"
proof -
  let ?q = "uri_kvs h ''counter'' (dec_string (unat (hotp_counter h)))"
  have par: "uri_params (join_params ?q) = map_of (rev ?q)" by (rule uri_params_kvs) simp_all
  have ctr: "map_of (rev ?q) ''counter'' = Some (dec_string (unat (hotp_counter h)))"
    by (simp add: uri_kvs_def)
  have [simp]: "unat (hotp_counter h) \<le> 18446744073709551615"
    using unat_le_max [of "hotp_counter h"] by simp
  have "split_once (CHR '':'') (full_label h) = None \<Longrightarrow> hotp_issuer h = [] \<and> hotp_label h = full_label h"
    by (auto simp: full_label_def split: if_splits)
  then show ?thesis
    using assms unfolding hotp_from_uri_def hotp_to_uri_join uri_head_to_uri [OF assms] par
    by (auto simp: ctr uri_digits_kvs uri_secret_kvs
        uri_issuer_kvs uri_algorithm_kvs hotp_new_def simp del: split_once_None_iff split: option.split)
qed


lemma totp_from_to_uri:
  assumes "hotp_utf8 (totp_hotp t)" and "hotp_counter (totp_hotp t) = 0"
  defines "h \<equiv> totp_hotp t"
  shows "totp_from_uri (totp_to_uri t) =
    (if full_label h = [] then Inl InvalidLabel
     else case split_once (CHR '':'') (full_label h) of
       None \<Rightarrow> Inr t
     | Some (issuer, label) \<Rightarrow>
         if hotp_issuer h = [] then Inr (t\<lparr>totp_hotp := h\<lparr>hotp_issuer := issuer, hotp_label := label\<rparr>\<rparr>)
         else if issuer = hotp_issuer h then Inr (t\<lparr>totp_hotp := h\<lparr>hotp_label := label\<rparr>\<rparr>)
         else Inl IssuerMismatch)"
proof -
  let ?q = "uri_kvs h ''period'' (dec_string (unat (totp_period t)))"
  have utf8: "hotp_utf8 h" using assms by simp
  have par: "uri_params (join_params ?q) = map_of (rev ?q)" by (rule uri_params_kvs) simp_all
  have ctr: "map_of (rev ?q) ''period'' = Some (dec_string (unat (totp_period t)))"
    by (simp add: uri_kvs_def)
  have [simp]: "unat (totp_period t) \<le> 18446744073709551615"
    using unat_le_max [of "totp_period t"] by simp
  have "split_once (CHR '':'') (full_label h) = None \<Longrightarrow> hotp_issuer h = [] \<and> hotp_label h = full_label h"
    by (auto simp: full_label_def split: if_splits)
  moreover have "hotp_counter h = 0" using assms by simp
  moreover have "\<lbrakk>hotp_issuer h = []; hotp_label h = l; hotp_counter h = 0\<rbrakk> \<Longrightarrow>
      \<lparr>totp_period = totp_period t, totp_hotp = \<lparr>hotp_alg = hotp_alg h, hotp_issuer = [], hotp_label = l, hotp_digits = hotp_digits h,
                     hotp_counter = 0, hotp_secret = hotp_secret h\<rparr>\<rparr> = t" for l
    by (cases t; cases h) (auto simp: h_def)
  ultimately show ?thesis
    using utf8 unfolding totp_from_uri_def totp_to_uri_join h_def [symmetric] uri_head_to_uri [OF utf8] par
    by (auto simp: ctr uri_digits_kvs uri_secret_kvs totp_new_def
        uri_issuer_kvs uri_algorithm_kvs hotp_new_def simp del: split_once_None_iff split: option.split)
qed

lemma split_once_sep [simp]: "split_once d (xs @ d # ys) \<noteq> None"
  by simp

lemma uri_safe_split:
  "uri_safe h \<longleftrightarrow> full_label h \<noteq> [] \<and>
     split_once (CHR '':'') (full_label h) = (if hotp_issuer h = [] then None else Some (hotp_issuer h, hotp_label h))"
  by (auto simp: uri_safe_def full_label_def dest: split_once_Some)



section \<open>Properties\<close>



text \<open>C9. When \<open>counter + window\<close> does not overflow, \<open>verify\<close> accepts a code exactly when it is
  the code of some counter at distance at most \<open>window\<close>, cut off at zero.\<close>

theorem hotp_verify_window:
  assumes "hotp_digits h \<le> 9" and "unat counter + unat window < 2 ^ 64"
  shows "hotp_verify checks h otp counter window =
    Inr (\<exists>c. unat counter - unat window \<le> unat c \<and> unat c \<le> unat counter + unat window \<and>
             hotp_generate_at checks h c = Inr otp)"
  by (rule hotp_verify_spec [OF assms])

theorem hotp_verify_window_witness:
  "hotp_verify True hotp_default 0 3 2 =
    Inr (\<exists>c. 1 \<le> unat c \<and> unat c \<le> 5 \<and> hotp_generate_at True hotp_default c = Inr 0)"
  using hotp_verify_window [of hotp_default 3 2 True 0] by (simp add: hotp_default_def)

text \<open>More than nine digits: a debug build panics on every counter, and a release build
  panics from 32 digits on, where the wrapped power of ten is zero.\<close>

theorem hotp_digits_panic:
  assumes "9 < hotp_digits h"
  shows "hotp_generate_at True h c = Inl Overflow \<and>
    (hotp_generate_at False h c = Inl DivideByZero \<longleftrightarrow> 32 \<le> hotp_digits h)"
  using assms by (simp add: hotp_generate_at_Overflow hotp_generate_at_release)

theorem hotp_digits_panic_witness:
  "hotp_generate_at True (hotp_default\<lparr>hotp_digits := 32\<rparr>) 0 = Inl Overflow \<and>
   hotp_generate_at False (hotp_default\<lparr>hotp_digits := 32\<rparr>) 0 = Inl DivideByZero"
  using hotp_digits_panic [of "hotp_default\<lparr>hotp_digits := 32\<rparr>" 0] by simp

text \<open>C35. The URI of an HOTP parses back to the same HOTP exactly when the issuer has no colon
  and, if there is no issuer, the label is not empty and has no colon.\<close>

theorem hotp_uri_roundtrip:
  assumes "hotp_utf8 h"
  shows "hotp_from_uri (hotp_to_uri h) = Inr h \<longleftrightarrow> uri_safe h"
  unfolding hotp_from_to_uri [OF assms] uri_safe_split
  by (cases h) (auto simp: full_label_def simp del: split_once_None_iff
      split: option.splits if_splits dest: split_once_Some)

theorem hotp_uri_roundtrip_witness:
  "hotp_from_uri (hotp_to_uri (hotp_default\<lparr>hotp_issuer := ''ex'', hotp_label := ''a:b''\<rparr>)) =
   Inr (hotp_default\<lparr>hotp_issuer := ''ex'', hotp_label := ''a:b''\<rparr>)"
  using hotp_uri_roundtrip [of "hotp_default\<lparr>hotp_issuer := ''ex'', hotp_label := ''a:b''\<rparr>"]
  by (simp add: hotp_utf8_def uri_safe_def byte_of_char_def)

text \<open>The same for a TOTP, whose inner counter is the zero \<open>Totp::new\<close> gives it.\<close>

theorem totp_uri_roundtrip:
  assumes "hotp_utf8 (totp_hotp t)" and "hotp_counter (totp_hotp t) = 0"
  shows "totp_from_uri (totp_to_uri t) = Inr t \<longleftrightarrow> uri_safe (totp_hotp t)"
  unfolding totp_from_to_uri [OF assms] uri_safe_split
  by (cases t; cases "totp_hotp t") (auto simp: full_label_def simp del: split_once_None_iff
      split: option.splits if_splits dest: split_once_Some)

theorem totp_uri_roundtrip_witness:
  "totp_from_uri (totp_to_uri (totp_new SHA256 ''ex'' ''a:b'' 8 60 [1, 2, 3])) =
   Inr (totp_new SHA256 ''ex'' ''a:b'' 8 60 [1, 2, 3])"
  using totp_uri_roundtrip [of "totp_new SHA256 ''ex'' ''a:b'' 8 60 [1, 2, 3]"]
  by (simp add: hotp_utf8_def uri_safe_def byte_of_char_def totp_new_def hotp_new_def)

text \<open>\<open>Totp::from_uri\<close> accepts a period of zero, and the TOTP it returns panics with a
  division by zero at every time, in \<open>generate_at\<close> and in \<open>verify\<close>.\<close>

theorem totp_zero_period:
  "\<exists>t. totp_from_uri (totp_to_uri (totp_new SHA1 [] ''a'' 6 0 [])) = Inr t \<and>
    (\<forall>checks ts. totp_generate_at checks t ts = Inl DivideByZero) \<and>
    (\<forall>checks otp ts w. totp_verify checks t otp ts w = Inl DivideByZero)"
proof -
  let ?t = "totp_new SHA1 [] ''a'' 6 0 []"
  have utf8: "hotp_utf8 (totp_hotp ?t)"
    by (simp add: hotp_utf8_def totp_new_def hotp_new_def byte_of_char_def)
  have "totp_from_uri (totp_to_uri ?t) = Inr ?t"
    by (subst totp_from_to_uri [OF utf8]) (simp_all add: totp_new_def hotp_new_def full_label_def)
  then show ?thesis
    by (auto simp: totp_generate_at_def totp_verify_def div_u64_def totp_new_def)
qed

end
