(* ===== verification/Cells.thy ===== *)
theory Cells
  imports Prelude
begin

text \<open>
  The cell geometry of a line of text: \<open>cells.rs\<close> of the terminal crate. A Rust string is
  the list of its Unicode scalar values here, with the byte offsets of \<open>char_indices\<close>
  computed from their UTF-8 lengths. The width table of the \<open>unicode-width\<close> crate is the
  parameter \<open>width\<close> (\<open>UnicodeWidthChar::width\<close>, \<open>None\<close> for control characters); nothing is
  assumed about it.
\<close>

type_synonym uchar = nat


section \<open>Characters\<close>

definition len_utf8 :: "uchar \<Rightarrow> nat" where
  "len_utf8 c = (if c < 0x80 then 1 else if c < 0x800 then 2 else if c < 0x10000 then 3 else 4)"

fun char_indices :: "nat \<Rightarrow> uchar list \<Rightarrow> (nat \<times> uchar) list" where
  "char_indices i [] = []"
| "char_indices i (c # cs) = (i, c) # char_indices (i + len_utf8 c) cs"

definition utf8_len :: "uchar list \<Rightarrow> nat" where
  "utf8_len text = sum_list (map len_utf8 text)"

definition terminal_is_zero_width_mark :: "(uchar \<Rightarrow> nat option) \<Rightarrow> uchar \<Rightarrow> bool" where
  "terminal_is_zero_width_mark width ch \<longleftrightarrow>
     width ch = Some 0 \<or>
     0x0300 \<le> ch \<and> ch \<le> 0x036f \<or> 0x1ab0 \<le> ch \<and> ch \<le> 0x1aff \<or> 0x1dc0 \<le> ch \<and> ch \<le> 0x1dff \<or>
     0x20d0 \<le> ch \<and> ch \<le> 0x20ff \<or> 0xfe20 \<le> ch \<and> ch \<le> 0xfe2f"

definition terminal_char_cell_width :: "(uchar \<Rightarrow> nat option) \<Rightarrow> uchar \<Rightarrow> nat" where
  "terminal_char_cell_width width ch = max (case width ch of None \<Rightarrow> 0 | Some n \<Rightarrow> n) 1"


section \<open>Counting cells\<close>

fun cell_count_loop :: "(uchar \<Rightarrow> nat option) \<Rightarrow> uchar list \<Rightarrow> nat \<Rightarrow> nat" where
  "cell_count_loop width [] cells = cells"
| "cell_count_loop width (ch # rest) cells =
     (if terminal_is_zero_width_mark width ch \<and> 0 < cells then cell_count_loop width rest cells
      else cell_count_loop width rest (cells + terminal_char_cell_width width ch))"

definition terminal_cell_count :: "(uchar \<Rightarrow> nat option) \<Rightarrow> uchar list \<Rightarrow> nat" where
  "terminal_cell_count width text = cell_count_loop width text 0"

fun cell_col_loop :: "(uchar \<Rightarrow> nat option) \<Rightarrow> nat \<Rightarrow> (nat \<times> uchar) list \<Rightarrow> nat \<Rightarrow> nat" where
  "cell_col_loop width byte_index [] cells = cells"
| "cell_col_loop width byte_index ((idx, ch) # rest) cells =
     (if byte_index \<le> idx then cells
      else if terminal_is_zero_width_mark width ch \<and> 0 < cells
      then cell_col_loop width byte_index rest cells
      else cell_col_loop width byte_index rest (cells + terminal_char_cell_width width ch))"

definition terminal_cell_col_for_byte_index :: "(uchar \<Rightarrow> nat option) \<Rightarrow> uchar list \<Rightarrow> nat \<Rightarrow> nat" where
  "terminal_cell_col_for_byte_index width text byte_index =
     cell_col_loop width (min byte_index (utf8_len text)) (char_indices 0 text) 0"

fun byte_index_loop :: "(uchar \<Rightarrow> nat option) \<Rightarrow> nat \<Rightarrow> nat \<Rightarrow> (nat \<times> uchar) list \<Rightarrow> nat \<Rightarrow> nat" where
  "byte_index_loop width len cell_col [] cells = len"
| "byte_index_loop width len cell_col ((idx, ch) # rest) cells =
     (if \<not> terminal_is_zero_width_mark width ch \<or> cells = 0 then
        let w = terminal_char_cell_width width ch in
        if cell_col < cells + w then idx
        else byte_index_loop width len cell_col rest (cells + w)
      else byte_index_loop width len cell_col rest cells)"

definition terminal_byte_index_for_cell_col :: "(uchar \<Rightarrow> nat option) \<Rightarrow> uchar list \<Rightarrow> nat \<Rightarrow> nat" where
  "terminal_byte_index_for_cell_col width text cell_col =
     (if cell_col = 0 then 0
      else byte_index_loop width (utf8_len text) cell_col (char_indices 0 text) 0)"


section \<open>Cells as values\<close>

record TerminalTextCell =
  cell_text :: "uchar list"
  byte_start :: nat
  byte_end :: nat

text \<open>The mark joins the run of trailing cells that start at the same byte.\<close>

definition extend_last :: "uchar \<Rightarrow> nat \<Rightarrow> TerminalTextCell list \<Rightarrow> TerminalTextCell list" where
  "extend_last ch end_byte cells =
     (let previous_start = byte_start (last cells);
          same = (\<lambda>cell. byte_start cell = previous_start);
          push = (\<lambda>cell. cell\<lparr>cell_text := cell_text cell @ [ch], byte_end := end_byte\<rparr>)
      in rev (map push (takeWhile same (rev cells)) @ dropWhile same (rev cells)))"

fun text_cells_loop ::
  "(uchar \<Rightarrow> nat option) \<Rightarrow> (nat \<times> uchar) list \<Rightarrow> TerminalTextCell list \<Rightarrow> TerminalTextCell list" where
  "text_cells_loop width [] cells = cells"
| "text_cells_loop width ((start, ch) # rest) cells =
     (let end_byte = start + len_utf8 ch in
      if terminal_is_zero_width_mark width ch \<and> cells \<noteq> []
      then text_cells_loop width rest (extend_last ch end_byte cells)
      else
        let cell = \<lparr>cell_text = [ch], byte_start = start, byte_end = end_byte\<rparr>
        in text_cells_loop width rest
             (cells @ replicate (max (terminal_cell_count width (cell_text cell)) 1) cell))"

definition terminal_text_cells :: "(uchar \<Rightarrow> nat option) \<Rightarrow> uchar list \<Rightarrow> TerminalTextCell list" where
  "terminal_text_cells width text = text_cells_loop width (char_indices 0 text) []"

fun cell_slice_loop :: "TerminalTextCell list \<Rightarrow> (nat \<times> nat) option \<Rightarrow> uchar list \<Rightarrow> uchar list" where
  "cell_slice_loop [] last_range out = out"
| "cell_slice_loop (cell # rest) last_range out =
     (let range = (byte_start cell, byte_end cell) in
      if last_range = Some range then cell_slice_loop rest last_range out
      else cell_slice_loop rest (Some range) (out @ cell_text cell))"

text \<open>\<open>cells.get(start..end)\<close> is \<open>None\<close> when the range is reversed or ends after the cells.\<close>

definition terminal_text_cell_slice :: "TerminalTextCell list \<Rightarrow> nat \<Rightarrow> nat \<Rightarrow> uchar list" where
  "terminal_text_cell_slice cells start end' =
     (if start \<le> end' \<and> end' \<le> length cells
      then cell_slice_loop (take (end' - start) (drop start cells)) None []
      else [])"


section \<open>Clusters\<close>

text \<open>
  The reference view: a line is a sequence of clusters, each a base character with the marks
  after it, that occupies as many cells as the base character is wide.
\<close>

function clusters :: "(uchar \<Rightarrow> nat option) \<Rightarrow> uchar list \<Rightarrow> uchar list list" where
  "clusters width [] = []"
| "clusters width (ch # rest) =
     (ch # takeWhile (terminal_is_zero_width_mark width) rest)
       # clusters width (dropWhile (terminal_is_zero_width_mark width) rest)"
  by pat_completeness auto
termination
  by (relation "measure (\<lambda>(_, text). length text)") (auto simp: le_imp_less_Suc length_dropWhile_le)

fun cluster_cells :: "(uchar \<Rightarrow> nat option) \<Rightarrow> nat \<Rightarrow> uchar list list \<Rightarrow> TerminalTextCell list" where
  "cluster_cells width i [] = []"
| "cluster_cells width i (c # cs) =
     replicate (terminal_char_cell_width width (hd c))
       \<lparr>cell_text = c, byte_start = i, byte_end = i + utf8_len c\<rparr>
     @ cluster_cells width (i + utf8_len c) cs"

lemma utf8_len_simps [simp]:
  "utf8_len [] = 0" "utf8_len (c # cs) = len_utf8 c + utf8_len cs"
  "utf8_len (xs @ ys) = utf8_len xs + utf8_len ys"
  by (simp_all add: utf8_len_def)

lemma len_utf8_pos [simp]: "0 < len_utf8 c"
  by (simp add: len_utf8_def)

lemma terminal_char_cell_width_pos [simp]: "0 < terminal_char_cell_width width c"
  by (simp add: terminal_char_cell_width_def)

lemma terminal_cell_count_single: "terminal_cell_count width [c] = terminal_char_cell_width width c"
  by (simp add: terminal_cell_count_def)

lemma concat_clusters: "concat (clusters width text) = text"
  by (induction width "text" rule: clusters.induct) simp_all

lemma clusters_nonempty: "c \<in> set (clusters width text) \<Longrightarrow> c \<noteq> []"
  by (induction width "text" rule: clusters.induct) auto

lemma char_indices_append: "char_indices i (xs @ ys) = char_indices i xs @ char_indices (i + utf8_len xs) ys"
  by (induction xs arbitrary: i) (simp_all add: add.assoc)

lemma extend_last_run:
  assumes "\<And>c. c \<in> set pre \<Longrightarrow> byte_start c \<noteq> s"
  shows "extend_last ch e (pre @ replicate (Suc n) \<lparr>cell_text = t, byte_start = s, byte_end = i\<rparr>) =
    pre @ replicate (Suc n) \<lparr>cell_text = t @ [ch], byte_start = s, byte_end = e\<rparr>"
proof -
  let ?c = "\<lparr>cell_text = t, byte_start = s, byte_end = i\<rparr>"
  let ?P = "\<lambda>cell. byte_start cell = s"
  have hd: "pre \<noteq> [] \<Longrightarrow> byte_start (hd (rev pre)) \<noteq> s"
    using assms hd_in_set [of "rev pre"] by simp
  have tw: "takeWhile ?P (replicate (Suc n) ?c @ rev pre) = replicate (Suc n) ?c"
    using hd by (subst takeWhile_append2) (auto simp: takeWhile_eq_Nil_iff)
  have dw: "dropWhile ?P (replicate (Suc n) ?c @ rev pre) = rev pre"
    using hd by (subst dropWhile_append2) (auto simp: dropWhile_eq_self_iff)
  have lst: "last (pre @ replicate (Suc n) ?c) = ?c" by simp
  show ?thesis
    unfolding extend_last_def lst Let_def
    by (simp del: replicate_Suc add: tw dw)
qed

lemma text_cells_loop_marks:
  assumes "\<And>c. c \<in> set pre \<Longrightarrow> byte_start c \<noteq> s"
    and "\<And>c. c \<in> set ms \<Longrightarrow> terminal_is_zero_width_mark width c"
  shows "text_cells_loop width (char_indices i (ms @ rest))
      (pre @ replicate (Suc n) \<lparr>cell_text = t, byte_start = s, byte_end = i\<rparr>) =
    text_cells_loop width (char_indices (i + utf8_len ms) rest)
      (pre @ replicate (Suc n) \<lparr>cell_text = t @ ms, byte_start = s, byte_end = i + utf8_len ms\<rparr>)"
  using assms(2)
proof (induction ms arbitrary: t i)
  case Nil
  then show ?case by simp
next
  case (Cons m ms)
  then show ?case
    using extend_last_run [OF assms(1), of pre]
    by (simp del: replicate_Suc add: add.assoc)
qed

lemma text_cells_loop_clusters:
  assumes "\<And>c. c \<in> set pre \<Longrightarrow> byte_start c < i"
    and "pre = [] \<or> (case text of [] \<Rightarrow> True | c # _ \<Rightarrow> \<not> terminal_is_zero_width_mark width c)"
  shows "text_cells_loop width (char_indices i text) pre = pre @ cluster_cells width i (clusters width text)"
  using assms
proof (induction width "text" arbitrary: i pre rule: clusters.induct)
  case (1 width)
  then show ?case by simp
next
  case (2 width ch rest)
  let ?m = "terminal_is_zero_width_mark width"
  let ?ms = "takeWhile ?m rest" and ?rest = "dropWhile ?m rest"
  obtain n where n: "terminal_char_cell_width width ch = Suc n"
    using terminal_char_cell_width_pos [of width ch] by (cases "terminal_char_cell_width width ch") auto
  let ?e = "i + len_utf8 ch"
  let ?new = "replicate (Suc n) \<lparr>cell_text = ch # ?ms, byte_start = i, byte_end = ?e + utf8_len ?ms\<rparr>"
  have "text_cells_loop width (char_indices i (ch # rest)) pre =
      text_cells_loop width (char_indices ?e rest)
        (pre @ replicate (Suc n) \<lparr>cell_text = [ch], byte_start = i, byte_end = ?e\<rparr>)"
    using "2.prems"(2) n by (auto simp: Let_def terminal_cell_count_single simp del: replicate_Suc)
  also have "\<dots> = text_cells_loop width (char_indices (?e + utf8_len ?ms) ?rest) (pre @ ?new)"
    using text_cells_loop_marks [of pre i ?ms width ?e ?rest n "[ch]"] "2.prems"(1)
    by (auto simp del: replicate_Suc dest: set_takeWhileD)
  also have "\<dots> = (pre @ ?new) @ cluster_cells width (?e + utf8_len ?ms) (clusters width ?rest)"
  proof (rule "2.IH")
    show "byte_start c < ?e + utf8_len ?ms" if "c \<in> set (pre @ ?new)" for c
      using that "2.prems"(1) len_utf8_pos [of ch] by (auto simp del: replicate_Suc split: if_splits simp: trans_less_add1)
    show "pre @ ?new = [] \<or> (case ?rest of [] \<Rightarrow> True | c # _ \<Rightarrow> \<not> ?m c)"
      by (auto split: list.split dest: dropWhile_eq_Cons_conv [THEN iffD1])
  qed
  finally show ?case
    using n by (simp del: replicate_Suc add: add.assoc)
qed

lemma terminal_text_cells_clusters:
  "terminal_text_cells width text = cluster_cells width 0 (clusters width text)"
  using text_cells_loop_clusters [of "[]" 0] by (simp add: terminal_text_cells_def)

text \<open>A base character, or any character at the start of the line, begins a cluster.\<close>

abbreviation starts_cluster :: "(uchar \<Rightarrow> nat option) \<Rightarrow> nat \<Rightarrow> uchar list \<Rightarrow> bool" where
  "starts_cluster width n str \<equiv>
     n = 0 \<or> (case str of [] \<Rightarrow> True | c # _ \<Rightarrow> \<not> terminal_is_zero_width_mark width c)"

lemma starts_cluster_dropWhile: "starts_cluster width n (dropWhile (terminal_is_zero_width_mark width) str)"
  by (auto split: list.split dest: dropWhile_eq_Cons_conv [THEN iffD1])

lemma cluster_cells_start_ge: "c \<in> set (cluster_cells width i cs) \<Longrightarrow> i \<le> byte_start c"
  by (induction width i cs rule: cluster_cells.induct) (auto split: if_splits)

lemma filter_cluster_cells_above:
  "b \<le> i \<Longrightarrow> filter (\<lambda>c. byte_start c < b) (cluster_cells width i cs) = []"
  using cluster_cells_start_ge by (fastforce simp: filter_empty_conv)

lemma cell_count_loop_marks:
  "0 < n \<Longrightarrow> (\<And>c. c \<in> set ms \<Longrightarrow> terminal_is_zero_width_mark width c) \<Longrightarrow>
   cell_count_loop width (ms @ rest) n = cell_count_loop width rest n"
  by (induction ms) auto

lemma cell_count_loop_clusters:
  "starts_cluster width n str \<Longrightarrow>
   cell_count_loop width str n = n + length (cluster_cells width i (clusters width str))"
proof (induction width str arbitrary: n i rule: clusters.induct)
  case (1 width)
  then show ?case by simp
next
  case (2 width ch rest)
  let ?m = "terminal_is_zero_width_mark width" and ?w = "terminal_char_cell_width width ch"
  have "cell_count_loop width (ch # rest) n = cell_count_loop width (takeWhile ?m rest @ dropWhile ?m rest) (n + ?w)"
    using "2.prems" by auto
  also have "\<dots> = cell_count_loop width (dropWhile ?m rest) (n + ?w)"
    by (rule cell_count_loop_marks) (auto dest: set_takeWhileD)
  also have "\<dots> = n + ?w + length (cluster_cells width (i + utf8_len (ch # takeWhile ?m rest)) (clusters width (dropWhile ?m rest)))"
    by (rule "2.IH") (rule starts_cluster_dropWhile)
  finally show ?case by simp
qed

lemma byte_index_loop_marks:
  "0 < n \<Longrightarrow> (\<And>c. c \<in> set ms \<Longrightarrow> terminal_is_zero_width_mark width c) \<Longrightarrow>
   byte_index_loop width len col (char_indices i (ms @ rest)) n =
   byte_index_loop width len col (char_indices (i + utf8_len ms) rest) n"
  by (induction ms arbitrary: i) (auto simp: add.assoc)

lemma byte_index_loop_clusters:
  "starts_cluster width n str \<Longrightarrow> n \<le> col \<Longrightarrow>
   byte_index_loop width len col (char_indices i str) n =
     (let cells = cluster_cells width i (clusters width str) in
      if col - n < length cells then byte_start (cells ! (col - n)) else len)"
proof (induction width str arbitrary: n i rule: clusters.induct)
  case (1 width)
  then show ?case by simp
next
  case (2 width ch rest)
  let ?m = "terminal_is_zero_width_mark width" and ?w = "terminal_char_cell_width width ch"
  let ?ms = "takeWhile ?m rest" and ?rest = "dropWhile ?m rest"
  show ?case
  proof (cases "col < n + ?w")
    case True
    then have "col - n < ?w" using "2.prems"(2) by simp
    with True "2.prems"(1) show ?thesis by (auto simp: Let_def nth_append)
  next
    case False
    then have "byte_index_loop width len col (char_indices i (ch # rest)) n =
        byte_index_loop width len col (char_indices (i + len_utf8 ch) (?ms @ ?rest)) (n + ?w)"
      using "2.prems"(1) by (auto simp: Let_def)
    also have "\<dots> = byte_index_loop width len col (char_indices (i + len_utf8 ch + utf8_len ?ms) ?rest) (n + ?w)"
      by (rule byte_index_loop_marks) (auto dest: set_takeWhileD)
    finally have eq: "byte_index_loop width len col (char_indices i (ch # rest)) n =
        byte_index_loop width len col (char_indices (i + len_utf8 ch + utf8_len ?ms) ?rest) (n + ?w)" .
    from False "2.prems"(2) have sub: "col - n - ?w = col - (n + ?w)" "\<not> col - n < ?w" by auto
    show ?thesis
      unfolding eq
      using "2.IH" [OF starts_cluster_dropWhile, of "n + ?w" "i + len_utf8 ch + utf8_len ?ms"] False sub
      by (auto simp: Let_def nth_append add.assoc)
  qed
qed

lemma cell_col_loop_above: "b \<le> i \<Longrightarrow> cell_col_loop width b (char_indices i str) n = n"
  by (cases str) simp_all

lemma cell_col_loop_marks:
  "0 < n \<Longrightarrow> (\<And>c. c \<in> set ms \<Longrightarrow> terminal_is_zero_width_mark width c) \<Longrightarrow>
   cell_col_loop width b (char_indices i (ms @ rest)) n =
   cell_col_loop width b (char_indices (i + utf8_len ms) rest) n"
  by (induction ms arbitrary: i) (auto simp: add.assoc cell_col_loop_above)

lemma cell_col_loop_clusters:
  "starts_cluster width n str \<Longrightarrow>
   cell_col_loop width b (char_indices i str) n =
     n + length (filter (\<lambda>c. byte_start c < b) (cluster_cells width i (clusters width str)))"
proof (induction width str arbitrary: n i rule: clusters.induct)
  case (1 width)
  then show ?case by simp
next
  case (2 width ch rest)
  let ?m = "terminal_is_zero_width_mark width" and ?w = "terminal_char_cell_width width ch"
  let ?ms = "takeWhile ?m rest" and ?rest = "dropWhile ?m rest"
  show ?case
  proof (cases "b \<le> i")
    case True
    then show ?thesis by (simp add: cell_col_loop_above filter_cluster_cells_above)
  next
    case False
    then have "cell_col_loop width b (char_indices i (ch # rest)) n =
        cell_col_loop width b (char_indices (i + len_utf8 ch) (?ms @ ?rest)) (n + ?w)"
      using "2.prems" by auto
    also have "\<dots> = cell_col_loop width b (char_indices (i + len_utf8 ch + utf8_len ?ms) ?rest) (n + ?w)"
      by (rule cell_col_loop_marks) (auto dest: set_takeWhileD)
    finally show ?thesis
      using False "2.IH" [OF starts_cluster_dropWhile, of "i + len_utf8 ch + utf8_len ?ms" "n + ?w"]
      by (simp add: add.assoc)
  qed
qed

lemma cell_slice_loop_out: "cell_slice_loop cells r out = out @ cell_slice_loop cells r []"
proof (induction cells arbitrary: r out)
  case (Cons c cells)
  show ?case
    using Cons.IH [of _ "out @ cell_text c"] Cons.IH [of _ "cell_text c"] Cons.IH [of _ out]
    by (simp add: Let_def)
qed simp

lemma cell_slice_loop_replicate:
  "cell_slice_loop (replicate n c @ rest) (Some (byte_start c, byte_end c)) out =
   cell_slice_loop rest (Some (byte_start c, byte_end c)) out"
  by (induction n) (simp_all add: Let_def)

lemma cell_slice_loop_clusters:
  "(case r of None \<Rightarrow> True | Some (s, _) \<Rightarrow> s < i) \<Longrightarrow> (\<And>c. c \<in> set cs \<Longrightarrow> c \<noteq> []) \<Longrightarrow>
   cell_slice_loop (cluster_cells width i cs) r out = out @ concat cs"
proof (induction width i cs arbitrary: r out rule: cluster_cells.induct)
  case (2 width i c cs)
  obtain n where n: "terminal_char_cell_width width (hd c) = Suc n"
    using terminal_char_cell_width_pos [of width "hd c"] by (cases "terminal_char_cell_width width (hd c)") auto
  have pos: "0 < utf8_len c" using "2.prems"(2) [of c] by (cases c) auto
  let ?c = "\<lparr>cell_text = c, byte_start = i, byte_end = i + utf8_len c\<rparr>"
  have "r \<noteq> Some (i, i + utf8_len c)" using "2.prems"(1) by (auto split: option.splits)
  then have "cell_slice_loop (cluster_cells width i (c # cs)) r out =
      cell_slice_loop (replicate n ?c @ cluster_cells width (i + utf8_len c) cs) (Some (i, i + utf8_len c)) (out @ c)"
    by (simp add: n Let_def)
  also have "\<dots> = cell_slice_loop (cluster_cells width (i + utf8_len c) cs) (Some (i, i + utf8_len c)) (out @ c)"
    using cell_slice_loop_replicate [of n ?c] by simp
  also have "\<dots> = (out @ c) @ concat cs"
    using "2.prems" pos by (intro "2.IH") auto
  finally show ?case by simp
qed simp

lemma cell_slice_loop_append:
  assumes "xs \<noteq> []" "ys \<noteq> []"
    and "(byte_start (last xs), byte_end (last xs)) \<noteq> (byte_start (hd ys), byte_end (hd ys))"
  shows "cell_slice_loop (xs @ ys) r [] = cell_slice_loop xs r [] @ cell_slice_loop ys None []"
  using assms(1,3)
proof (induction xs arbitrary: r)
  case (Cons x xs)
  show ?case
  proof (cases "xs = []")
    case True
    with Cons.prems assms(2) show ?thesis
      by (cases ys) (auto simp: Let_def cell_slice_loop_out [of _ _ "cell_text _"] cell_slice_loop_out [of _ _ "_ @ _"])
  next
    case False
    with Cons show ?thesis
      by (simp add: Let_def cell_slice_loop_out [of _ _ "cell_text x"])
  qed
qed simp

lemma terminal_text_cell_slice_split:
  assumes "a \<le> b" "b \<le> c" "c \<le> length cells"
    and "0 < b \<and> b < length cells \<longrightarrow>
      (byte_start (cells ! (b - 1)), byte_end (cells ! (b - 1))) \<noteq> (byte_start (cells ! b), byte_end (cells ! b))"
  shows "terminal_text_cell_slice cells a b @ terminal_text_cell_slice cells b c = terminal_text_cell_slice cells a c"
proof (cases "a < b \<and> b < c")
  case True
  let ?xs = "take (b - a) (drop a cells)" and ?ys = "take (c - b) (drop b cells)"
  have "take (c - a) (drop a cells) = ?xs @ ?ys"
    using assms(1,2) take_add [of "b - a" "c - b" "drop a cells"] by simp
  moreover have "last ?xs = cells ! (b - 1)" "hd ?ys = cells ! b" "?xs \<noteq> []" "?ys \<noteq> []"
    using True assms by (auto simp: last_conv_nth hd_conv_nth)
  ultimately show ?thesis
    using True assms cell_slice_loop_append [of ?xs ?ys None] by (simp add: terminal_text_cell_slice_def)
next
  case False
  then have "a = b \<or> b = c" using assms by auto
  then show ?thesis using assms by (auto simp: terminal_text_cell_slice_def)
qed


lemma terminal_cell_count_cells: "terminal_cell_count width str = length (terminal_text_cells width str)"
  using cell_count_loop_clusters [where n = 0 and i = 0 and width = width and str = str]
  by (simp add: terminal_cell_count_def terminal_text_cells_clusters)

lemma terminal_byte_index_cells:
  "terminal_byte_index_for_cell_col width str col =
     (if col < length (terminal_text_cells width str) then byte_start (terminal_text_cells width str ! col)
      else utf8_len str)"
proof (cases "col = 0")
  case True
  show ?thesis
  proof (cases str)
    case Nil
    with True show ?thesis by (simp add: terminal_byte_index_for_cell_col_def terminal_text_cells_clusters)
  next
    case (Cons ch rest)
    with True show ?thesis
      by (simp add: terminal_byte_index_for_cell_col_def terminal_text_cells_clusters nth_append trans_less_add1)
  qed
next
  case False
  then show ?thesis
    using byte_index_loop_clusters [where n = 0 and i = 0 and width = width and str = str and col = col]
    by (simp add: terminal_byte_index_for_cell_col_def terminal_text_cells_clusters Let_def)
qed

lemma terminal_cell_col_cells:
  "terminal_cell_col_for_byte_index width str b =
     length (filter (\<lambda>c. byte_start c < min b (utf8_len str)) (terminal_text_cells width str))"
  using cell_col_loop_clusters [where n = 0 and i = 0 and width = width and str = str]
  by (simp add: terminal_cell_col_for_byte_index_def terminal_text_cells_clusters)

lemma terminal_text_cell_slice_all:
  "terminal_text_cell_slice (terminal_text_cells width str) 0 (terminal_cell_count width str) = str"
  using cell_slice_loop_clusters [where r = None and i = 0 and cs = "clusters width str" and width = width and out = "[]"] clusters_nonempty [of _ width str]
  by (simp add: terminal_text_cell_slice_def terminal_cell_count_cells terminal_text_cells_clusters concat_clusters)


section \<open>Properties\<close>

text \<open>C38. The three views of a line agree: \<open>terminal_text_cells\<close> yields as many cells as
  \<open>terminal_cell_count\<close> counts; the byte index of a column is where its cell starts (the end of
  the text past the last cell); the column of a byte index is the number of cells that start
  before it.\<close>

theorem cell_geometry:
  "length (terminal_text_cells width str) = terminal_cell_count width str \<and>
   terminal_byte_index_for_cell_col width str col =
     (if col < terminal_cell_count width str then byte_start (terminal_text_cells width str ! col)
      else utf8_len str) \<and>
   terminal_cell_col_for_byte_index width str b =
     length (filter (\<lambda>c. byte_start c < min b (utf8_len str)) (terminal_text_cells width str))"
  by (simp add: terminal_cell_count_cells terminal_byte_index_cells terminal_cell_col_cells)

text \<open>Slicing all cells of a line gives back its text, and two adjacent slices that meet
  between different clusters concatenate to the slice over both.\<close>

theorem cell_slice_concat:
  assumes "a \<le> b" "b \<le> c" "c \<le> terminal_cell_count width str"
    and "b = 0 \<or> b = terminal_cell_count width str \<or>
      (let x = terminal_text_cells width str ! (b - 1); y = terminal_text_cells width str ! b
       in (byte_start x, byte_end x) \<noteq> (byte_start y, byte_end y))"
  shows "terminal_text_cell_slice (terminal_text_cells width str) 0 (terminal_cell_count width str) = str \<and>
    terminal_text_cell_slice (terminal_text_cells width str) a b
      @ terminal_text_cell_slice (terminal_text_cells width str) b c
    = terminal_text_cell_slice (terminal_text_cells width str) a c"
  using terminal_text_cell_slice_split [of a b c "terminal_text_cells width str"]
    assms terminal_text_cell_slice_all [of width str]
  by (auto simp: terminal_cell_count_cells Let_def)

theorem cell_slice_concat_witness:
  "let cells = terminal_text_cells (\<lambda>c. Some (if c = 0x754C then 2 else if c = 0x301 then 0 else 1)) [0x754C, 0x301, 0x78]
   in terminal_text_cell_slice cells 0 3 = [0x754C, 0x301, 0x78] \<and>
      terminal_text_cell_slice cells 0 2 @ terminal_text_cell_slice cells 2 3 = terminal_text_cell_slice cells 0 3"
  using cell_slice_concat [of 0 2 3 "\<lambda>c. Some (if c = 0x754C then 2 else if c = 0x301 then 0 else 1)" "[0x754C, 0x301, 0x78]"]
  by (simp add: terminal_cell_count_def terminal_is_zero_width_mark_def terminal_char_cell_width_def
      terminal_text_cells_def extend_last_def len_utf8_def numeral_2_eq_2 numeral_3_eq_3)

end
