(* ===== verification/Telnet.thy ===== *)
theory Telnet
  imports Prelude Cells
begin

unbundle bit_operations_syntax

text \<open>
  The Telnet transport: the protocol bytes (\<open>telnet_codec.rs\<close>), the text input policy with its
  escape-sequence tracker and local line editor (\<open>telnet_input.rs\<close>), the auto-login line of
  \<open>telnet_prompts.rs\<close> and the wire size of \<open>transport_io.rs\<close>. The negotiation callback of
  \<open>strip_telnet_commands\<close> is the list of calls it receives, in order. The character set
  decoder of the session and the width table are parameters of \<open>backspace\<close>.
\<close>


section \<open>Protocol bytes\<close>

definition IAC :: u8 where "IAC = 255"
definition WILL :: u8 where "WILL = 251"
definition WONT :: u8 where "WONT = 252"
definition DO :: u8 where "DO = 253"
definition DONT :: u8 where "DONT = 254"
definition SB :: u8 where "SB = 250"
definition SE :: u8 where "SE = 240"
definition OPT_ECHO :: u8 where "OPT_ECHO = 1"
definition OPT_SUPPRESS_GO_AHEAD :: u8 where "OPT_SUPPRESS_GO_AHEAD = 3"
definition OPT_NAWS :: u8 where "OPT_NAWS = 31"

lemmas telnet_bytes = IAC_def WILL_def WONT_def DO_def DONT_def SB_def SE_def
  OPT_ECHO_def OPT_SUPPRESS_GO_AHEAD_def OPT_NAWS_def

datatype TelnetEnterMode = Crlf | Cr | Lf

record TelnetSessionConfig =
  raw_tcp :: bool
  enter_mode :: TelnetEnterMode
  local_echo :: bool
  local_line_edit :: bool
  send_naws :: bool
  send_sga :: bool
  encoding :: string

definition negotiate_response :: "u8 \<Rightarrow> u8 \<Rightarrow> bool \<Rightarrow> bool \<Rightarrow> u8 list" where
  "negotiate_response command option naws sga =
     (if command = WILL then
        if option = OPT_ECHO \<or> sga \<and> option = OPT_SUPPRESS_GO_AHEAD then [IAC, DO, option]
        else [IAC, DONT, option]
      else if command = DO then
        if naws \<and> option = OPT_NAWS then [IAC, WILL, option] else [IAC, WONT, option]
      else if command = WONT then [IAC, DONT, option]
      else if command = DONT then [IAC, WONT, option]
      else [])"

definition maybe_build_naws :: "u16 \<Rightarrow> u16 \<Rightarrow> TelnetSessionConfig \<Rightarrow> u8 list option" where
  "maybe_build_naws cols rows config =
     (if raw_tcp config \<or> \<not> send_naws config then None
      else Some [IAC, SB, OPT_NAWS, ucast (drop_bit 8 cols), ucast (cols AND 0xff),
                 ucast (drop_bit 8 rows), ucast (rows AND 0xff), IAC, SE])"

fun unescape_iac_iac :: "u8 list \<Rightarrow> u8 list" where
  "unescape_iac_iac [] = []"
| "unescape_iac_iac [b] = [b]"
| "unescape_iac_iac (b # c # rest) =
     (if b = IAC \<and> c = IAC then IAC # unescape_iac_iac rest
      else b # unescape_iac_iac (c # rest))"

text \<open>The inner loop of a subnegotiation: what is left after the first \<open>IAC SE\<close>.\<close>

fun skip_subnegotiation :: "u8 list \<Rightarrow> u8 list" where
  "skip_subnegotiation [] = []"
| "skip_subnegotiation [b] = []"
| "skip_subnegotiation (b # c # rest) =
     (if b = IAC \<and> c = SE then rest else skip_subnegotiation (c # rest))"

lemma length_skip_subnegotiation: "length (skip_subnegotiation xs) \<le> length xs"
  by (induction xs rule: skip_subnegotiation.induct) auto

function strip_telnet_commands :: "u8 list \<Rightarrow> u8 list \<times> (u8 \<times> u8) list" where
  "strip_telnet_commands [] = ([], [])"
| "strip_telnet_commands [b] = ([b], [])"
| "strip_telnet_commands (b # command # rest) =
     (if b = IAC then
        if command = IAC then
          let (visible, calls) = strip_telnet_commands rest in (IAC # visible, calls)
        else if command = WILL \<or> command = WONT \<or> command = DO \<or> command = DONT then
          (case rest of
             [] \<Rightarrow> ([], [])
           | option # rest' \<Rightarrow>
               let (visible, calls) = strip_telnet_commands rest' in (visible, (command, option) # calls))
        else if command = SB then strip_telnet_commands (skip_subnegotiation rest)
        else strip_telnet_commands rest
      else let (visible, calls) = strip_telnet_commands (command # rest) in (b # visible, calls))"
  by pat_completeness auto
termination
  by (relation "measure length") (auto simp: le_imp_less_Suc length_skip_subnegotiation less_Suc_eq_le le_SucI)

definition escape_telnet_application_data :: "u8 list \<Rightarrow> bool \<Rightarrow> u8 list" where
  "escape_telnet_application_data data raw =
     (if raw then data else concat (map (\<lambda>b. if b = IAC then [b, IAC] else [b]) data))"

definition telnet_wire_size :: "u8 list \<Rightarrow> bool \<Rightarrow> nat" where
  "telnet_wire_size data raw = length data + (if raw then 0 else length (filter (\<lambda>b. b = 255) data))"


section \<open>Text input\<close>

datatype EscapeState =
  Ground | Escape | Csi | Ss3 | Osc | OscEscape | ControlString | ControlStringEscape

record TelnetInputState =
  input_line :: "u8 list"
  input_escape :: EscapeState

text \<open>The byte match of \<open>consume\<close>, arms in the order of the source.\<close>

definition escape_next :: "EscapeState \<Rightarrow> u8 \<Rightarrow> EscapeState" where
  "escape_next state byte =
     (if state = Escape \<and> byte = 0x5b then Csi
      else if state = Escape \<and> byte = 0x4f then Ss3
      else if state = Escape \<and> byte = 0x5d then Osc
      else if state = Escape \<and> (byte = 0x50 \<or> byte = 0x58 \<or> byte = 0x5e \<or> byte = 0x5f) then ControlString
      else if state = Escape \<and> 0x20 \<le> byte \<and> byte \<le> 0x2f then Escape
      else if (state = Csi \<or> state = Ss3) \<and> 0x40 \<le> byte \<and> byte \<le> 0x7e then Ground
      else if state = Osc \<and> byte = 0x07 then Ground
      else if state = Osc \<and> byte = 0x1b then OscEscape
      else if (state = OscEscape \<or> state = ControlStringEscape) \<and> byte = 0x5c then Ground
      else if state = OscEscape \<and> byte = 0x1b then OscEscape
      else if state = OscEscape then Osc
      else if state = ControlString \<and> byte = 0x1b then ControlStringEscape
      else if state = ControlStringEscape \<and> byte = 0x1b then ControlStringEscape
      else if state = ControlStringEscape then ControlString
      else if byte = 0x1b then Escape
      else if state = Escape then Ground
      else state)"

definition escape_consume :: "EscapeState \<Rightarrow> u8 \<Rightarrow> bool \<times> EscapeState" where
  "escape_consume state byte =
     (if state = Ground then
        if byte = 0x1b then (True, Escape) else (False, state)
      else if (state = Escape \<or> state = Csi \<or> state = Ss3) \<and> byte < 0x20 \<and> byte \<noteq> 0x1b then (False, Ground)
      else (True, escape_next state byte))"

definition enter_bytes :: "TelnetEnterMode \<Rightarrow> u8 list" where
  "enter_bytes mode = (case mode of Cr \<Rightarrow> [0x0d] | Lf \<Rightarrow> [0x0a] | Crlf \<Rightarrow> [0x0d, 0x0a])"

text \<open>
  The parameter \<open>decode\<close> is \<open>decode_without_bom_handling_and_without_replacement\<close> of the codec the
  encoding name selects.
\<close>

type_synonym charset = "string \<Rightarrow> u8 list \<Rightarrow> uchar list option"

definition find_character :: "charset \<Rightarrow> (uchar \<Rightarrow> nat option) \<Rightarrow> string \<Rightarrow> u8 list \<Rightarrow> (nat \<times> nat) option" where
  "find_character decode width enc tail =
     find_map (\<lambda>len. map_option (\<lambda>t. (len, terminal_cell_count width t)) (decode enc (take len tail)))
       [1..<Suc (min 4 (length tail))]"

lemma find_character_len:
  "find_character decode width enc tail = Some (len, cells) \<Longrightarrow> 1 \<le> len \<and> len \<le> 4 \<and> len \<le> length tail"
  unfolding find_character_def by (drule find_map_SomeD) auto

text \<open>The loop over the characters of the line; it returns the start and width of the last one.\<close>

function last_character ::
  "charset \<Rightarrow> (uchar \<Rightarrow> nat option) \<Rightarrow> string \<Rightarrow> u8 list \<Rightarrow> nat \<Rightarrow> nat \<Rightarrow> nat \<Rightarrow> nat \<times> nat" where
  "last_character decode width enc ln index start w =
     (if index < length ln then
        let (len, cells) = (case find_character decode width enc (drop index ln) of
                              Some r \<Rightarrow> r | None \<Rightarrow> (1, 1))
        in last_character decode width enc ln (index + len) index cells
      else (start, w))"
  by pat_completeness auto
termination
  by (relation "measure (\<lambda>(_, _, _, ln, index, _, _). length ln - index)")
    (auto split: option.splits dest!: find_character_len)

declare last_character.simps [simp del]

text \<open>\<open>backspace\<close> returns the new state and the bytes it appends to \<open>echo\<close>.\<close>

definition backspace ::
  "charset \<Rightarrow> (uchar \<Rightarrow> nat option) \<Rightarrow> TelnetSessionConfig \<Rightarrow> bool \<Rightarrow> TelnetInputState
    \<Rightarrow> TelnetInputState \<times> u8 list" where
  "backspace decode width config echo_on self =
     (if input_line self = [] then (self, [])
      else
        let (start, w) = last_character decode width (encoding config) (input_line self) 0 0 1
        in (self\<lparr>input_line := take start (input_line self)\<rparr>,
            if echo_on then concat (replicate w [0x08, 0x20, 0x08]) else []))"

definition DELETE_KEY :: "u8 list" where
  "DELETE_KEY = [0x1b, 0x5b, 0x33, 0x7e]"

text \<open>One iteration of the loop of \<open>process\<close> at a byte and the bytes after it: the bytes left, the
  state, and what the iteration appends to \<open>send\<close> and to \<open>echo\<close>.\<close>

definition input_step ::
  "charset \<Rightarrow> (uchar \<Rightarrow> nat option) \<Rightarrow> TelnetSessionConfig \<Rightarrow> bool \<Rightarrow> bool \<Rightarrow> u8 \<Rightarrow> u8 list \<Rightarrow> TelnetInputState
    \<Rightarrow> u8 list \<times> TelnetInputState \<times> u8 list \<times> u8 list" where
  "input_step decode width config line_edit echo_on byte rest self =
     (if line_edit \<and> input_escape self = Ground \<and> take 4 (byte # rest) = DELETE_KEY then
        let (self', echo) = backspace decode width config echo_on self
        in (drop 3 rest, self', [], echo)
      else
        let (consumed, state) = escape_consume (input_escape self) byte;
            self = self\<lparr>input_escape := state\<rparr>
        in
        if consumed then (rest, self, [byte], [])
        else if byte = 0x0d \<or> byte = 0x0a then
          (if byte = 0x0d \<and> take 1 rest = [0x0a] then drop 1 rest else rest,
           if line_edit then self\<lparr>input_line := []\<rparr> else self,
           (if line_edit then input_line self else []) @ enter_bytes (enter_mode config),
           if echo_on then [0x0d, 0x0a] else [])
        else if (byte = 0x08 \<or> byte = 0x7f) \<and> line_edit then
          let (self', echo) = backspace decode width config echo_on self
          in (rest, self', [], echo)
        else if byte \<le> 0x1f \<or> byte = 0x7f then
          (rest, self, [byte], if echo_on \<and> byte = 0x09 then [byte] else [])
        else
          (rest,
           if line_edit then self\<lparr>input_line := input_line self @ [byte]\<rparr> else self,
           if line_edit then [] else [byte],
           if echo_on then [byte] else []))"

lemma input_step_rest: "input_step decode width config line_edit echo_on byte rest self = (rest', r) \<Longrightarrow>
    length rest' \<le> length rest"
  by (auto simp: input_step_def Let_def case_prod_beta split: if_splits)

function process_loop ::
  "charset \<Rightarrow> (uchar \<Rightarrow> nat option) \<Rightarrow> TelnetSessionConfig \<Rightarrow> bool \<Rightarrow> bool \<Rightarrow> u8 list \<Rightarrow> TelnetInputState
    \<Rightarrow> u8 list \<Rightarrow> u8 list \<Rightarrow> TelnetInputState \<times> u8 list \<times> u8 list" where
  "process_loop decode width config line_edit echo_on [] self send echo = (self, send, echo)"
| "process_loop decode width config line_edit echo_on (byte # rest) self send echo =
     (let (rest', self', s, e) = input_step decode width config line_edit echo_on byte rest self
      in process_loop decode width config line_edit echo_on rest' self' (send @ s) (echo @ e))"
  by pat_completeness auto
termination
  by (relation "measure (\<lambda>(_, _, _, _, _, data, _, _, _). length data)")
    (auto simp: less_Suc_eq_le intro: input_step_rest sym)

definition process_input ::
  "charset \<Rightarrow> (uchar \<Rightarrow> nat option) \<Rightarrow> TelnetSessionConfig \<Rightarrow> bool \<Rightarrow> bool \<Rightarrow> TelnetInputState \<Rightarrow> u8 list
    \<Rightarrow> TelnetInputState \<times> u8 list \<times> u8 list" where
  "process_input decode width config line_edit echo_on self data =
     (let (self', send, echo) = process_loop decode width config line_edit echo_on data self [] []
      in (self', escape_telnet_application_data send (raw_tcp config), echo))"

definition prepare ::
  "charset \<Rightarrow> (uchar \<Rightarrow> nat option) \<Rightarrow> TelnetSessionConfig \<Rightarrow> TelnetInputState \<Rightarrow> u8 list
    \<Rightarrow> TelnetInputState \<times> u8 list \<times> u8 list" where
  "prepare decode width config self data =
     process_input decode width config (local_line_edit config) (local_echo config) self data"

definition input_default :: TelnetInputState where
  "input_default = \<lparr>input_line = [], input_escape = Ground\<rparr>"

definition normalize_telnet_input ::
  "charset \<Rightarrow> (uchar \<Rightarrow> nat option) \<Rightarrow> u8 list \<Rightarrow> TelnetSessionConfig \<Rightarrow> u8 list" where
  "normalize_telnet_input decode width data config =
     fst (snd (process_input decode width config False False input_default data))"

definition telnet_auto_login_line_bytes ::
  "charset \<Rightarrow> (uchar \<Rightarrow> nat option) \<Rightarrow> string \<Rightarrow> TelnetSessionConfig \<Rightarrow> u8 list" where
  "telnet_auto_login_line_bytes decode width value' config =
     normalize_telnet_input decode width (as_bytes value' @ [0x0d]) config"



section \<open>Escaping and stripping\<close>

lemma strip_Cons [simp]:
  "b \<noteq> IAC \<Longrightarrow> strip_telnet_commands (b # xs) =
     (b # fst (strip_telnet_commands xs), snd (strip_telnet_commands xs))"
  by (cases xs) (simp_all add: case_prod_beta)

lemma strip_IAC_IAC [simp]:
  "strip_telnet_commands (IAC # IAC # xs) =
     (IAC # fst (strip_telnet_commands xs), snd (strip_telnet_commands xs))"
  by (simp add: case_prod_beta)

lemma escape_simps [simp]:
  "escape_telnet_application_data [] raw = []"
  "escape_telnet_application_data data True = data"
  "escape_telnet_application_data (b # data) False =
     (if b = IAC then [IAC, IAC] else [b]) @ escape_telnet_application_data data False"
  "escape_telnet_application_data (xs @ ys) False =
     escape_telnet_application_data xs False @ escape_telnet_application_data ys False"
  by (simp_all add: escape_telnet_application_data_def)

lemma strip_escape_append:
  "strip_telnet_commands (escape_telnet_application_data data False @ rest) =
     (data @ fst (strip_telnet_commands rest), snd (strip_telnet_commands rest))"
  by (induction data) (simp_all add: case_prod_beta del: strip_telnet_commands.simps)

lemma unescape_Cons [simp]: "b \<noteq> IAC \<Longrightarrow> unescape_iac_iac (b # xs) = b # unescape_iac_iac xs"
  by (cases xs) simp_all

lemma unescape_escape: "unescape_iac_iac (escape_telnet_application_data data False) = data"
  by (induction data) simp_all

lemma length_escape: "length (escape_telnet_application_data data raw) = telnet_wire_size data raw"
  by (cases raw) (induction data; simp add: telnet_wire_size_def IAC_def)+

lemma length_unescape: "length (unescape_iac_iac data) \<le> length data"
  by (induction data rule: unescape_iac_iac.induct) auto

lemma iac_pair_Cons:
  "(\<exists>xs ys. b # c # rest = xs @ IAC # IAC # ys) \<longleftrightarrow>
   b = IAC \<and> c = IAC \<or> (\<exists>xs ys. c # rest = xs @ IAC # IAC # ys)"
  by (subst Cons_eq_append_conv) auto

lemma unescape_id_iff:
  "unescape_iac_iac data = data \<longleftrightarrow> \<not> (\<exists>xs ys. data = xs @ IAC # IAC # ys)"
proof (induction data rule: unescape_iac_iac.induct)
  case (3 b c rest)
  have "IAC # unescape_iac_iac rest \<noteq> IAC # IAC # rest"
    using length_unescape [of rest] by (auto dest: arg_cong [of _ _ length])
  with 3 show ?case unfolding iac_pair_Cons by (cases "b = IAC \<and> c = IAC") auto
qed (auto simp: Cons_eq_append_conv)

section \<open>Commands split across reads\<close>

text \<open>A block of received bytes in which no command is cut off at the end.\<close>

fun subnegotiation_ends :: "u8 list \<Rightarrow> bool" where
  "subnegotiation_ends [] = False"
| "subnegotiation_ends [b] = False"
| "subnegotiation_ends (b # c # rest) = (b = IAC \<and> c = SE \<or> subnegotiation_ends (c # rest))"

function telnet_complete :: "u8 list \<Rightarrow> bool" where
  "telnet_complete [] = True"
| "telnet_complete [b] = (b \<noteq> IAC)"
| "telnet_complete (b # command # rest) =
     (if b = IAC then
        if command = IAC then telnet_complete rest
        else if command = WILL \<or> command = WONT \<or> command = DO \<or> command = DONT then
          (case rest of [] \<Rightarrow> False | _ # rest' \<Rightarrow> telnet_complete rest')
        else if command = SB then
          subnegotiation_ends rest \<and> telnet_complete (skip_subnegotiation rest)
        else telnet_complete rest
      else telnet_complete (command # rest))"
  by pat_completeness auto
termination
  by (relation "measure length") (auto simp: le_imp_less_Suc length_skip_subnegotiation less_Suc_eq_le le_SucI)

lemma skip_subnegotiation_append:
  "subnegotiation_ends xs \<Longrightarrow> skip_subnegotiation (xs @ ys) = skip_subnegotiation xs @ ys"
  by (induction xs rule: subnegotiation_ends.induct) auto

lemma strip_append:
  "telnet_complete xs \<Longrightarrow> strip_telnet_commands (xs @ ys) =
     (fst (strip_telnet_commands xs) @ fst (strip_telnet_commands ys),
      snd (strip_telnet_commands xs) @ snd (strip_telnet_commands ys))"
proof (induction xs rule: telnet_complete.induct)
  case (3 b command rest)
  then show ?case
    by (auto simp: case_prod_beta skip_subnegotiation_append split: if_splits list.splits)
qed simp_all


section \<open>Window size\<close>

text \<open>The message of RFC 1073: the four size bytes with every 255 doubled.\<close>

definition rfc1073_naws :: "u16 \<Rightarrow> u16 \<Rightarrow> u8 list" where
  "rfc1073_naws cols rows =
     [IAC, SB, OPT_NAWS]
     @ escape_telnet_application_data
         [ucast (drop_bit 8 cols), ucast cols, ucast (drop_bit 8 rows), ucast rows] False
     @ [IAC, SE]"

lemma ucast_and_ff: "(ucast (w AND 0xff :: u16) :: u8) = ucast w"
proof -
  have "(0xff :: u16) = mask 8" by (simp add: mask_eq_exp_minus_1)
  show ?thesis
    unfolding \<open>0xff = mask 8\<close> by (intro bit_word_eqI) (auto simp: bit_simps)
qed


lemma naws_rfc1073_iff:
  assumes "\<not> raw_tcp config" "send_naws config"
  shows "maybe_build_naws cols rows config = Some (rfc1073_naws cols rows) \<longleftrightarrow>
    IAC \<notin> {ucast (drop_bit 8 cols), ucast cols, ucast (drop_bit 8 rows), ucast rows}"
  using assms by (auto simp: maybe_build_naws_def rfc1073_naws_def ucast_and_ff)


section \<open>Input processing\<close>

lemma process_loop_prefix:
  "process_loop decode width config line_edit echo_on data self (s0 @ send) (e0 @ echo) =
     (let (self', s, e) = process_loop decode width config line_edit echo_on data self send echo
      in (self', s0 @ s, e0 @ e))"
proof (induction decode width config line_edit echo_on data self send echo rule: process_loop.induct)
  case (2 decode width config line_edit echo_on byte rest self send echo)
  obtain rest' self' s e where
    "input_step decode width config line_edit echo_on byte rest self = (rest', self', s, e)"
    by (metis prod_cases4)
  with 2 show ?case by simp
qed simp

lemma process_loop_acc:
  "process_loop decode width config line_edit echo_on data self send echo =
     (let (self', s, e) = process_loop decode width config line_edit echo_on data self [] []
      in (self', send @ s, echo @ e))"
  using process_loop_prefix [of decode width config line_edit echo_on data self send "[]" echo "[]"]
  by (simp only: append_Nil2)

lemma last_character_bounds:
  "index < length ln \<Longrightarrow> last_character decode width enc ln index start w = (p, w') \<Longrightarrow>
     index \<le> p \<and> p < length ln \<and> length ln \<le> p + 4"
proof (induction decode width enc ln index start w rule: last_character.induct)
  case (1 decode width enc ln index start w)
  obtain len cells where fc: "(case find_character decode width enc (drop index ln) of
      Some r \<Rightarrow> r | None \<Rightarrow> (1, 1)) = (len, cells)" by fastforce
  have len: "1 \<le> len \<and> len \<le> 4 \<and> index + len \<le> length ln"
    using fc "1.prems"(1) find_character_len [of decode width enc "drop index ln" len cells]
    by (auto split: option.splits)
  from "1.prems" fc have eq: "last_character decode width enc ln (index + len) index cells = (p, w')"
    by (simp add: last_character.simps [of decode width enc ln index])
  show ?case
  proof (cases "index + len < length ln")
    case True
    with "1.IH" [OF "1.prems"(1) refl fc [symmetric] True eq] show ?thesis by simp
  next
    case False
    with eq have "p = index" by (simp add: last_character.simps)
    with False len "1.prems"(1) show ?thesis by linarith
  qed
qed


lemma backspace_shrinks:
  assumes "input_line self \<noteq> []"
  shows "\<exists>n. 1 \<le> n \<and> n \<le> 4 \<and>
    input_line (fst (backspace decode width config echo_on self)) =
      take (length (input_line self) - n) (input_line self)"
proof -
  let ?ln = "input_line self"
  obtain p w where lc: "last_character decode width (encoding config) ?ln 0 0 1 = (p, w)" by fastforce
  have "p < length ?ln" "length ?ln \<le> p + 4"
    using last_character_bounds [OF _ lc] assms by auto
  then show ?thesis
    using assms lc by (intro exI [of _ "length ?ln - p"]) (auto simp: backspace_def)
qed

lemma input_step_append:
  assumes "rest = [] \<and> byte = 0x0d \<longrightarrow> take 1 b \<noteq> [0x0a]"
  shows "input_step decode width config False echo_on byte (rest @ b) self =
    (let (rest', r) = input_step decode width config False echo_on byte rest self in (rest' @ b, r))"
  using assms by (cases rest) (auto simp: input_step_def Let_def case_prod_beta)

lemma input_step_suffix:
  "input_step decode width config False echo_on byte rest self = (rest', r) \<Longrightarrow>
   rest' = rest \<or> rest' = tl rest"
  by (auto simp: input_step_def Let_def case_prod_beta drop_Suc split: if_splits)

lemma process_loop_append:
  assumes "\<not> (a \<noteq> [] \<and> last a = 0x0d \<and> take 1 b = [0x0a])"
  shows "process_loop decode width config False echo_on (a @ b) self send echo =
    (let (self', s, e) = process_loop decode width config False echo_on a self send echo
     in process_loop decode width config False echo_on b self' s e)"
  using assms
proof (induction "length a" arbitrary: a self send echo rule: less_induct)
  case less
  show ?case
  proof (cases a)
    case (Cons byte rest)
    obtain rest' self' s e where step:
      "input_step decode width config False echo_on byte rest self = (rest', self', s, e)"
      by (metis prod_cases4)
    have step': "input_step decode width config False echo_on byte (rest @ b) self = (rest' @ b, self', s, e)"
      using input_step_append [of rest byte b decode width config echo_on self] less.prems step Cons by auto
    have "length rest' < length a" using input_step_rest [OF step] Cons by simp
    moreover have "\<not> (rest' \<noteq> [] \<and> last rest' = 0x0d \<and> take 1 b = [0x0a])"
      using input_step_suffix [OF step] less.prems Cons by (cases rest) (auto simp: last_tl)
    ultimately show ?thesis
      using less.hyps [of rest'] step step' Cons by simp
  qed simp
qed

lemma escape_consume_ground: "byte \<noteq> 0x1b \<Longrightarrow> escape_consume Ground byte = (False, Ground)"
  by (simp add: escape_consume_def)

lemma input_step_verbatim:
  "byte \<noteq> 0x0d \<Longrightarrow> byte \<noteq> 0x0a \<Longrightarrow>
   \<exists>e. input_step decode width config False echo_on byte rest self =
     (rest, self\<lparr>input_escape := snd (escape_consume (input_escape self) byte)\<rparr>, [byte], e)"
  by (cases "escape_consume (input_escape self) byte") (simp add: input_step_def Let_def)

text \<open>Without line editing every byte but the line ends goes out unchanged.\<close>

lemma process_loop_verbatim:
  assumes "0x0d \<notin> set data" "0x0a \<notin> set data"
  shows "\<exists>self' e. process_loop decode width config False echo_on data self send echo =
      (self', send @ data, e) \<and> (input_escape self = Ground \<and> 0x1b \<notin> set data \<longrightarrow> self' = self)"
  using assms
proof (induction data arbitrary: self send echo)
  case (Cons byte rest)
  define self' where "self' = self\<lparr>input_escape := snd (escape_consume (input_escape self) byte)\<rparr>"
  obtain e where step: "input_step decode width config False echo_on byte rest self = (rest, self', [byte], e)"
    using input_step_verbatim [of byte] Cons.prems unfolding self'_def by fastforce
  have keep: "input_escape self = Ground \<and> byte \<noteq> 0x1b \<longrightarrow> self' = self"
    by (auto simp: self'_def escape_consume_ground)
  show ?case
    using Cons.IH [of self' "send @ [byte]" "echo @ e"] Cons.prems step keep by auto
qed simp

lemma auto_login_send:
  assumes "0x0d \<notin> set (as_bytes v)" "0x0a \<notin> set (as_bytes v)" "0x1b \<notin> set (as_bytes v)"
  shows "telnet_auto_login_line_bytes decode width v config =
    escape_telnet_application_data (as_bytes v @ enter_bytes (enter_mode config)) (raw_tcp config)"
proof -
  obtain e where loop: "process_loop decode width config False False (as_bytes v) input_default [] [] =
      (input_default, as_bytes v, e)"
    using process_loop_verbatim [of "as_bytes v" decode width config False input_default "[]" "[]"] assms
    by (auto simp: input_default_def)
  have "input_step decode width config False False 0x0d [] input_default =
      ([], input_default, enter_bytes (enter_mode config), [])"
    by (simp add: input_step_def Let_def escape_consume_def input_default_def)
  with loop show ?thesis
    by (simp add: telnet_auto_login_line_bytes_def normalize_telnet_input_def process_input_def
        process_loop_append)
qed

text \<open>With line editing, printable bytes wait in the line.\<close>

definition printable :: "u8 \<Rightarrow> bool" where
  "printable b \<longleftrightarrow> 0x20 \<le> b \<and> b \<noteq> 0x7f"

lemma process_loop_edit:
  assumes "list_all printable data" "input_escape self = Ground"
  shows "process_loop decode width config True echo_on (data @ tail) self send echo =
    process_loop decode width config True echo_on tail
      (self\<lparr>input_line := input_line self @ data\<rparr>) send (echo @ (if echo_on then data else []))"
  using assms
proof (induction data arbitrary: self echo)
  case (Cons byte rest)
  have b: "0x20 \<le> byte" "byte \<noteq> 0x7f" using Cons.prems by (auto simp: printable_def)
  then have "\<not> byte \<le> 0x1f" "byte \<noteq> 0x1b" "byte \<noteq> 0x0d" "byte \<noteq> 0x0a" "byte \<noteq> 0x08"
    by (auto simp: word_le_nat_alt)
  with b Cons.prems have "input_step decode width config True echo_on byte (rest @ tail) self =
      (rest @ tail, self\<lparr>input_line := input_line self @ [byte]\<rparr>, [], if echo_on then [byte] else [])"
    by (simp add: input_step_def Let_def DELETE_KEY_def escape_consume_ground)
  then show ?case using Cons by simp
qed simp

lemma process_loop_edit_enter:
  assumes "list_all printable data" "input_escape self = Ground"
  shows "process_loop decode width config True echo_on (data @ [0x0d]) self [] [] =
    (self\<lparr>input_line := []\<rparr>, input_line self @ data @ enter_bytes (enter_mode config),
     if echo_on then data @ [0x0d, 0x0a] else [])"
proof -
  have "input_step decode width config True echo_on 0x0d [] (self\<lparr>input_line := input_line self @ data\<rparr>) =
      ([], self\<lparr>input_line := []\<rparr>, input_line self @ data @ enter_bytes (enter_mode config),
       if echo_on then [0x0d, 0x0a] else [])"
    using assms(2) by (cases self) (simp add: input_step_def Let_def DELETE_KEY_def escape_consume_ground)
  then show ?thesis by (simp add: process_loop_edit [OF assms])
qed

text \<open>The auto-login line of a value without line ends and escapes reaches the peer as the
  value and the configured line end.\<close>

lemma telnet_auto_login_line:
  assumes "0x0d \<notin> set (as_bytes v)" "0x0a \<notin> set (as_bytes v)" "0x1b \<notin> set (as_bytes v)"
    and "\<not> raw_tcp config"
  shows "strip_telnet_commands (telnet_auto_login_line_bytes decode width v config) =
    (as_bytes v @ enter_bytes (enter_mode config), [])"
  using strip_escape_append [of "as_bytes v @ enter_bytes (enter_mode config)" "[]"] assms
  by (simp add: auto_login_send)

definition example_config :: TelnetSessionConfig where
  "example_config = \<lparr>raw_tcp = False, enter_mode = Crlf, local_echo = True, local_line_edit = True,
     send_naws = True, send_sga = True, encoding = ''utf-8''\<rparr>"

lemma strip_plain:
  "b \<noteq> IAC \<Longrightarrow> strip_telnet_commands (b # ys) = (b # fst (strip_telnet_commands ys), snd (strip_telnet_commands ys))"
  by (cases ys) (simp_all add: case_prod_beta)


section \<open>Properties\<close>

text \<open>C10. What a Telnet peer reads is what was typed: stripping the commands from escaped
  application data, with anything after it, yields the data, and no negotiation is
  triggered by it. The writer accounts for exactly the bytes that go out.\<close>

theorem telnet_transparent:
  "strip_telnet_commands (escape_telnet_application_data data False @ rest) =
     (data @ fst (strip_telnet_commands rest), snd (strip_telnet_commands rest)) \<and>
   length (escape_telnet_application_data data raw) = telnet_wire_size data raw"
  by (simp add: strip_escape_append length_escape)

text \<open>A read that cuts off no command can be stripped on its own: visible bytes and
  negotiations of two consecutive reads are those of the whole stream.\<close>

theorem telnet_reads_compose:
  assumes "telnet_complete xs"
  shows "strip_telnet_commands (xs @ ys) =
     (fst (strip_telnet_commands xs) @ fst (strip_telnet_commands ys),
      snd (strip_telnet_commands xs) @ snd (strip_telnet_commands ys))"
  by (rule strip_append [OF assms])

theorem telnet_reads_compose_witness:
  "strip_telnet_commands ([IAC, WILL, 1] @ [0x41]) = ([0x41], [(WILL, 1)])"
  using telnet_reads_compose [of "[IAC, WILL, 1]" "[0x41]"] by (simp add: telnet_bytes)

text \<open>C39. The reader strips each read on its own, and a negotiation cut in two by a read is lost: the whole
  stream has it between the negotiations of the two reads, neither read has it, and its option byte shows
  up as output.\<close>

theorem telnet_split_command_lost:
  assumes "telnet_complete xs" "command \<in> {WILL, WONT, DO, DONT}" "option \<noteq> IAC"
  shows "strip_telnet_commands (xs @ [IAC, command] @ option # ys) =
      (fst (strip_telnet_commands xs) @ fst (strip_telnet_commands ys),
       snd (strip_telnet_commands xs) @ (command, option) # snd (strip_telnet_commands ys)) \<and>
    strip_telnet_commands (xs @ [IAC, command]) = strip_telnet_commands xs \<and>
    strip_telnet_commands (option # ys) = (option # fst (strip_telnet_commands ys), snd (strip_telnet_commands ys))"
proof -
  have "command \<noteq> IAC" using assms(2) by (auto simp: telnet_bytes)
  then show ?thesis
    using assms(2,3) strip_append [OF assms(1), of "IAC # command # option # ys"]
      strip_append [OF assms(1), of "[IAC, command]"] strip_plain [OF assms(3), of ys]
    by (auto simp: case_prod_beta)
qed

theorem telnet_split_command_lost_witness:
  "strip_telnet_commands ([0x41] @ [IAC, WILL] @ 3 # [0x42]) = ([0x41, 0x42], [(WILL, 3)]) \<and>
   strip_telnet_commands ([0x41] @ [IAC, WILL]) = ([0x41], []) \<and> strip_telnet_commands [3, 0x42] = ([3, 0x42], [])"
  using telnet_split_command_lost [of "[0x41]" WILL 3 "[0x42]"] by (simp add: telnet_bytes)

text \<open>C40. The window size message is the one of RFC 1073 exactly when no byte of the size is
  255, which the RFC doubles and the code does not.\<close>

theorem naws_rfc1073:
  assumes "\<not> raw_tcp config" "send_naws config"
  shows "maybe_build_naws cols rows config = Some (rfc1073_naws cols rows) \<longleftrightarrow>
    IAC \<notin> {ucast (drop_bit 8 cols), ucast cols, ucast (drop_bit 8 rows), ucast rows}"
  by (rule naws_rfc1073_iff [OF assms])

theorem naws_rfc1073_witness:
  "maybe_build_naws 255 24 example_config \<noteq> Some (rfc1073_naws 255 24)"
  using naws_rfc1073 [of example_config 255 24] by (simp add: example_config_def IAC_def)

text \<open>Without local editing, input may be split between writes anywhere but inside a
  carriage return with its line feed: state, sent bytes and echo are the same.\<close>

theorem telnet_input_chunks:
  assumes "\<not> (a \<noteq> [] \<and> last a = 0x0d \<and> take 1 b = [0x0a])"
  shows "process_input decode width config False echo_on self (a @ b) =
    (let (self', send, echo) = process_input decode width config False echo_on self a;
         (self'', send', echo') = process_input decode width config False echo_on self' b
     in (self'', send @ send', echo @ echo'))"
proof -
  obtain st s e where a: "process_loop decode width config False echo_on a self [] [] = (st, s, e)"
    by (metis prod_cases3)
  obtain st' s' e' where b: "process_loop decode width config False echo_on b st [] [] = (st', s', e')"
    by (metis prod_cases3)
  have "process_loop decode width config False echo_on (a @ b) self [] [] = (st', s @ s', e @ e')"
    using process_loop_append [OF assms] a process_loop_acc [of _ _ _ _ _ b st s e] b by simp
  with a b show ?thesis
    by (cases "raw_tcp config") (simp_all add: process_input_def)
qed

theorem telnet_input_chunks_witness:
  "process_input (\<lambda>_ _. None) (\<lambda>_. Some 1) example_config False True input_default ([0x61, 0x0d] @ [0x62]) =
    (let (self', send, echo) = process_input (\<lambda>_ _. None) (\<lambda>_. Some 1) example_config False True input_default [0x61, 0x0d];
         (self'', send', echo') = process_input (\<lambda>_ _. None) (\<lambda>_. Some 1) example_config False True self' [0x62]
     in (self'', send @ send', echo @ echo'))"
  by (rule telnet_input_chunks) simp

text \<open>Local line editing sends nothing before Enter: printable bytes wait in the line, and
  the carriage return sends the whole line once, followed by the configured line end, which
  is what the peer reads.\<close>

theorem telnet_line_edit:
  assumes "list_all printable data" "input_escape self = Ground"
    and "local_line_edit config" "\<not> raw_tcp config"
  shows "fst (snd (prepare decode width config self data)) = [] \<and>
    (let (self', send, echo) = prepare decode width config self (data @ [0x0d]) in
      input_line self' = [] \<and>
      strip_telnet_commands send = (input_line self @ data @ enter_bytes (enter_mode config), []))"
  using process_loop_edit [OF assms(1,2), of decode width config "local_echo config" "[]" "[]" "[]"]
    process_loop_edit_enter [OF assms(1,2), of decode width config "local_echo config"]
    strip_escape_append [of "input_line self @ data @ enter_bytes (enter_mode config)" "[]"] assms(3,4)
  by (simp add: prepare_def process_input_def)

theorem telnet_line_edit_witness:
  "let (self', send, echo) = prepare (\<lambda>_ _. None) (\<lambda>_. Some 1) example_config input_default ([0x6c, 0x73, 0xff] @ [0x0d])
   in strip_telnet_commands send = ([0x6c, 0x73, 0xff, 0x0d, 0x0a], [])"
  using telnet_line_edit [of "[0x6c, 0x73, 0xff]" input_default example_config "\<lambda>_ _. None" "\<lambda>_. Some 1"]
  by (simp add: printable_def input_default_def example_config_def enter_bytes_def case_prod_beta)

end
