(* ===== verification/Xymodem.thy ===== *)
theory Xymodem
  imports Prelude
begin

unbundle bit_operations_syntax

text \<open>
  The X/YMODEM upload (\<open>xymodem/mod.rs\<close>): the frames with their checksums and the sender, a
  state machine driven by received bytes, a clock and a cancel request. A file's reader is
  the list of bytes it still yields; \<open>read_exact\<close> fails when fewer are left. Durations are
  natural numbers, the sizes and offsets of type \<open>u64\<close> and \<open>usize\<close> too, with the checks of the
  source where it has them; indexing out of range, slicing out of range and a negative
  difference are panics, which the invariant rules out. The Unicode lower-casing of file
  names is the parameter \<open>to_lowercase\<close>.
\<close>


section \<open>Frames\<close>

definition SOH :: u8 where "SOH = 0x01"
definition STX :: u8 where "STX = 0x02"
definition EOT :: u8 where "EOT = 0x04"
definition ACK :: u8 where "ACK = 0x06"
definition NAK :: u8 where "NAK = 0x15"
definition CAN :: u8 where "CAN = 0x18"
definition CRC_REQUEST :: u8 where "CRC_REQUEST = 0x43"

lemmas xymodem_bytes = SOH_def STX_def EOT_def ACK_def NAK_def CAN_def CRC_REQUEST_def

definition crc16_bit :: "u16 \<Rightarrow> u16" where
  "crc16_bit crc = (if crc AND 0x8000 \<noteq> 0 then push_bit 1 crc XOR 0x1021 else push_bit 1 crc)"

definition crc16_byte :: "u8 \<Rightarrow> u16 \<Rightarrow> u16" where
  "crc16_byte byte crc = (crc16_bit ^^ 8) (crc XOR push_bit 8 (ucast byte))"

definition crc16 :: "u8 list \<Rightarrow> u16" where
  "crc16 bytes = fold crc16_byte bytes 0"

definition packet :: "u8 \<Rightarrow> u8 list \<Rightarrow> bool \<Rightarrow> u8 list" where
  "packet sequence data crc =
     [if length data = 1024 then STX else SOH, sequence, NOT sequence] @ data
       @ (if crc then to_be_bytes (crc16 data) else [fold (\<lambda>byte sum. sum + byte) data 0])"


section \<open>The sender\<close>

datatype XymodemProtocol = Xmodem | Ymodem

record XymodemOptions =
  response_timeout :: nat
  handshake_timeout :: nat
  max_retries :: nat

datatype XymodemError =
    InvalidOptions | SingleFileRequired | NoFiles | InvalidFilename | OpenFailed | ReadFailed
  | WriteFailed | SizeOverflow | TimedOut | RetryLimit | Cancelled | RemoteCancelled
  | StreamingUnsupported

record XymodemFile =
  xf_name :: string
  xf_size :: nat
  xf_reader :: "u8 list"

record XymodemProgress =
  file_name :: string
  bytes_transferred :: nat
  progress_total :: nat
  files_completed :: nat
  files_total :: nat

datatype XymodemAction = Send "u8 list" | Progress XymodemProgress | Finished "XymodemError + unit"

datatype Stage = Start | HeaderAck | DataStart | DataAck | EotAck | BatchAck | Done

record XymodemSender =
  protocol :: XymodemProtocol
  options :: XymodemOptions
  files :: "XymodemFile list"
  file_index :: nat
  offset :: nat
  total_bytes :: nat
  accepted_bytes :: nat
  sequence :: u8
  pending_bytes :: nat
  stage :: Stage
  crc :: bool
  last_packet :: "u8 list"
  retries :: nat
  deadline :: nat
  last_can :: bool
  initial_progress_emitted :: bool

text \<open>The loop over the files in \<open>new\<close>: names seen so far and the total.\<close>

fun check_files ::
  "(string \<Rightarrow> string) \<Rightarrow> XymodemProtocol \<Rightarrow> XymodemFile list \<Rightarrow> string list \<Rightarrow> nat \<Rightarrow> XymodemError + nat" where
  "check_files to_lowercase proto [] names tot = Inr tot"
| "check_files to_lowercase proto (file # rest) names tot =
     (let name = xf_name file in
      if proto = Ymodem \<and>
         (name = [] \<or> CHR 0x00 \<in> set name \<or> CHR ''/'' \<in> set name \<or> CHR 0x5C \<in> set name \<or>
          128 < length name + length (dec_string (xf_size file)) + 2 \<or>
          to_lowercase name \<in> set names)
      then Inl InvalidFilename
      else if 2 ^ 64 \<le> tot + xf_size file then Inl SizeOverflow
      else check_files to_lowercase proto rest (to_lowercase name # names) (tot + xf_size file))"

definition sender_new ::
  "(string \<Rightarrow> string) \<Rightarrow> XymodemProtocol \<Rightarrow> XymodemFile list \<Rightarrow> XymodemOptions \<Rightarrow> XymodemError + XymodemSender" where
  "sender_new to_lowercase proto fs opts =
     (if fs = [] then Inl NoFiles
      else if proto = Xmodem \<and> length fs \<noteq> 1 then Inl SingleFileRequired
      else if response_timeout opts = 0 \<or> handshake_timeout opts = 0 \<or> max_retries opts = 0
      then Inl InvalidOptions
      else and_then (check_files to_lowercase proto fs [] 0) (\<lambda>tot. Inr
        \<lparr>protocol = proto, options = opts, files = fs, file_index = 0, offset = 0, total_bytes = tot,
         accepted_bytes = 0, sequence = 1, pending_bytes = 0, stage = Start, crc = False,
         last_packet = [], retries = 0, deadline = handshake_timeout opts, last_can = False,
         initial_progress_emitted = False\<rparr>))"

definition is_done :: "XymodemSender \<Rightarrow> bool" where
  "is_done s \<longleftrightarrow> stage s = Done"

definition progress :: "XymodemSender \<Rightarrow> XymodemProgress" where
  "progress s =
     \<lparr>file_name = (if file_index s < length (files s) then xf_name (files s ! file_index s)
                   else if files s \<noteq> [] then xf_name (last (files s)) else []),
      bytes_transferred = accepted_bytes s, progress_total = total_bytes s,
      files_completed = file_index s, files_total = length (files s)\<rparr>"

definition initial_progress :: "XymodemSender \<Rightarrow> XymodemSender \<times> XymodemAction list" where
  "initial_progress s =
     (if initial_progress_emitted s then (s, [])
      else let s = s\<lparr>initial_progress_emitted := True\<rparr> in (s, [Progress (progress s)]))"

definition send_packet :: "u8 list \<Rightarrow> nat \<Rightarrow> XymodemSender \<Rightarrow> XymodemSender \<times> XymodemAction" where
  "send_packet pkt now s =
     (s\<lparr>last_packet := pkt, deadline := now + response_timeout (options s)\<rparr>, Send pkt)"

definition sender_fail :: "XymodemError \<Rightarrow> XymodemSender \<Rightarrow> XymodemSender \<times> XymodemAction list" where
  "sender_fail error s =
     (if is_done s then (s, [])
      else (s\<lparr>stage := Done, last_packet := []\<rparr>, [Send (replicate 8 CAN), Finished (Inl error)]))"

definition sender_retry :: "nat \<Rightarrow> XymodemError \<Rightarrow> XymodemSender \<Rightarrow> XymodemSender \<times> XymodemAction list" where
  "sender_retry now error s =
     (if max_retries (options s) \<le> retries s then sender_fail error s
      else
        let s = s\<lparr>retries := retries s + 1,
                  deadline := now + (if stage s = Start \<or> stage s = DataStart
                                     then handshake_timeout (options s) else response_timeout (options s))\<rparr>
        in (s, if last_packet s = [] then [] else [Send (last_packet s)]))"

definition next_data :: "nat \<Rightarrow> XymodemSender \<Rightarrow> panic + XymodemSender \<times> XymodemAction list" where
  "next_data now s =
     (if length (files s) \<le> file_index s then Inl OutOfBounds
      else let file = files s ! file_index s in
      if xf_size file < offset s then Inl Overflow
      else let remaining = xf_size file - offset s in
      if remaining = 0 then
        let (s, action) = send_packet [EOT] now (s\<lparr>stage := EotAck\<rparr>) in Inr (s, [action])
      else
        let block_size = (if protocol s = Ymodem \<and> 128 < remaining then 1024 else 128);
            size = min remaining block_size
        in
        if length (xf_reader file) < size then Inr (sender_fail ReadFailed s)
        else
          let data = take size (xf_reader file) @ replicate (block_size - size) 0x1a;
              s = s\<lparr>files := (files s)[file_index s := file\<lparr>xf_reader := drop size (xf_reader file)\<rparr>],
                    pending_bytes := size, stage := DataAck\<rparr>;
              (s, action) = send_packet (packet (sequence s) data (crc s)) now s
          in Inr (s, [action]))"

text \<open>The block-zero header; both slices of the source panic when they pass the 128 bytes.\<close>

definition copy_at :: "nat \<Rightarrow> 'a list \<Rightarrow> 'a list \<Rightarrow> 'a list" where
  "copy_at i xs v = take i v @ xs @ drop (i + length xs) v"

definition file_header :: "XymodemFile \<Rightarrow> panic + u8 list" where
  "file_header file =
     (let size = dec_string (xf_size file); start = length (xf_name file) + 1 in
      if 128 < length (xf_name file) \<or> 128 < start + length size then Inl OutOfBounds
      else Inr (copy_at start (as_bytes size) (copy_at 0 (as_bytes (xf_name file)) (replicate 128 0))))"

text \<open>The \<open>Start\<close> arm of \<open>feed\<close> after the request byte.\<close>

definition feed_start :: "u8 \<Rightarrow> nat \<Rightarrow> XymodemSender \<Rightarrow> panic + XymodemSender \<times> XymodemAction list" where
  "feed_start byte now s =
     (let s = s\<lparr>crc := (byte = CRC_REQUEST), retries := 0\<rparr> in
      if protocol s = Ymodem then
        and_then (if file_index s < length (files s)
                  then and_then (file_header (files s ! file_index s)) (\<lambda>h. Inr (h, s\<lparr>stage := HeaderAck\<rparr>))
                  else Inr (replicate 128 0, s\<lparr>stage := BatchAck\<rparr>)) (\<lambda>(header, s).
        let (s, action) = send_packet (packet 0 header (crc s)) now s in Inr (s, [action]))
      else next_data now s)"

text \<open>The arm for a repeated \<open>C\<close> before the first acknowledgement.\<close>

definition feed_repeat :: "nat \<Rightarrow> XymodemSender \<Rightarrow> panic + XymodemSender \<times> XymodemAction list" where
  "feed_repeat now s =
     (if crc s then Inr (sender_retry now RetryLimit s)
      else
        let s = s\<lparr>crc := True\<rparr>; body = butlast (last_packet s) in
        if length body < 3 then Inl OutOfBounds
        else Inr (sender_retry now RetryLimit (s\<lparr>last_packet := body @ to_be_bytes (crc16 (drop 3 body))\<rparr>)))"

definition feed_stage :: "u8 \<Rightarrow> nat \<Rightarrow> XymodemSender \<Rightarrow> panic + XymodemSender \<times> XymodemAction list" where
  "feed_stage byte now s =
     (case stage s of
        Start \<Rightarrow>
          if byte = CRC_REQUEST \<or> byte = NAK then feed_start byte now s
          else if byte = 0x47 then Inr (sender_fail StreamingUnsupported s)
          else Inr (s, [])
      | HeaderAck \<Rightarrow>
          if byte = ACK then
            Inr (s\<lparr>stage := DataStart, retries := 0, deadline := now + handshake_timeout (options s)\<rparr>, [])
          else if byte = NAK \<or> byte = CRC_REQUEST then Inr (sender_retry now RetryLimit s)
          else Inr (s, [])
      | DataStart \<Rightarrow>
          if byte = 0x47 then Inr (sender_fail StreamingUnsupported s)
          else if byte = CRC_REQUEST \<or> byte = NAK then
            next_data now (s\<lparr>crc := (byte = CRC_REQUEST), retries := 0\<rparr>)
          else Inr (s, [])
      | DataAck \<Rightarrow>
          if byte = ACK then
            let s = s\<lparr>offset := offset s + pending_bytes s,
                      accepted_bytes := accepted_bytes s + pending_bytes s,
                      sequence := sequence s + 1, retries := 0\<rparr>
            in and_then (next_data now s) (\<lambda>(s', actions). Inr (s', Progress (progress s) # actions))
          else if byte = NAK then Inr (sender_retry now RetryLimit s)
          else if byte = CRC_REQUEST \<and> offset s = 0 then feed_repeat now s
          else Inr (s, [])
      | EotAck \<Rightarrow>
          if byte = NAK then Inr (sender_retry now RetryLimit s)
          else if byte = ACK then
            let s = s\<lparr>file_index := file_index s + 1, offset := 0, sequence := 1, retries := 0,
                      last_packet := []\<rparr>
            in if protocol s = Xmodem
               then Inr (s\<lparr>stage := Done\<rparr>, [Progress (progress s), Finished (Inr ())])
               else Inr (s\<lparr>stage := Start, deadline := now + handshake_timeout (options s)\<rparr>,
                         [Progress (progress s)])
          else Inr (s, [])
      | BatchAck \<Rightarrow>
          if byte = ACK then Inr (s\<lparr>stage := Done\<rparr>, [Finished (Inr ())])
          else if byte = NAK \<or> byte = CRC_REQUEST then Inr (sender_retry now RetryLimit s)
          else Inr (s, [])
      | Done \<Rightarrow> Inr (s, []))"

definition feed_byte :: "u8 \<Rightarrow> nat \<Rightarrow> XymodemSender \<Rightarrow> panic + XymodemSender \<times> XymodemAction list" where
  "feed_byte byte now s =
     (if byte = CAN then
        let (s', actions) = (if last_can s then sender_fail RemoteCancelled s else (s, []))
        in Inr (s'\<lparr>last_can := True\<rparr>, actions)
      else feed_stage byte now (s\<lparr>last_can := False\<rparr>))"

fun feed_loop :: "u8 list \<Rightarrow> nat \<Rightarrow> XymodemSender \<Rightarrow> XymodemAction list
    \<Rightarrow> panic + XymodemSender \<times> XymodemAction list" where
  "feed_loop [] now s actions = Inr (s, actions)"
| "feed_loop (byte # rest) now s actions =
     (if is_done s then Inr (s, actions)
      else and_then (feed_byte byte now s) (\<lambda>(s', more). feed_loop rest now s' (actions @ more)))"

definition feed :: "u8 list \<Rightarrow> nat \<Rightarrow> XymodemSender \<Rightarrow> panic + XymodemSender \<times> XymodemAction list" where
  "feed input now s =
     (if is_done s then Inr (s, [])
      else let (s, actions) = initial_progress s in feed_loop input now s actions)"

definition tick :: "nat \<Rightarrow> XymodemSender \<Rightarrow> XymodemSender \<times> XymodemAction list" where
  "tick now s =
     (if is_done s then (s, [])
      else
        let (s, actions) = initial_progress s in
        if deadline s \<le> now then
          let (s, more) = sender_retry now TimedOut s in (s, actions @ more)
        else (s, actions))"

definition sender_cancel :: "XymodemSender \<Rightarrow> XymodemSender \<times> XymodemAction list" where
  "sender_cancel s = sender_fail Cancelled s"



section \<open>Checksums\<close>

lemma crc16_append: "crc16 (xs @ [b]) = crc16_byte b (crc16 xs)"
  by (simp add: crc16_def)

text \<open>A register whose top byte is zero moves up by a byte.\<close>

lemma crc16_bit_low:
  assumes "\<not> bit r 15"
  shows "crc16_bit r = push_bit 1 r"
proof -
  have "(0x8000 :: u16) = 2 ^ 15" by simp
  moreover have "r AND 2 ^ 15 = 0"
    using assms by (intro bit_word_eqI) (simp only: bit_and_iff bit_exp_iff bit_0_eq, auto)
  ultimately show ?thesis by (simp add: crc16_bit_def)
qed

lemma crc16_shift_low:
  fixes b :: u8
  assumes "k \<le> 8"
  shows "(crc16_bit ^^ k) (ucast b) = push_bit k (ucast b :: u16)"
  using assms
proof (induction k)
  case (Suc k)
  have "\<not> bit (push_bit k (ucast b :: u16)) 15"
    using Suc.prems by (auto simp: bit_simps dest: bit_imp_le_length)
  with Suc show ?case by (simp add: crc16_bit_low)
qed simp

lemma crc16_residue: "crc16 (data @ to_be_bytes (crc16 data)) = 0"
proof -
  define r where "r = crc16 data"
  define hi lo :: u8 where "hi = ucast (drop_bit 8 r)" and "lo = ucast r"
  have be: "to_be_bytes r = [hi, lo]"
    by (simp add: to_be_bytes_def hi_def lo_def upt_rec)
  have hi: "r XOR push_bit 8 (ucast hi) = ucast lo"
    unfolding hi_def lo_def by (intro bit_word_eqI) (auto simp: bit_simps)
  have "crc16_byte hi r = push_bit 8 (ucast lo)"
    unfolding crc16_byte_def hi by (rule crc16_shift_low) simp
  moreover have "crc16_byte lo (push_bit 8 (ucast lo)) = 0"
    using crc16_shift_low [of 8 0] by (simp add: crc16_byte_def)
  moreover have "crc16 (data @ [hi, lo]) = crc16_byte lo (crc16_byte hi r)"
    by (simp add: crc16_def r_def)
  ultimately show ?thesis
    unfolding r_def [symmetric] be by simp
qed



section \<open>The invariant of the sender\<close>

text \<open>
  The files the sender started with are \<open>fs\<close>. The block of a file at an offset: up to 1024
  bytes (128 in XMODEM, and for the last 128 bytes in YMODEM), filled with \<open>0x1a\<close>.
\<close>

definition block_len :: "XymodemProtocol \<Rightarrow> nat \<Rightarrow> nat" where
  "block_len proto remaining = (if proto = Ymodem \<and> 128 < remaining then 1024 else 128)"

definition block_at :: "XymodemProtocol \<Rightarrow> XymodemFile \<Rightarrow> nat \<Rightarrow> u8 list" where
  "block_at proto f off =
     (let n = min (xf_size f - off) (block_len proto (xf_size f - off))
      in take n (drop off (xf_reader f)) @ replicate (block_len proto (xf_size f - off) - n) 0x1a)"

definition full_block :: "XymodemProtocol \<Rightarrow> nat" where
  "full_block proto = (if proto = Ymodem then 1024 else 128)"

text \<open>Before the end of the file, offsets are whole blocks and the sequence number counts them.\<close>

definition numbered :: "XymodemSender \<Rightarrow> bool" where
  "numbered s \<longleftrightarrow> full_block (protocol s) dvd offset s \<and>
     sequence s = of_nat (offset s div full_block (protocol s)) + 1"

definition base_inv :: "XymodemFile list \<Rightarrow> XymodemSender \<Rightarrow> bool" where
  "base_inv fs s \<longleftrightarrow>
     fs \<noteq> [] \<and> (protocol s = Xmodem \<longrightarrow> length fs = 1) \<and>
     (protocol s = Ymodem \<longrightarrow>
        list_all (\<lambda>f. length (xf_name f) + length (dec_string (xf_size f)) + 2 \<le> 128) fs) \<and>
     map xf_name (files s) = map xf_name fs \<and> map xf_size (files s) = map xf_size fs \<and>
     total_bytes s = sum_list (map xf_size fs) \<and>
     retries s \<le> max_retries (options s) \<and> file_index s \<le> length fs"

definition live_inv :: "XymodemFile list \<Rightarrow> XymodemSender \<Rightarrow> bool" where
  "live_inv fs s \<longleftrightarrow>
     accepted_bytes s = sum_list (take (file_index s) (map xf_size fs)) + offset s \<and>
     drop (Suc (file_index s)) (files s) = drop (Suc (file_index s)) fs"

definition stage_inv :: "XymodemFile list \<Rightarrow> XymodemSender \<Rightarrow> bool" where
  "stage_inv fs s \<longleftrightarrow>
     (let i = file_index s in
      case stage s of
        Start \<Rightarrow> offset s = 0 \<and> sequence s = 1 \<and> last_packet s = [] \<and>
          (protocol s = Xmodem \<longrightarrow> i < length fs) \<and> (i < length fs \<longrightarrow> files s ! i = fs ! i)
      | HeaderAck \<Rightarrow> i < length fs \<and> offset s = 0 \<and> sequence s = 1 \<and> files s ! i = fs ! i \<and>
          protocol s = Ymodem
      | DataStart \<Rightarrow> i < length fs \<and> offset s = 0 \<and> sequence s = 1 \<and> files s ! i = fs ! i \<and>
          protocol s = Ymodem
      | DataAck \<Rightarrow> i < length fs \<and> offset s < xf_size (fs ! i) \<and> numbered s \<and>
          pending_bytes s =
            min (xf_size (fs ! i) - offset s) (block_len (protocol s) (xf_size (fs ! i) - offset s)) \<and>
          xf_reader (files s ! i) = drop (offset s + pending_bytes s) (xf_reader (fs ! i)) \<and>
          last_packet s = packet (sequence s) (block_at (protocol s) (fs ! i) (offset s)) (crc s)
      | EotAck \<Rightarrow> i < length fs \<and> offset s = xf_size (fs ! i) \<and> last_packet s = [EOT]
      | BatchAck \<Rightarrow> i = length fs \<and> offset s = 0 \<and> protocol s = Ymodem
      | Done \<Rightarrow> True)"

definition sender_inv :: "XymodemFile list \<Rightarrow> XymodemSender \<Rightarrow> bool" where
  "sender_inv fs s \<longleftrightarrow> base_inv fs s \<and> (stage s \<noteq> Done \<longrightarrow> live_inv fs s \<and> stage_inv fs s)"

text \<open>What \<open>next_data\<close> needs: the next byte to read is the one at the offset.\<close>

definition data_ready :: "XymodemFile list \<Rightarrow> XymodemSender \<Rightarrow> bool" where
  "data_ready fs s \<longleftrightarrow> base_inv fs s \<and> live_inv fs s \<and> stage s \<noteq> Done \<and>
     file_index s < length fs \<and> offset s \<le> xf_size (fs ! file_index s) \<and>
     xf_reader (files s ! file_index s) = drop (offset s) (xf_reader (fs ! file_index s)) \<and>
     (offset s < xf_size (fs ! file_index s) \<longrightarrow> numbered s)"

definition no_success :: "XymodemAction list \<Rightarrow> bool" where
  "no_success actions \<longleftrightarrow> Finished (Inr ()) \<notin> set actions"

text \<open>A successful end: all files and all bytes are accounted for.\<close>

definition complete :: "XymodemFile list \<Rightarrow> XymodemSender \<Rightarrow> bool" where
  "complete fs s \<longleftrightarrow> stage s = Done \<and> file_index s = length fs \<and> accepted_bytes s = total_bytes s"

definition step_ok :: "XymodemFile list \<Rightarrow> XymodemSender \<times> XymodemAction list \<Rightarrow> bool" where
  "step_ok fs r \<longleftrightarrow> sender_inv fs (fst r) \<and> (no_success (snd r) \<or> complete fs (fst r))"

lemma base_inv_length: "base_inv fs s \<Longrightarrow> length (files s) = length fs"
  unfolding base_inv_def by (metis length_map)

lemma base_inv_nth:
  assumes "base_inv fs s" "i < length fs"
  shows "xf_size (files s ! i) = xf_size (fs ! i)" "xf_name (files s ! i) = xf_name (fs ! i)"
proof -
  have "map xf_size (files s) ! i = map xf_size fs ! i" "map xf_name (files s) ! i = map xf_name fs ! i"
    using assms(1) by (simp_all add: base_inv_def)
  then show "xf_size (files s ! i) = xf_size (fs ! i)" "xf_name (files s ! i) = xf_name (fs ! i)"
    using assms base_inv_length [OF assms(1)] by simp_all
qed

lemma sender_fail_ok: "sender_inv fs s \<or> data_ready fs s \<Longrightarrow> step_ok fs (sender_fail e s)"
  by (auto simp: sender_fail_def step_ok_def sender_inv_def base_inv_def no_success_def data_ready_def is_done_def)

lemma sender_retry_ok: "sender_inv fs s \<Longrightarrow> step_ok fs (sender_retry now e s)"
proof (cases "max_retries (options s) \<le> retries s")
  case True
  then show "sender_inv fs s \<Longrightarrow> ?thesis" by (simp add: sender_retry_def sender_fail_ok)
next
  case False
  then show "sender_inv fs s \<Longrightarrow> ?thesis"
    by (cases "stage s") (auto simp: sender_retry_def step_ok_def sender_inv_def base_inv_def live_inv_def stage_inv_def
        numbered_def no_success_def Let_def)
qed

lemma next_data_ok:
  assumes "data_ready fs s"
  shows "\<exists>r. next_data now s = Inr r \<and> step_ok fs r \<and> no_success (snd r)"
proof -
  let ?i = "file_index s" and ?off = "offset s"
  let ?f = "files s ! ?i" and ?g = "fs ! ?i"
  note ready = assms [unfolded data_ready_def]
  have i: "?i < length fs" "length (files s) = length fs"
    using ready base_inv_length by blast+
  have size: "xf_size ?f = xf_size ?g" using base_inv_nth ready by blast
  have reader: "xf_reader ?f = drop ?off (xf_reader ?g)" using ready by blast
  consider (eot) "?off = xf_size ?g" | (short) "?off < xf_size ?g"
      "length (xf_reader ?f) < min (xf_size ?g - ?off) (block_len (protocol s) (xf_size ?g - ?off))"
    | (data) "?off < xf_size ?g"
      "min (xf_size ?g - ?off) (block_len (protocol s) (xf_size ?g - ?off)) \<le> length (xf_reader ?f)"
    using ready by linarith
  then show ?thesis
  proof cases
    case eot
    then have "next_data now s = Inr (s\<lparr>stage := EotAck, last_packet := [EOT],
        deadline := now + response_timeout (options s)\<rparr>, [Send [EOT]])"
      using i size by (simp add: next_data_def send_packet_def)
    then show ?thesis
      using ready eot
      by (simp add: step_ok_def sender_inv_def base_inv_def live_inv_def stage_inv_def no_success_def)
  next
    case short
    then have "next_data now s = Inr (sender_fail ReadFailed s)"
      using i size by (simp add: next_data_def Let_def block_len_def)
    then show ?thesis
      using sender_fail_ok [of fs s] assms by (auto simp: sender_fail_def no_success_def is_done_def)
  next
    case data
    define n where "n = min (xf_size ?g - ?off) (block_len (protocol s) (xf_size ?g - ?off))"
    define s1 where "s1 = s\<lparr>files := (files s)[?i := ?f\<lparr>xf_reader := drop n (xf_reader ?f)\<rparr>],
        pending_bytes := n, stage := DataAck,
        last_packet := packet (sequence s) (block_at (protocol s) ?g ?off) (crc s),
        deadline := now + response_timeout (options s)\<rparr>"
    have pkt: "take n (xf_reader ?f) @ replicate (block_len (protocol s) (xf_size ?g - ?off) - n) 0x1a =
        block_at (protocol s) ?g ?off"
      unfolding n_def reader block_at_def Let_def ..
    have "next_data now s = Inr (s1, [Send (last_packet s1)])"
      using data i size pkt unfolding n_def s1_def block_len_def [symmetric]
      by (auto simp: next_data_def Let_def send_packet_def min_le_iff_disj simp flip: block_len_def)
    moreover have "base_inv fs s1"
    proof -
      have "map xf_name (files s1) = map xf_name fs" "map xf_size (files s1) = map xf_size fs"
        using ready i base_inv_nth [of fs s ?i]
          list_update_id [of "map xf_name fs" ?i] list_update_id [of "map xf_size fs" ?i]
        by (simp_all add: s1_def base_inv_def map_update)
      then show ?thesis
        using ready by (simp add: s1_def base_inv_def)
    qed
    moreover have "live_inv fs s1"
      using ready by (simp add: s1_def live_inv_def)
    moreover have "stage_inv fs s1"
      using ready data i reader
      by (simp add: s1_def stage_inv_def numbered_def n_def add.commute)
    ultimately show ?thesis
      by (simp add: step_ok_def sender_inv_def no_success_def)
  qed
qed


lemma data_ready_start:
  assumes "sender_inv fs s" "stage s = Start \<and> protocol s = Xmodem \<or> stage s = DataStart"
  shows "data_ready fs (s\<lparr>crc := c, retries := 0\<rparr>)"
  using assms
  by (auto simp: sender_inv_def data_ready_def base_inv_def live_inv_def stage_inv_def numbered_def Let_def)

lemma file_header_ok:
  "length (xf_name f) + length (dec_string (xf_size f)) + 2 \<le> 128 \<Longrightarrow> \<exists>h. file_header f = Inr h"
  by (simp add: file_header_def Let_def)

lemma feed_start_ok:
  assumes inv: "sender_inv fs s" and st: "stage s = Start"
  shows "\<exists>r. feed_start byte now s = Inr r \<and> step_ok fs r"
proof (cases "protocol s = Ymodem")
  case True
  have base: "base_inv fs s" and live: "live_inv fs s" "stage_inv fs s"
    using inv st by (simp_all add: sender_inv_def)
  have len: "length (files s) = length fs" using base_inv_length [OF base] .
  show ?thesis
  proof (cases "file_index s < length fs")
    case i: True
    have "list_all (\<lambda>f. length (xf_name f) + length (dec_string (xf_size f)) + 2 \<le> 128) fs"
      using base True by (simp add: base_inv_def)
    then have "length (xf_name (fs ! file_index s)) + length (dec_string (xf_size (fs ! file_index s))) + 2 \<le> 128"
      using i by (simp add: list_all_length)
    then obtain h where "file_header (files s ! file_index s) = Inr h"
      using file_header_ok [of "files s ! file_index s"] base_inv_nth [OF base i] by auto
    then show ?thesis
      using True i len base live st
      by (simp add: feed_start_def Let_def send_packet_def step_ok_def sender_inv_def base_inv_def live_inv_def
          stage_inv_def no_success_def)
  next
    case False
    then show ?thesis
      using True len base live st
      by (simp add: feed_start_def Let_def send_packet_def step_ok_def sender_inv_def base_inv_def live_inv_def
          stage_inv_def no_success_def)
  qed
next
  case False
  then have "protocol s = Xmodem" by (cases "protocol s") simp_all
  with next_data_ok [OF data_ready_start [OF inv]] st False show ?thesis
    by (fastforce simp: feed_start_def Let_def)
qed

lemma feed_repeat_ok:
  assumes inv: "sender_inv fs s" and st: "stage s = DataAck"
  shows "\<exists>r. feed_repeat now s = Inr r \<and> step_ok fs r"
proof (cases "crc s")
  case True
  then show ?thesis using sender_retry_ok [OF inv] by (simp add: feed_repeat_def)
next
  case False
  let ?data = "block_at (protocol s) (fs ! file_index s) (offset s)"
  have lp: "last_packet s = packet (sequence s) ?data False"
    using inv st False by (simp add: sender_inv_def stage_inv_def Let_def)
  have body: "butlast (last_packet s) = [if length ?data = 1024 then STX else SOH, sequence s, NOT (sequence s)] @ ?data"
    unfolding lp by (simp add: packet_def butlast_append)
  have len: "length (last_packet s) = 4 + length ?data"
    unfolding lp by (simp add: packet_def)
  define s1 where "s1 = s\<lparr>crc := True, last_packet := packet (sequence s) ?data True\<rparr>"
  have "sender_inv fs s1"
    using inv st by (simp add: s1_def sender_inv_def base_inv_def live_inv_def stage_inv_def Let_def numbered_def)
  moreover have "feed_repeat now s = Inr (sender_retry now RetryLimit s1)"
    using False body len by (simp add: feed_repeat_def Let_def s1_def packet_def)
  ultimately show ?thesis using sender_retry_ok by simp
qed

lemma full_block_pos [simp]: "0 < full_block p"
  by (simp add: full_block_def)

lemma data_ready_ack:
  assumes inv: "sender_inv fs s" and st: "stage s = DataAck"
  shows "data_ready fs (s\<lparr>offset := offset s + pending_bytes s,
    accepted_bytes := accepted_bytes s + pending_bytes s, sequence := sequence s + 1, retries := 0\<rparr>)"
proof -
  let ?g = "fs ! file_index s"
  have stg: "stage_inv fs s" "live_inv fs s" "base_inv fs s" using inv st by (simp_all add: sender_inv_def)
  then have pend: "pending_bytes s = min (xf_size ?g - offset s) (block_len (protocol s) (xf_size ?g - offset s))"
    and num: "numbered s" and off: "offset s < xf_size ?g"
    using st by (simp_all add: stage_inv_def Let_def)
  have le: "offset s + pending_bytes s \<le> xf_size ?g" using off pend by linarith
  have "pending_bytes s = full_block (protocol s)" if "offset s + pending_bytes s < xf_size ?g"
    using that pend by (auto simp: block_len_def full_block_def min_def split: if_splits)
  then have "numbered (s\<lparr>offset := offset s + pending_bytes s, sequence := sequence s + 1\<rparr>)"
    if "offset s + pending_bytes s < xf_size ?g"
    using that num by (simp add: numbered_def)
  with le stg st show ?thesis
    by (auto simp: data_ready_def base_inv_def live_inv_def stage_inv_def Let_def numbered_def)
qed

lemma next_file_ok:
  assumes inv: "sender_inv fs s" and st: "stage s = EotAck"
  defines "s1 \<equiv> s\<lparr>file_index := file_index s + 1, offset := 0, sequence := 1, retries := 0, last_packet := []\<rparr>"
  shows "protocol s = Xmodem \<Longrightarrow> step_ok fs (s1\<lparr>stage := Done\<rparr>, [Progress p, Finished (Inr ())])"
    and "protocol s \<noteq> Xmodem \<Longrightarrow> step_ok fs (s1\<lparr>stage := Start, deadline := d\<rparr>, [Progress p])"
proof -
  let ?i = "file_index s"
  have base: "base_inv fs s" and live: "live_inv fs s" and stg: "?i < length fs" "offset s = xf_size (fs ! ?i)"
    using inv st by (simp_all add: sender_inv_def stage_inv_def Let_def)
  have acc: "accepted_bytes s = sum_list (take (Suc ?i) (map xf_size fs))"
    using live stg by (simp add: live_inv_def take_Suc_conv_app_nth)
  show "step_ok fs (s1\<lparr>stage := Done\<rparr>, [Progress p, Finished (Inr ())])" if "protocol s = Xmodem"
    using base acc stg that
    by (simp add: s1_def step_ok_def sender_inv_def base_inv_def complete_def)
  have rest: "drop (Suc ?i) (files s) = drop (Suc ?i) fs" using live by (simp add: live_inv_def)
  then have nxt: "files s ! Suc ?i = fs ! Suc ?i" if "Suc ?i < length fs"
    using that base_inv_length [OF base] by (metis hd_drop_conv_nth)
  have "drop (Suc (Suc ?i)) (files s) = drop (Suc (Suc ?i)) fs"
    using rest by (metis drop_Suc tl_drop)
  then show "step_ok fs (s1\<lparr>stage := Start, deadline := d\<rparr>, [Progress p])" if "protocol s \<noteq> Xmodem"
    using base acc stg nxt that
    by (simp add: s1_def step_ok_def sender_inv_def base_inv_def live_inv_def stage_inv_def no_success_def)
qed

lemma feed_stage_ok:
  assumes inv: "sender_inv fs s"
  shows "\<exists>r. feed_stage byte now s = Inr r \<and> step_ok fs r"
proof -
  have keep: "step_ok fs (s, [])" using inv by (simp add: step_ok_def no_success_def)
  show ?thesis
  proof (cases "stage s")
    case Start
    with feed_start_ok [OF inv] keep sender_fail_ok [of fs s] inv show ?thesis
      by (simp add: feed_stage_def del: split_paired_Ex)
  next
    case HeaderAck
    then have "step_ok fs (s\<lparr>stage := DataStart, retries := 0, deadline := d\<rparr>, [])" for d
      using inv by (simp add: step_ok_def sender_inv_def base_inv_def live_inv_def stage_inv_def no_success_def Let_def)
    with HeaderAck keep sender_retry_ok [OF inv] show ?thesis
      by (simp add: feed_stage_def del: split_paired_Ex)
  next
    case DataStart
    then have "\<exists>r. next_data now (s\<lparr>crc := c, retries := 0\<rparr>) = Inr r \<and> step_ok fs r" for c
      using next_data_ok [OF data_ready_start [OF inv]] by blast
    with DataStart keep sender_fail_ok [of fs s] inv show ?thesis
      by (simp add: feed_stage_def del: split_paired_Ex)
  next
    case DataAck
    let ?s = "s\<lparr>offset := offset s + pending_bytes s, accepted_bytes := accepted_bytes s + pending_bytes s,
        sequence := sequence s + 1, retries := 0\<rparr>"
    obtain s' a where "next_data now ?s = Inr (s', a)" "step_ok fs (s', a)" "no_success a"
      using next_data_ok [OF data_ready_ack [OF inv DataAck]] by fastforce
    then have "\<exists>r. and_then (next_data now ?s) (\<lambda>(s', actions). Inr (s', Progress (progress ?s) # actions)) = Inr r
        \<and> step_ok fs r"
      by (simp add: step_ok_def no_success_def)
    with DataAck keep sender_retry_ok [OF inv] feed_repeat_ok [OF inv DataAck] show ?thesis
      by (simp add: feed_stage_def Let_def del: split_paired_Ex)
  next
    case EotAck
    with next_file_ok [OF inv EotAck] keep sender_retry_ok [OF inv] show ?thesis
      by (simp add: feed_stage_def Let_def del: split_paired_Ex)
  next
    case BatchAck
    then have "step_ok fs (s\<lparr>stage := Done\<rparr>, [Finished (Inr ())])"
      using inv by (simp add: step_ok_def sender_inv_def base_inv_def live_inv_def stage_inv_def complete_def Let_def)
    with BatchAck keep sender_retry_ok [OF inv] show ?thesis
      by (simp add: feed_stage_def del: split_paired_Ex)
  next
    case Done
    with keep show ?thesis by (simp add: feed_stage_def del: split_paired_Ex)
  qed
qed


text \<open>Two flags the invariant does not mention.\<close>

lemma sender_inv_flags [simp]:
  "sender_inv fs (s\<lparr>last_can := c\<rparr>) = sender_inv fs s"
  "sender_inv fs (s\<lparr>initial_progress_emitted := c\<rparr>) = sender_inv fs s"
  by (cases "stage s"; simp add: sender_inv_def base_inv_def live_inv_def stage_inv_def numbered_def Let_def)+

lemma feed_byte_ok:
  assumes inv: "sender_inv fs s"
  shows "\<exists>r. feed_byte byte now s = Inr r \<and> step_ok fs r"
proof (cases "byte = CAN")
  case True
  obtain s' a where r: "(if last_can s then sender_fail RemoteCancelled s else (s, [])) = (s', a)" by fastforce
  have "step_ok fs (s', a)"
    using sender_fail_ok [of fs s RemoteCancelled] inv r
    by (auto simp: step_ok_def no_success_def split: if_splits)
  then have "step_ok fs (s'\<lparr>last_can := True\<rparr>, a)"
    by (simp add: step_ok_def complete_def)
  with True r show ?thesis by (simp add: feed_byte_def del: split_paired_Ex)
next
  case False
  have "sender_inv fs (s\<lparr>last_can := False\<rparr>)"
    using inv by simp
  from feed_stage_ok [OF this] False show ?thesis by (simp add: feed_byte_def del: split_paired_Ex)
qed

lemma step_ok_append:
  assumes "step_ok fs (s, a)" "stage s \<noteq> Done" "step_ok fs (s', b)"
  shows "step_ok fs (s', a @ b)"
  using assms by (auto simp: step_ok_def no_success_def complete_def)

lemma feed_loop_ok:
  "step_ok fs (s, a) \<Longrightarrow> \<exists>r. feed_loop input now s a = Inr r \<and> step_ok fs r"
proof (induction input arbitrary: s a)
  case (Cons byte rest)
  show ?case
  proof (cases "is_done s")
    case True
    with Cons.prems show ?thesis by auto
  next
    case False
    obtain s' b where "feed_byte byte now s = Inr (s', b)" "step_ok fs (s', b)"
      using feed_byte_ok [of fs s byte now] Cons.prems by (auto simp: step_ok_def)
    moreover from this have "step_ok fs (s', a @ b)"
      using step_ok_append [OF Cons.prems] False by (simp add: is_done_def)
    ultimately show ?thesis
      using Cons.IH [of s' "a @ b"] False by simp
  qed
qed simp

lemma initial_progress_ok:
  "sender_inv fs s \<Longrightarrow> step_ok fs (initial_progress s) \<and> stage (fst (initial_progress s)) = stage s"
  by (auto simp: initial_progress_def Let_def step_ok_def no_success_def)

lemma feed_ok:
  assumes "sender_inv fs s"
  shows "\<exists>r. feed input now s = Inr r \<and> step_ok fs r"
proof (cases "is_done s")
  case True
  with assms show ?thesis by (simp add: feed_def step_ok_def no_success_def)
next
  case False
  obtain s' a where "initial_progress s = (s', a)" by fastforce
  with False initial_progress_ok [OF assms] feed_loop_ok [of fs s' a input now] show ?thesis
    by (simp add: feed_def)
qed

lemma tick_ok:
  assumes "sender_inv fs s"
  shows "step_ok fs (tick now s)"
proof (cases "is_done s")
  case True
  with assms show ?thesis by (simp add: tick_def step_ok_def no_success_def)
next
  case False
  obtain s' a where p: "initial_progress s = (s', a)" by fastforce
  then have ok: "step_ok fs (s', a)" "stage s' \<noteq> Done"
    using initial_progress_ok [OF assms] False by (auto simp: is_done_def)
  obtain s'' b where r: "sender_retry now TimedOut s' = (s'', b)" by fastforce
  with ok sender_retry_ok [of fs s' now TimedOut] have "step_ok fs (s'', b)" by (simp add: step_ok_def)
  with step_ok_append [OF ok] False p r ok show ?thesis by (simp add: tick_def)
qed

lemma check_files_total:
  "check_files lower proto fs names acc = Inr tot \<Longrightarrow> tot = acc + sum_list (map xf_size fs) \<and>
     (proto = Ymodem \<longrightarrow> list_all (\<lambda>f. length (xf_name f) + length (dec_string (xf_size f)) + 2 \<le> 128) fs) \<and>
     (acc < 2 ^ 64 \<longrightarrow> tot < 2 ^ 64)"
  by (induction lower proto fs names acc rule: check_files.induct) (auto simp: Let_def split: if_splits)

lemma sender_new_inv:
  assumes "sender_new lower proto fs opts = Inr s"
  shows "sender_inv fs s" "total_bytes s < 2 ^ 64"
proof -
  obtain tot where tot: "check_files lower proto fs [] 0 = Inr tot"
    using assms by (auto simp: sender_new_def and_then_Inr_iff split: if_splits)
  from check_files_total [OF tot] assms tot show "sender_inv fs s" "total_bytes s < 2 ^ 64"
    by (auto simp: sender_new_def sender_inv_def base_inv_def live_inv_def stage_inv_def split: if_splits)
qed



section \<open>Runs\<close>

inductive sender_step :: "XymodemSender \<Rightarrow> XymodemAction list \<Rightarrow> XymodemSender \<Rightarrow> bool" where
  step_feed: "feed input now s = Inr (s', actions) \<Longrightarrow> sender_step s actions s'"
| step_tick: "tick now s = (s', actions) \<Longrightarrow> sender_step s actions s'"
| step_cancel: "sender_cancel s = (s', actions) \<Longrightarrow> sender_step s actions s'"

inductive sender_reach :: "XymodemFile list \<Rightarrow> XymodemSender \<Rightarrow> bool" for fs where
  reach_new: "sender_new to_lowercase proto fs opts = Inr s \<Longrightarrow> sender_reach fs s"
| reach_step: "sender_reach fs s \<Longrightarrow> sender_step s actions s' \<Longrightarrow> sender_reach fs s'"

lemma sender_step_ok:
  assumes "sender_step s actions s'" "sender_inv fs s"
  shows "step_ok fs (s', actions)"
  using assms
proof (cases rule: sender_step.cases)
  case (step_feed input now)
  with feed_ok [OF assms(2), of input now] show ?thesis by auto
next
  case (step_tick now)
  with tick_ok [OF assms(2), of now] show ?thesis by simp
next
  case step_cancel
  with sender_fail_ok [of fs s Cancelled] assms(2) show ?thesis by (simp add: sender_cancel_def)
qed

lemma sender_reach_inv: "sender_reach fs s \<Longrightarrow> sender_inv fs s"
proof (induction rule: sender_reach.induct)
  case (reach_new lower proto opts s)
  then show ?case by (rule sender_new_inv)
next
  case (reach_step s actions s')
  then show ?case using sender_step_ok by (force simp: step_ok_def)
qed


section \<open>A receiver that accepts everything\<close>

definition ideal_reply :: "XymodemSender \<Rightarrow> u8" where
  "ideal_reply s = (if stage s = Start \<or> stage s = DataStart then CRC_REQUEST else ACK)"

fun run_ideal :: "nat \<Rightarrow> nat \<Rightarrow> XymodemSender \<Rightarrow> XymodemAction list
    \<Rightarrow> panic + XymodemSender \<times> XymodemAction list" where
  "run_ideal 0 now s actions = Inr (s, actions)"
| "run_ideal (Suc n) now s actions =
     (if is_done s then Inr (s, actions)
      else and_then (feed [ideal_reply s] now s) (\<lambda>(s', more). run_ideal n now s' (actions @ more)))"

definition later_work :: "XymodemFile list \<Rightarrow> nat \<Rightarrow> nat" where
  "later_work fs i = 2 + sum_list (map (\<lambda>f. 4 + xf_size f) (drop i fs))"

definition work :: "XymodemFile list \<Rightarrow> XymodemSender \<Rightarrow> nat" where
  "work fs s =
     (let i = file_index s; r = xf_size (fs ! i) - offset s in
      case stage s of
        Start \<Rightarrow> later_work fs i
      | HeaderAck \<Rightarrow> 3 + r + later_work fs (Suc i)
      | DataStart \<Rightarrow> 2 + r + later_work fs (Suc i)
      | DataAck \<Rightarrow> 1 + r + later_work fs (Suc i)
      | EotAck \<Rightarrow> 1 + later_work fs (Suc i)
      | BatchAck \<Rightarrow> 1
      | Done \<Rightarrow> 0)"

text \<open>Every file holds as many bytes as its size says.\<close>

definition readable :: "XymodemFile list \<Rightarrow> bool" where
  "readable fs \<longleftrightarrow> list_all (\<lambda>f. xf_size f \<le> length (xf_reader f)) fs"

lemma later_work_Suc: "i < length fs \<Longrightarrow> later_work fs i = 4 + xf_size (fs ! i) + later_work fs (Suc i)"
  by (simp add: later_work_def Cons_nth_drop_Suc [symmetric])

text \<open>A step of the run towards the end: less work, or the successful end.\<close>

definition advance :: "XymodemFile list \<Rightarrow> nat \<Rightarrow> XymodemSender \<times> XymodemAction list \<Rightarrow> bool" where
  "advance fs w r \<longleftrightarrow> work fs (fst r) < w \<and>
     (stage (fst r) = Done \<longrightarrow> Finished (Inr ()) \<in> set (snd r))"

lemma next_data_advance:
  assumes ready: "data_ready fs s" and readable: "readable fs"
  shows "\<exists>s' a. next_data now s = Inr (s', a) \<and> stage s' \<noteq> Done \<and>
    work fs s' = 1 + (xf_size (fs ! file_index s) - offset s) + later_work fs (Suc (file_index s))"
proof -
  let ?i = "file_index s" and ?off = "offset s"
  let ?f = "files s ! ?i" and ?g = "fs ! ?i"
  note r = ready [unfolded data_ready_def]
  have i: "?i < length fs" "length (files s) = length fs" using r base_inv_length by blast+
  have size: "xf_size ?f = xf_size ?g" using base_inv_nth r by blast
  have "xf_size ?g \<le> length (xf_reader ?g)" using readable i by (simp add: readable_def list_all_length)
  then have len: "xf_size ?g - ?off \<le> length (xf_reader ?f)" using r by simp
  show ?thesis
  proof (cases "xf_size ?g = ?off")
    case True
    with i size show ?thesis by (simp add: next_data_def send_packet_def work_def)
  next
    case False
    then have "?off < xf_size ?g" using r by simp
    with i size len show ?thesis
      by (auto simp: next_data_def send_packet_def work_def Let_def)
  qed
qed

lemma feed_stage_advance:
  assumes inv: "sender_inv fs s" and readable: "readable fs" and live: "stage s \<noteq> Done"
  shows "\<exists>r. feed_stage (ideal_reply s) now s = Inr r \<and> advance fs (work fs s) r"
proof (cases "stage s")
  case Start
  have base: "base_inv fs s" and stg: "stage_inv fs s" using inv Start by (simp_all add: sender_inv_def)
  have len: "length (files s) = length fs" using base_inv_length [OF base] .
  show ?thesis
  proof (cases "protocol s = Xmodem")
    case True
    then have "file_index s < length fs" "offset s = 0" using stg Start by (simp_all add: stage_inv_def Let_def)
    then have w: "work fs s = 4 + xf_size (fs ! file_index s) + later_work fs (Suc (file_index s))"
      using Start by (simp add: work_def later_work_Suc)
    from True Start \<open>offset s = 0\<close> show ?thesis
      using next_data_advance [OF data_ready_start [OF inv] readable, of now True]
      by (auto simp: feed_stage_def ideal_reply_def feed_start_def advance_def w)
  next
    case False
    then have y: "protocol s = Ymodem" by (cases "protocol s") simp_all
    show ?thesis
    proof (cases "file_index s < length fs")
      case i: True
      obtain r where r: "feed_start CRC_REQUEST now s = Inr r"
        using feed_start_ok [OF inv Start] by blast
      then have "stage (fst r) = HeaderAck \<and> file_index (fst r) = file_index s \<and> offset (fst r) = offset s"
        using y i len by (auto simp: feed_start_def Let_def send_packet_def and_then_Inr_iff)
      then have "advance fs (work fs s) r"
        using Start i stg by (simp add: advance_def work_def Let_def later_work_Suc)
      with r Start show ?thesis by (simp add: feed_stage_def ideal_reply_def del: split_paired_Ex)
    next
      case False
      with y len Start show ?thesis
        by (simp add: feed_stage_def ideal_reply_def feed_start_def Let_def send_packet_def advance_def work_def
            later_work_def)
    qed
  qed
next
  case HeaderAck
  then show ?thesis by (simp add: feed_stage_def ideal_reply_def advance_def work_def Let_def)
next
  case DataStart
  then have w: "work fs s = 2 + (xf_size (fs ! file_index s) - offset s) + later_work fs (Suc (file_index s))"
    by (simp add: work_def Let_def)
  from DataStart next_data_advance [OF data_ready_start [OF inv] readable, of now True] show ?thesis
    by (auto simp: feed_stage_def ideal_reply_def advance_def w xymodem_bytes)
next
  case DataAck
  have pend: "0 < pending_bytes s" "offset s < xf_size (fs ! file_index s)"
    using inv DataAck by (auto simp: sender_inv_def stage_inv_def Let_def block_len_def)
  have w: "work fs s = 1 + (xf_size (fs ! file_index s) - offset s) + later_work fs (Suc (file_index s))"
    using DataAck by (simp add: work_def Let_def)
  from pend DataAck next_data_advance [OF data_ready_ack [OF inv DataAck] readable, of now] show ?thesis
    by (auto simp: feed_stage_def ideal_reply_def advance_def w Let_def)
next
  case EotAck
  then show ?thesis
    by (simp add: feed_stage_def ideal_reply_def advance_def work_def Let_def xymodem_bytes)
next
  case BatchAck
  then show ?thesis
    by (simp add: feed_stage_def ideal_reply_def advance_def work_def Let_def)
qed (use live in simp)

lemma work_flags [simp]:
  "work fs (s\<lparr>last_can := c\<rparr>) = work fs s" "work fs (s\<lparr>initial_progress_emitted := c\<rparr>) = work fs s"
  "ideal_reply (s\<lparr>last_can := c\<rparr>) = ideal_reply s"
  "ideal_reply (s\<lparr>initial_progress_emitted := c\<rparr>) = ideal_reply s"
  by (simp_all add: work_def ideal_reply_def cong: Stage.case_cong)

lemma feed_advance:
  assumes inv: "sender_inv fs s" and readable: "readable fs" and live: "stage s \<noteq> Done"
  shows "\<exists>r. feed [ideal_reply s] now s = Inr r \<and> advance fs (work fs s) r"
proof -
  obtain s1 a where p: "initial_progress s = (s1, a)" by fastforce
  have s1: "sender_inv fs s1" "stage s1 \<noteq> Done" "work fs s1 = work fs s" "ideal_reply s1 = ideal_reply s"
    using p inv live by (auto simp: initial_progress_def Let_def split: if_splits)
  have nc: "ideal_reply s \<noteq> CAN" by (simp add: ideal_reply_def xymodem_bytes)
  obtain s2 b where "feed_stage (ideal_reply s) now (s1\<lparr>last_can := False\<rparr>) = Inr (s2, b)"
      "advance fs (work fs s) (s2, b)"
    using feed_stage_advance [of fs "s1\<lparr>last_can := False\<rparr>" now] s1 readable by fastforce
  with p s1 live nc show ?thesis
    by (auto simp: feed_def is_done_def feed_byte_def advance_def)
qed

lemma run_ideal_done:
  assumes "sender_inv fs s" "readable fs" "stage s \<noteq> Done" "work fs s \<le> n"
  shows "\<exists>s' a. run_ideal n now s acts = Inr (s', a) \<and> complete fs s' \<and> Finished (Inr ()) \<in> set a"
  using assms(1,3,4)
proof (induction n arbitrary: s acts)
  case 0
  then show ?case by (cases "stage s") (auto simp: work_def later_work_def Let_def)
next
  case (Suc n)
  obtain s1 b where r: "feed [ideal_reply s] now s = Inr (s1, b)" and adv: "advance fs (work fs s) (s1, b)"
    using feed_advance [OF Suc.prems(1) assms(2) Suc.prems(2), of now] by fastforce
  have ok: "step_ok fs (s1, b)" using feed_ok [OF Suc.prems(1), of "[ideal_reply s]" now] r by simp
  show ?case
  proof (cases "stage s1 = Done")
    case True
    then have "Finished (Inr ()) \<in> set b" using adv by (simp add: advance_def)
    moreover from this have "complete fs s1" using ok by (simp add: step_ok_def no_success_def)
    moreover have "run_ideal n now s1 (acts @ b) = Inr (s1, acts @ b)"
      using True by (cases n) (simp_all add: is_done_def)
    ultimately show ?thesis
      using r Suc.prems(2) by (simp add: is_done_def)
  next
    case False
    with Suc.IH [of s1 "acts @ b"] ok adv Suc.prems r show ?thesis
      by (simp add: step_ok_def advance_def is_done_def)
  qed
qed


lemma sum_take_le:
  fixes xs :: "nat list"
  shows "i < length xs \<Longrightarrow> n \<le> xs ! i \<Longrightarrow> sum_list (take i xs) + n \<le> sum_list xs"
  by (subst (2) id_take_nth_drop [of i xs]) simp_all

lemma live_accepted:
  assumes "sender_inv fs s" "stage s \<noteq> Done"
  shows "accepted_bytes s \<le> total_bytes s"
proof (cases "file_index s < length fs")
  case True
  have "offset s \<le> xf_size (fs ! file_index s)"
    using assms by (cases "stage s") (auto simp: sender_inv_def stage_inv_def Let_def)
  with True assms sum_take_le [of "file_index s" "map xf_size fs" "offset s"] show ?thesis
    by (simp add: sender_inv_def base_inv_def live_inv_def)
next
  case False
  then have "offset s = 0"
    using assms by (cases "stage s") (auto simp: sender_inv_def stage_inv_def Let_def)
  with False assms show ?thesis
    by (simp add: sender_inv_def base_inv_def live_inv_def)
qed

text \<open>An upload of one byte, for the concrete instances below.\<close>

definition example_files :: "XymodemFile list" where
  "example_files = [\<lparr>xf_name = ''a'', xf_size = 1, xf_reader = [0x41]\<rparr>]"

definition example_options :: XymodemOptions where
  "example_options = \<lparr>response_timeout = 10, handshake_timeout = 10, max_retries = 10\<rparr>"

definition example_sender :: "XymodemProtocol \<Rightarrow> XymodemSender" where
  "example_sender proto = \<lparr>protocol = proto, options = example_options, files = example_files, file_index = 0,
     offset = 0, total_bytes = 1, accepted_bytes = 0, sequence = 1, pending_bytes = 0, stage = Start,
     crc = False, last_packet = [], retries = 0, deadline = 10, last_can = False,
     initial_progress_emitted = False\<rparr>"

lemma dec_string_1: "dec_string 1 = ''1''"
  by (simp add: dec_string.simps)

lemma example_new: "sender_new id proto example_files example_options = Inr (example_sender proto)"
  using dec_string_1 by (simp add: sender_new_def example_files_def example_options_def example_sender_def)

lemma example_reach: "sender_reach example_files (example_sender proto)"
  by (rule reach_new [OF example_new])

lemma example_data_ack: "\<exists>s. sender_reach example_files s \<and> stage s = DataAck"
proof -
  have "\<exists>s' a. feed [NAK] 0 (example_sender Xmodem) = Inr (s', a) \<and> stage s' = DataAck"
    by (simp add: feed_def is_done_def example_sender_def initial_progress_def feed_byte_def feed_stage_def
        xymodem_bytes feed_start_def next_data_def example_files_def send_packet_def Let_def)
  then show ?thesis
    using reach_step [OF example_reach step_feed] by blast
qed

lemma run_ideal_last_step:
  assumes "run_ideal n now s acts = Inr (s', a)" "sender_reach fs s"
    and "Finished (Inr ()) \<in> set a" "Finished (Inr ()) \<notin> set acts"
  shows "\<exists>s1 b. sender_reach fs s1 \<and> sender_step s1 b s' \<and> Finished (Inr ()) \<in> set b"
  using assms
proof (induction n arbitrary: s acts)
  case (Suc n)
  then have "\<not> is_done s" by (auto split: if_splits)
  with Suc.prems(1) obtain s1 b where f: "feed [ideal_reply s] now s = Inr (s1, b)"
    and run: "run_ideal n now s1 (acts @ b) = Inr (s', a)"
    by (auto simp: and_then_Inr_iff)
  note st = step_feed [OF f]
  show ?case
  proof (cases "Finished (Inr ()) \<in> set b")
    case True
    then have "stage s1 = Done"
      using sender_step_ok [OF st sender_reach_inv [OF Suc.prems(2)]]
      by (simp add: step_ok_def no_success_def complete_def)
    then have "s' = s1" using run by (cases n) (simp_all add: is_done_def)
    with True st Suc.prems(2) show ?thesis by blast
  next
    case False
    with Suc.IH [OF run reach_step [OF Suc.prems(2) st] Suc.prems(3)] Suc.prems(4) show ?thesis by simp
  qed
qed auto

lemma example_success:
  "\<exists>s s' b. sender_reach example_files s \<and> sender_step s b s' \<and> Finished (Inr ()) \<in> set b"
proof -
  have "sender_inv example_files (example_sender Xmodem)" "stage (example_sender Xmodem) \<noteq> Done"
    using sender_reach_inv [OF example_reach] by (simp_all add: example_sender_def)
  moreover have "readable example_files" by (simp add: readable_def example_files_def)
  ultimately obtain s' a where "run_ideal (work example_files (example_sender Xmodem)) 0 (example_sender Xmodem) [] = Inr (s', a)"
      "Finished (Inr ()) \<in> set a"
    using run_ideal_done by blast
  with run_ideal_last_step [OF _ example_reach] show ?thesis by fastforce
qed


section \<open>Properties\<close>



text \<open>C34. While a data block waits for its acknowledgement, the frame the sender repeats is the
  block of the current file at the current offset, padded, with the sequence number that
  counts the blocks of the file modulo 256.\<close>

theorem xymodem_block:
  assumes "sender_reach fs s" "stage s = DataAck"
  shows "file_index s < length fs \<and> offset s < xf_size (fs ! file_index s) \<and>
    last_packet s = packet (sequence s) (block_at (protocol s) (fs ! file_index s) (offset s)) (crc s) \<and>
    full_block (protocol s) dvd offset s \<and>
    sequence s = of_nat (offset s div full_block (protocol s)) + 1"
  using sender_reach_inv [OF assms(1)] assms(2)
  by (simp add: sender_inv_def stage_inv_def Let_def numbered_def)

theorem xymodem_block_witness:
  "\<exists>s :: XymodemSender. stage s = DataAck \<and> file_index s < length example_files \<and>
    last_packet s = packet (sequence s) (block_at (protocol s) (example_files ! file_index s) (offset s)) (crc s)"
  using example_data_ack xymodem_block [of example_files] by blast



text \<open>C19. With a receiver that acknowledges everything and files as long as their sizes say, an
  upload ends with success after at most two replies and, for each file, four more and one
  per byte.\<close>

theorem xymodem_delivers:
  assumes "sender_new lower proto fs opts = Inr s" "readable fs"
  shows "\<exists>s' a. run_ideal (2 + sum_list (map (\<lambda>f. 4 + xf_size f) fs)) now s [] = Inr (s', a) \<and>
    Finished (Inr ()) \<in> set a \<and> stage s' = Done \<and> file_index s' = length fs \<and> accepted_bytes s' = total_bytes s'"
proof -
  have "stage s = Start" "file_index s = 0"
    using assms(1) by (auto simp: sender_new_def and_then_Inr_iff split: if_splits)
  then have "work fs s = 2 + sum_list (map (\<lambda>f. 4 + xf_size f) fs)"
    by (simp add: work_def later_work_def)
  then show ?thesis
    using run_ideal_done [OF sender_new_inv(1) [OF assms(1)] assms(2), of _ now "[]"] \<open>stage s = Start\<close>
    by (fastforce simp: complete_def)
qed

theorem xymodem_delivers_witness:
  "\<exists>s' a. run_ideal 7 0 (example_sender Ymodem) [] = Inr (s', a) \<and> Finished (Inr ()) \<in> set a"
  using xymodem_delivers [OF example_new [of Ymodem], of 0] by (auto simp: readable_def example_files_def)

text \<open>The two check bytes after a block make the cyclic redundancy check of the whole zero,
  which is what a receiver tests.\<close>

theorem xymodem_crc:
  "crc16 (drop 3 (packet seq data True)) = 0"
  by (simp add: packet_def crc16_residue)

end
