(* ===== verification/Mailbox.thy ===== *)
theory Mailbox
  imports Prelude "HOL-Library.Multiset" "HOL-Library.Sublist"
begin

text \<open>
  The bounded input queues of the transports: the writer mailbox of the local, serial and
  Telnet transports (\<open>writer_mailbox.rs\<close>), the SSH input (\<open>ssh_mailbox.rs\<close>) and the input of the
  panes of a tmux control client (\<open>tmux/mailbox.rs\<close>). All three account for the bytes and
  items of queued commands and of commands that have been taken out but whose permit is
  still alive, and refuse input past the same two limits.

  A critical section of the source (the code between taking and releasing the state's lock)
  is one operation here; the operations of all threads interleave freely in the step
  relations. A loop that waits on a condition variable is one operation per wake-up, with
  \<open>None\<close> for going back to sleep. A permit is its number of bytes in the list of live
  permits; dropping one is a step. Poisoned locks are not modelled: no operation panics,
  which is proved.
\<close>


section \<open>The contract of the accounting\<close>

definition BYTE_LIMIT :: nat where "BYTE_LIMIT = 8 * 1024 * 1024"
definition ITEM_LIMIT :: nat where "ITEM_LIMIT = 1024"

datatype io_error = BrokenPipe | WouldBlock | InvalidInput | Interrupted

definition balanced :: "nat \<Rightarrow> nat \<Rightarrow> nat \<Rightarrow> nat multiset \<Rightarrow> bool" where
  "balanced bytes items peak held \<longleftrightarrow>
     bytes = \<Sum>\<^sub># held \<and> items = size held \<and> bytes \<le> peak \<and> peak \<le> BYTE_LIMIT \<and> items \<le> ITEM_LIMIT"

lemma balanced_empty: "balanced 0 0 0 {#}"
  by (simp add: balanced_def)

lemma balanced_admit:
  "balanced bytes items peak held \<Longrightarrow> n \<le> BYTE_LIMIT - bytes \<Longrightarrow> items < ITEM_LIMIT \<Longrightarrow>
   balanced (bytes + n) (items + 1) (max peak (bytes + n)) (add_mset n held)"
  by (auto simp: balanced_def)

lemma balanced_release:
  "balanced bytes items peak (add_mset n held) \<Longrightarrow> balanced (bytes - n) (items - 1) peak held"
  by (auto simp: balanced_def)

lemma balanced_release_ok:
  "balanced bytes items peak (add_mset n held) \<Longrightarrow> n \<le> bytes \<and> 1 \<le> items"
  by (auto simp: balanced_def)

text \<open>
  A client relies on this interface: every step keeps the books, admits one item within the
  limits, or releases some of the held ones.
\<close>

locale ledger =
  fixes init :: "'s \<Rightarrow> bool" and step :: "'s \<Rightarrow> 's \<Rightarrow> bool"
    and bytes items peak :: "'s \<Rightarrow> nat" and held :: "'s \<Rightarrow> nat multiset"
  assumes init_balanced: "init s \<Longrightarrow> balanced (bytes s) (items s) (peak s) (held s)"
    and step_balanced: "balanced (bytes s) (items s) (peak s) (held s) \<Longrightarrow> step s t \<Longrightarrow>
      balanced (bytes t) (items t) (peak t) (held t)"
begin

lemma reach_balanced: "reachable init step s \<Longrightarrow> balanced (bytes s) (items s) (peak s) (held s)"
  by (erule reachable_invariant) (fact init_balanced, fact step_balanced)

lemma reach_limits:
  assumes "reachable init step s"
  shows "bytes s \<le> BYTE_LIMIT" "items s \<le> ITEM_LIMIT" "bytes s \<le> peak s" "peak s \<le> BYTE_LIMIT"
  using reach_balanced [OF assms] by (auto simp: balanced_def)

lemma reach_release_ok:
  assumes "reachable init step s" "n \<in># held s"
  shows "n \<le> bytes s \<and> 1 \<le> items s"
  using reach_balanced [OF assms(1)] assms(2)
  by (metis balanced_release_ok insert_DiffM)

lemma reach_empty:
  assumes "reachable init step s" "held s = {#}"
  shows "bytes s = 0 \<and> items s = 0"
  using reach_balanced [OF assms(1)] assms(2) by (simp add: balanced_def)

end


section \<open>The writer mailbox\<close>

datatype TransportWriterCommand = Write "u8 list" | TelnetControl "u8 list"

record WriterState =
  w_queue :: "TransportWriterCommand list"
  w_bytes :: nat
  w_peak_bytes :: nat
  w_items :: nat
  w_stopped :: bool

definition writer_default :: WriterState where
  "writer_default = \<lparr>w_queue = [], w_bytes = 0, w_peak_bytes = 0, w_items = 0, w_stopped = False\<rparr>"

fun byte_cost :: "TransportWriterCommand \<Rightarrow> nat" where
  "byte_cost (Write data) = length data"
| "byte_cost (TelnetControl data) = length data"

text \<open>One pass of the loop of \<open>wait_capacity\<close>.\<close>

definition writer_wait_capacity :: "nat \<Rightarrow> bool \<Rightarrow> WriterState \<Rightarrow> (io_error + unit) option" where
  "writer_wait_capacity n cancelled st =
     (if BYTE_LIMIT < n then Some (Inl InvalidInput)
      else if cancelled then Some (Inl Interrupted)
      else if w_stopped st then Some (Inl BrokenPipe)
      else if n \<le> BYTE_LIMIT - w_bytes st \<and> w_items st < ITEM_LIMIT then Some (Inr ())
      else None)"

definition writer_check_capacity :: "nat \<Rightarrow> WriterState \<Rightarrow> io_error + unit" where
  "writer_check_capacity n st =
     (if w_stopped st then Inl BrokenPipe
      else if BYTE_LIMIT - w_bytes st < n \<or> ITEM_LIMIT \<le> w_items st then Inl WouldBlock
      else Inr ())"

definition writer_send :: "TransportWriterCommand \<Rightarrow> WriterState \<Rightarrow> io_error + WriterState" where
  "writer_send command st =
     (let n = byte_cost command in
      if w_stopped st then Inl BrokenPipe
      else if BYTE_LIMIT - w_bytes st < n \<or> ITEM_LIMIT \<le> w_items st then Inl WouldBlock
      else Inr (st\<lparr>w_bytes := w_bytes st + n, w_peak_bytes := max (w_peak_bytes st) (w_bytes st + n),
                  w_items := w_items st + 1, w_queue := w_queue st @ [command]\<rparr>))"

text \<open>One pass of the loop of \<open>receive\<close>: an error, a command with its permit, a timeout (\<open>None\<close> in
  the result), or back to sleep.\<close>

definition writer_receive ::
  "bool \<Rightarrow> WriterState \<Rightarrow> (io_error + (TransportWriterCommand \<times> nat) option) option \<times> WriterState" where
  "writer_receive timed_out st =
     (if w_stopped st then (Some (Inl BrokenPipe), st)
      else case w_queue st of
        command # rest \<Rightarrow> (Some (Inr (Some (command, byte_cost command))), st\<lparr>w_queue := rest\<rparr>)
      | [] \<Rightarrow> (if timed_out then Some (Inr None) else None, st))"

fun writer_drain :: "TransportWriterCommand list \<Rightarrow> nat \<Rightarrow> nat \<Rightarrow> panic + nat \<times> nat" where
  "writer_drain [] n k = Inr (n, k)"
| "writer_drain (command # rest) n k =
     and_then (sub_usize n (byte_cost command)) (\<lambda>n.
     and_then (sub_usize k 1) (\<lambda>k. writer_drain rest n k))"

definition writer_stop :: "WriterState \<Rightarrow> panic + WriterState" where
  "writer_stop st =
     and_then (writer_drain (w_queue st) (w_bytes st) (w_items st)) (\<lambda>(n, k).
     Inr (st\<lparr>w_stopped := True, w_queue := [], w_bytes := n, w_items := k\<rparr>))"

definition writer_drop_permit :: "nat \<Rightarrow> WriterState \<Rightarrow> panic + WriterState" where
  "writer_drop_permit n st =
     and_then (sub_usize (w_bytes st) n) (\<lambda>b.
     and_then (sub_usize (w_items st) 1) (\<lambda>k. Inr (st\<lparr>w_bytes := b, w_items := k\<rparr>)))"

text \<open>
  The mailbox with its live permits, and the commands accepted and handed out so far.
\<close>

record WriterSystem =
  ws_state :: WriterState
  ws_permits :: "nat list"
  ws_accepted :: "TransportWriterCommand list"
  ws_delivered :: "TransportWriterCommand list"

definition writer_init :: "WriterSystem \<Rightarrow> bool" where
  "writer_init s \<longleftrightarrow> s = \<lparr>ws_state = writer_default, ws_permits = [], ws_accepted = [], ws_delivered = []\<rparr>"

inductive writer_step :: "WriterSystem \<Rightarrow> WriterSystem \<Rightarrow> bool" where
  w_send: "writer_send command (ws_state s) = Inr st \<Longrightarrow>
     writer_step s (s\<lparr>ws_state := st, ws_accepted := ws_accepted s @ [command]\<rparr>)"
| w_receive: "writer_receive timed_out (ws_state s) = (Some (Inr (Some (command, n))), st) \<Longrightarrow>
     writer_step s (s\<lparr>ws_state := st, ws_permits := n # ws_permits s,
                      ws_delivered := ws_delivered s @ [command]\<rparr>)"
| w_drop: "ws_permits s = ps @ n # qs \<Longrightarrow> writer_drop_permit n (ws_state s) = Inr st \<Longrightarrow>
     writer_step s (s\<lparr>ws_state := st, ws_permits := ps @ qs\<rparr>)"
| w_stop: "writer_stop (ws_state s) = Inr st \<Longrightarrow> writer_step s (s\<lparr>ws_state := st\<rparr>)"

definition writer_held :: "WriterSystem \<Rightarrow> nat multiset" where
  "writer_held s = mset (map byte_cost (w_queue (ws_state s))) + mset (ws_permits s)"

lemma writer_drain_spec:
  assumes "balanced n k peak (mset (map byte_cost queue) + P)"
  shows "\<exists>n' k'. writer_drain queue n k = Inr (n', k') \<and> balanced n' k' peak P"
  using assms
proof (induction queue arbitrary: n k)
  case (Cons c queue)
  let ?rest = "mset (map byte_cost queue) + P"
  have b: "balanced n k peak (add_mset (byte_cost c) ?rest)" using Cons.prems by simp
  show ?case
    using Cons.IH [OF balanced_release [OF b]] balanced_release_ok [OF b] by simp
qed simp

interpretation writer: ledger writer_init writer_step "\<lambda>s. w_bytes (ws_state s)" "\<lambda>s. w_items (ws_state s)"
  "\<lambda>s. w_peak_bytes (ws_state s)" writer_held
proof unfold_locales
  fix s assume "writer_init s"
  then show "balanced (w_bytes (ws_state s)) (w_items (ws_state s)) (w_peak_bytes (ws_state s)) (writer_held s)"
    by (simp add: writer_init_def writer_default_def writer_held_def balanced_empty)
next
  fix s t :: WriterSystem
  assume b: "balanced (w_bytes (ws_state s)) (w_items (ws_state s)) (w_peak_bytes (ws_state s)) (writer_held s)"
    and step: "writer_step s t"
  from step b show "balanced (w_bytes (ws_state t)) (w_items (ws_state t)) (w_peak_bytes (ws_state t)) (writer_held t)"
  proof cases
    case (w_send command st)
    then have "byte_cost command \<le> BYTE_LIMIT - w_bytes (ws_state s)" "w_items (ws_state s) < ITEM_LIMIT"
      by (auto simp: writer_send_def Let_def split: if_splits)
    from balanced_admit [OF b this] w_send show ?thesis
      by (auto simp: writer_send_def Let_def writer_held_def split: if_splits)
  next
    case (w_receive timed_out command n st)
    with b show ?thesis
      by (auto simp: writer_receive_def writer_held_def split: if_splits list.splits)
  next
    case (w_drop ps n qs st)
    have h: "writer_held s = add_mset n (mset (map byte_cost (w_queue (ws_state s))) + mset (ps @ qs))"
      using w_drop by (simp add: writer_held_def)
    from balanced_release [OF b [unfolded h]] w_drop show ?thesis
      by (auto simp: writer_drop_permit_def writer_held_def and_then_Inr_iff)
  next
    case (w_stop st)
    from writer_drain_spec [OF b [unfolded writer_held_def]] w_stop show ?thesis
      by (auto simp: writer_stop_def writer_held_def)
  qed
qed

lemma writer_fifo_inv:
  assumes "reachable writer_init writer_step s"
  shows "prefix (ws_delivered s) (ws_accepted s) \<and>
    (\<not> w_stopped (ws_state s) \<longrightarrow> ws_accepted s = ws_delivered s @ w_queue (ws_state s)) \<and>
    (w_stopped (ws_state s) \<longrightarrow> w_queue (ws_state s) = [])" (is "?P s")
  using assms
proof (rule reachable_invariant)
  show "?P s" if "writer_init s" for s
    using that by (simp add: writer_init_def writer_default_def)
  show "?P t" if "?P s" "writer_step s t" for s t
    using that(2,1)
    by cases (auto simp: writer_send_def writer_receive_def writer_drop_permit_def writer_stop_def Let_def
        and_then_Inr_iff split: if_splits list.splits)
qed

lemma writer_drop_ok:
  assumes "n \<le> w_bytes st \<and> 1 \<le> w_items st"
  shows "\<exists>st'. writer_drop_permit n st = Inr st'"
  using assms by (simp add: writer_drop_permit_def)

lemma writer_stop_ok:
  assumes "reachable writer_init writer_step s"
  shows "\<exists>st. writer_stop (ws_state s) = Inr st \<and> w_stopped st \<and>
    w_bytes st = sum_list (ws_permits s) \<and> w_items st = length (ws_permits s)"
proof -
  from writer_drain_spec [OF writer.reach_balanced [OF assms, unfolded writer_held_def]]
  obtain n k where "writer_drain (w_queue (ws_state s)) (w_bytes (ws_state s)) (w_items (ws_state s)) = Inr (n, k)"
    and "balanced n k (w_peak_bytes (ws_state s)) (mset (ws_permits s))" by blast
  then show ?thesis by (simp add: writer_stop_def balanced_def sum_mset_sum_list)
qed


section \<open>The SSH input\<close>

datatype SshCommand =
    SshWrite "u8 list"
  | Resize u16 u16 u16 u16
  | TmuxCommand string
  | TmuxDetach
  | TmuxPaneInput string "u8 list"
  | TmuxPaneResize string u16 u16
  | TmuxPaneClose string
  | Close

record SshState =
  h_bytes :: nat
  h_peak_bytes :: nat
  h_items :: nat
  h_stopped :: bool
  h_resize :: "(u16 \<times> u16 \<times> u16 \<times> u16) option"

definition ssh_default :: SshState where
  "ssh_default = \<lparr>h_bytes = 0, h_peak_bytes = 0, h_items = 0, h_stopped = False, h_resize = None\<rparr>"

definition ssh_check :: "SshState \<Rightarrow> nat \<Rightarrow> io_error + unit" where
  "ssh_check st n =
     (if h_stopped st then Inl BrokenPipe
      else if BYTE_LIMIT < n then Inl InvalidInput
      else if BYTE_LIMIT - h_bytes st < n \<or> ITEM_LIMIT \<le> h_items st then Inl WouldBlock
      else Inr ())"

text \<open>One pass of the loop of \<open>wait_capacity\<close>.\<close>

definition ssh_wait_capacity :: "nat \<Rightarrow> bool \<Rightarrow> SshState \<Rightarrow> (io_error + unit) option" where
  "ssh_wait_capacity n cancelled st =
     (if cancelled then Some (Inl Interrupted)
      else if ssh_check st n = Inl WouldBlock then None
      else Some (ssh_check st n))"

definition ssh_resize :: "u16 \<times> u16 \<times> u16 \<times> u16 \<Rightarrow> SshState \<Rightarrow> SshState" where
  "ssh_resize r st = st\<lparr>h_resize := Some r\<rparr>"

definition ssh_close :: "SshState \<Rightarrow> SshState" where
  "ssh_close st = st\<lparr>h_stopped := True\<rparr>"

definition ssh_control :: "SshState \<Rightarrow> SshCommand option \<times> SshState" where
  "ssh_control st =
     (if h_stopped st then (Some Close, st)
      else (map_option (\<lambda>(cols, rows, width, height). Resize cols rows width height) (h_resize st),
            st\<lparr>h_resize := None\<rparr>))"

definition ssh_drop_permit :: "nat \<Rightarrow> SshState \<Rightarrow> panic + SshState" where
  "ssh_drop_permit n st =
     and_then (sub_usize (h_bytes st) n) (\<lambda>b.
     and_then (sub_usize (h_items st) 1) (\<lambda>k. Inr (st\<lparr>h_bytes := b, h_items := k\<rparr>)))"

text \<open>
  The state with the unbounded channel of pending writes, whose permits are their lengths,
  and the permits of writes that have left it. The receiver's drop first stops the
  input and then lets go of the channel.
\<close>

datatype ReceiverPhase = Receiving | Dropping | Gone

record SshSystem =
  hs_state :: SshState
  hs_data :: "u8 list list"
  hs_permits :: "nat list"
  hs_receiver :: ReceiverPhase
  hs_accepted :: "u8 list list"
  hs_delivered :: "u8 list list"

definition ssh_channel :: SshSystem where
  "ssh_channel = \<lparr>hs_state = ssh_default, hs_data = [], hs_permits = [], hs_receiver = Receiving,
     hs_accepted = [], hs_delivered = []\<rparr>"

definition ssh_write :: "u8 list \<Rightarrow> SshSystem \<Rightarrow> (io_error + unit) \<times> SshSystem" where
  "ssh_write data s =
     (let st = hs_state s; n = length data in
      if data = [] then (Inr (), s)
      else case ssh_check st n of
        Inl e \<Rightarrow> (Inl e, s)
      | Inr _ \<Rightarrow>
          let s = s\<lparr>hs_state := st\<lparr>h_bytes := h_bytes st + n, h_peak_bytes := max (h_peak_bytes st) (h_bytes st + n),
                      h_items := h_items st + 1\<rparr>\<rparr>
          in if hs_receiver s = Gone then (Inl BrokenPipe, s\<lparr>hs_permits := n # hs_permits s\<rparr>)
             else (Inr (), s\<lparr>hs_data := hs_data s @ [data], hs_accepted := hs_accepted s @ [data]\<rparr>))"

definition ssh_take :: "SshSystem \<Rightarrow> SshCommand option \<times> SshSystem" where
  "ssh_take s =
     (case hs_data s of
        [] \<Rightarrow> (None, s)
      | data # rest \<Rightarrow> (Some (SshWrite data),
          s\<lparr>hs_data := rest, hs_permits := length data # hs_permits s, hs_delivered := hs_delivered s @ [data]\<rparr>))"

definition ssh_try_recv :: "SshSystem \<Rightarrow> SshCommand option \<times> SshSystem" where
  "ssh_try_recv s =
     (let (command, st) = ssh_control (hs_state s); s = s\<lparr>hs_state := st\<rparr> in
      case command of Some c \<Rightarrow> (Some c, s) | None \<Rightarrow> ssh_take s)"

definition ssh_receiver_drop :: "SshSystem \<Rightarrow> SshSystem" where
  "ssh_receiver_drop s = s\<lparr>hs_state := ssh_close (hs_state s), hs_receiver := Dropping\<rparr>"

definition ssh_data_drop :: "SshSystem \<Rightarrow> SshSystem" where
  "ssh_data_drop s = s\<lparr>hs_data := [], hs_permits := map length (hs_data s) @ hs_permits s, hs_receiver := Gone\<rparr>"

text \<open>
  A receive is two steps, since other threads may run between looking at the control state
  and taking a write.
\<close>

inductive ssh_step :: "SshSystem \<Rightarrow> SshSystem \<Rightarrow> bool" where
  h_write: "ssh_step s (snd (ssh_write data s))"
| h_resize: "ssh_step s (s\<lparr>hs_state := ssh_resize r (hs_state s)\<rparr>)"
| h_close: "ssh_step s (s\<lparr>hs_state := ssh_close (hs_state s)\<rparr>)"
| h_control: "hs_receiver s = Receiving \<Longrightarrow> ssh_step s (s\<lparr>hs_state := snd (ssh_control (hs_state s))\<rparr>)"
| h_take: "hs_receiver s = Receiving \<Longrightarrow> ssh_step s (snd (ssh_take s))"
| h_drop: "hs_permits s = ps @ n # qs \<Longrightarrow> ssh_drop_permit n (hs_state s) = Inr st \<Longrightarrow>
     ssh_step s (s\<lparr>hs_state := st, hs_permits := ps @ qs\<rparr>)"
| h_receiver_drop: "hs_receiver s = Receiving \<Longrightarrow> ssh_step s (ssh_receiver_drop s)"
| h_data_drop: "hs_receiver s = Dropping \<Longrightarrow> ssh_step s (ssh_data_drop s)"

definition ssh_held :: "SshSystem \<Rightarrow> nat multiset" where
  "ssh_held s = mset (map length (hs_data s)) + mset (hs_permits s)"

lemma ssh_check_Inr: "ssh_check st n = Inr u \<longleftrightarrow>
    \<not> h_stopped st \<and> n \<le> BYTE_LIMIT - h_bytes st \<and> h_items st < ITEM_LIMIT"
  by (auto simp: ssh_check_def)

lemma ssh_write_balanced:
  assumes b: "balanced (h_bytes (hs_state s)) (h_items (hs_state s)) (h_peak_bytes (hs_state s)) (ssh_held s)"
    and t: "t = snd (ssh_write data s)"
  shows "balanced (h_bytes (hs_state t)) (h_items (hs_state t)) (h_peak_bytes (hs_state t)) (ssh_held t)"
proof (cases "data = [] \<or> \<not> is_ok (ssh_check (hs_state s) (length data))")
  case True
  then have "t = s" by (auto simp: t ssh_write_def Let_def split: sum.splits)
  with b show ?thesis by simp
next
  case False
  then have c: "ssh_check (hs_state s) (length data) = Inr ()" and ne: "data \<noteq> []"
    by (cases "ssh_check (hs_state s) (length data)"; auto)+
  from c have "length data \<le> BYTE_LIMIT - h_bytes (hs_state s)" "h_items (hs_state s) < ITEM_LIMIT"
    by (simp_all add: ssh_check_Inr)
  from balanced_admit [OF b this] c ne show ?thesis
    by (simp add: t ssh_write_def Let_def ssh_held_def)
qed

interpretation ssh: ledger "\<lambda>s. s = ssh_channel" ssh_step "\<lambda>s. h_bytes (hs_state s)"
  "\<lambda>s. h_items (hs_state s)" "\<lambda>s. h_peak_bytes (hs_state s)" ssh_held
proof unfold_locales
  fix s :: SshSystem assume "s = ssh_channel"
  then show "balanced (h_bytes (hs_state s)) (h_items (hs_state s)) (h_peak_bytes (hs_state s)) (ssh_held s)"
    by (simp add: ssh_channel_def ssh_default_def ssh_held_def balanced_empty)
next
  fix s t :: SshSystem
  assume b: "balanced (h_bytes (hs_state s)) (h_items (hs_state s)) (h_peak_bytes (hs_state s)) (ssh_held s)"
    and step: "ssh_step s t"
  from step b show "balanced (h_bytes (hs_state t)) (h_items (hs_state t)) (h_peak_bytes (hs_state t)) (ssh_held t)"
  proof cases
    case h_write
    with ssh_write_balanced [OF b] show ?thesis by blast
  next
    case (h_drop ps n qs st)
    have h: "ssh_held s = add_mset n (mset (map length (hs_data s)) + mset (ps @ qs))"
      using h_drop by (simp add: ssh_held_def)
    from balanced_release [OF b [unfolded h]] h_drop show ?thesis
      by (auto simp: ssh_drop_permit_def ssh_held_def and_then_Inr_iff)
  qed (use b in \<open>auto simp: ssh_resize_def ssh_close_def ssh_control_def ssh_take_def ssh_receiver_drop_def
        ssh_data_drop_def ssh_held_def split: list.splits\<close>)
qed

lemma ssh_fifo_inv:
  assumes "reachable (\<lambda>s. s = ssh_channel) ssh_step s"
  shows "prefix (hs_delivered s) (hs_accepted s) \<and>
    (hs_receiver s \<noteq> Gone \<longrightarrow> hs_accepted s = hs_delivered s @ hs_data s) \<and>
    (hs_receiver s \<noteq> Receiving \<longrightarrow> h_stopped (hs_state s))" (is "?P s")
  using assms
proof (rule reachable_invariant)
  show "?P s" if "s = ssh_channel" for s
    using that by (simp add: ssh_channel_def)
  show "?P t" if "?P s" "ssh_step s t" for s t
    using that(2,1)
    by cases (auto simp: ssh_write_def ssh_resize_def ssh_close_def ssh_control_def ssh_take_def ssh_receiver_drop_def
        ssh_data_drop_def ssh_drop_permit_def ssh_check_def Let_def and_then_Inr_iff
        split: if_splits list.splits sum.splits)
qed


section \<open>The input of the panes of a tmux client\<close>

record TmuxState =
  x_bytes :: nat
  x_items :: nat
  x_peak_bytes :: nat
  x_stopped :: bool
  x_suspended :: bool
  x_generation :: u64
  x_detach :: bool
  x_close_panes :: "string set"

record TmuxPermit =
  p_bytes :: nat
  p_generation :: u64

definition validate_command :: "string \<Rightarrow> io_error + unit" where
  "validate_command line =
     (if list_ex (\<lambda>c. of_char c \<in> {0x0d, 0x0a, 0 :: nat}) line then Inl InvalidInput else Inr ())"

fun tmux_cost :: "SshCommand \<Rightarrow> nat" where
  "tmux_cost (TmuxCommand line) = length line"
| "tmux_cost (TmuxPaneInput pane data) = length data"
| "tmux_cost _ = 0"

definition tmux_drop_permit :: "TmuxPermit \<Rightarrow> TmuxState \<Rightarrow> panic + TmuxState" where
  "tmux_drop_permit permit st =
     and_then (sub_usize (x_bytes st) (p_bytes permit)) (\<lambda>b.
     and_then (sub_usize (x_items st) 1) (\<lambda>k. Inr (st\<lparr>x_bytes := b, x_items := k\<rparr>)))"

definition tmux_reserve :: "bool \<Rightarrow> nat \<Rightarrow> TmuxState \<Rightarrow> io_error + TmuxPermit \<times> TmuxState" where
  "tmux_reserve closed n st =
     (if x_stopped st \<or> x_suspended st \<or> closed then Inl BrokenPipe
      else if BYTE_LIMIT < n then Inl InvalidInput
      else if BYTE_LIMIT - x_bytes st < n \<or> ITEM_LIMIT \<le> x_items st then Inl WouldBlock
      else Inr (\<lparr>p_bytes = n, p_generation = x_generation st\<rparr>,
        st\<lparr>x_bytes := x_bytes st + n, x_peak_bytes := max (x_peak_bytes st) (x_bytes st + n),
           x_items := x_items st + 1\<rparr>))"

definition tmux_refuses :: "TmuxPermit \<Rightarrow> TmuxState \<Rightarrow> bool" where
  "tmux_refuses permit st \<longleftrightarrow> x_stopped st \<or> x_suspended st \<or> p_generation permit \<noteq> x_generation st"

definition tmux_send_control :: "SshCommand \<Rightarrow> TmuxState \<Rightarrow> io_error + TmuxState" where
  "tmux_send_control command st =
     (if x_stopped st \<or> x_suspended st then Inl BrokenPipe
      else Inr (case command of
        TmuxDetach \<Rightarrow> st\<lparr>x_detach := True\<rparr>
      | TmuxPaneClose pane \<Rightarrow> st\<lparr>x_close_panes := insert pane (x_close_panes st)\<rparr>
      | _ \<Rightarrow> st))"

text \<open>The set is iterated in an unspecified order: \<open>pick\<close> stands for its first element.\<close>

definition tmux_control_recv :: "(string set \<Rightarrow> string) \<Rightarrow> TmuxState \<Rightarrow> SshCommand option \<times> TmuxState" where
  "tmux_control_recv pick st =
     (if x_detach st then (Some TmuxDetach, st\<lparr>x_detach := False\<rparr>)
      else if x_close_panes st \<noteq> {} then
        (let pane = pick (x_close_panes st) in
         (Some (TmuxPaneClose pane), st\<lparr>x_close_panes := x_close_panes st - {pane}\<rparr>))
      else (None, st))"

definition tmux_suspend :: "TmuxState \<Rightarrow> TmuxState" where
  "tmux_suspend st = st\<lparr>x_suspended := True, x_generation := x_generation st + 1, x_detach := False,
     x_close_panes := {}\<rparr>"

definition tmux_resume :: "TmuxState \<Rightarrow> TmuxState" where
  "tmux_resume st = st\<lparr>x_suspended := False\<rparr>"

text \<open>
  A sending thread reserves in one critical section and enqueues in a later one; between
  them the command waits in \<open>ts_reserved\<close>. Every command is tagged with the number of
  attachments at its reservation and, when it is received, at that moment.
\<close>

type_synonym reservation = "SshCommand \<times> TmuxPermit \<times> nat"

record TmuxSystem =
  ts_state :: TmuxState
  ts_reserved :: "reservation list"
  ts_queue :: "reservation list"
  ts_permits :: "TmuxPermit list"
  ts_receiver :: ReceiverPhase
  ts_draining :: bool
  ts_attach :: nat
  ts_received :: "(SshCommand \<times> nat \<times> nat) list"

definition tmux_default :: TmuxState where
  "tmux_default = \<lparr>x_bytes = 0, x_items = 0, x_peak_bytes = 0, x_stopped = False, x_suspended = False,
     x_generation = 0, x_detach = False, x_close_panes = {}\<rparr>"

definition tmux_channel :: TmuxSystem where
  "tmux_channel = \<lparr>ts_state = tmux_default, ts_reserved = [], ts_queue = [], ts_permits = [],
     ts_receiver = Receiving, ts_draining = False, ts_attach = 0, ts_received = []\<rparr>"

text \<open>The checks and the reservation of \<open>send\<close>, for a command that is queued.\<close>

definition tmux_begin_send :: "SshCommand \<Rightarrow> TmuxSystem \<Rightarrow> io_error + TmuxSystem" where
  "tmux_begin_send command s =
     and_then (case command of TmuxCommand line \<Rightarrow> validate_command line | _ \<Rightarrow> Inr ()) (\<lambda>_.
     and_then (tmux_reserve (ts_receiver s = Gone) (tmux_cost command) (ts_state s)) (\<lambda>(permit, st).
     Inr (s\<lparr>ts_state := st, ts_reserved := (command, permit, ts_attach s) # ts_reserved s\<rparr>)))"

definition tmux_enqueue :: "reservation \<Rightarrow> TmuxSystem \<Rightarrow> (io_error + unit) \<times> TmuxSystem" where
  "tmux_enqueue r s =
     (let permit = fst (snd r) in
      if tmux_refuses permit (ts_state s) \<or> ts_receiver s = Gone
      then (Inl BrokenPipe, s\<lparr>ts_permits := permit # ts_permits s\<rparr>)
      else (Inr (), s\<lparr>ts_queue := ts_queue s @ [r]\<rparr>))"

text \<open>A whole \<open>send\<close> or \<open>write\<close> that no other thread interrupts.\<close>

definition tmux_send :: "SshCommand \<Rightarrow> TmuxSystem \<Rightarrow> (io_error + unit) \<times> TmuxSystem" where
  "tmux_send command s =
     (if (case command of TmuxDetach \<Rightarrow> True | TmuxPaneClose _ \<Rightarrow> True | _ \<Rightarrow> False) then
        (case tmux_send_control command (ts_state s) of
           Inl e \<Rightarrow> (Inl e, s)
         | Inr st \<Rightarrow> (Inr (), s\<lparr>ts_state := st\<rparr>))
      else case tmux_begin_send command s of
          Inl e \<Rightarrow> (Inl e, s)
        | Inr s \<Rightarrow> (case ts_reserved s of
              [] \<Rightarrow> (Inr (), s)
            | r # rest \<Rightarrow> tmux_enqueue r (s\<lparr>ts_reserved := rest\<rparr>)))"

definition tmux_write :: "string \<Rightarrow> u8 list \<Rightarrow> TmuxSystem \<Rightarrow> (io_error + unit) \<times> TmuxSystem" where
  "tmux_write pane data s = (if data = [] then (Inr (), s) else tmux_send (TmuxPaneInput pane data) s)"

definition tmux_recv :: "TmuxSystem \<Rightarrow> TmuxSystem" where
  "tmux_recv s =
     (case ts_queue s of
        [] \<Rightarrow> s
      | (command, permit, a) # rest \<Rightarrow> s\<lparr>ts_queue := rest, ts_permits := permit # ts_permits s,
          ts_received := ts_received s @ [(command, a, ts_attach s)]\<rparr>)"

definition tmux_drain :: "TmuxSystem \<Rightarrow> TmuxSystem" where
  "tmux_drain s =
     (case ts_queue s of
        [] \<Rightarrow> s\<lparr>ts_draining := False\<rparr>
      | (command, permit, a) # rest \<Rightarrow> s\<lparr>ts_queue := rest, ts_permits := permit # ts_permits s\<rparr>)"

inductive tmux_step :: "TmuxSystem \<Rightarrow> TmuxSystem \<Rightarrow> bool" where
  x_begin: "tmux_begin_send command s = Inr t \<Longrightarrow> tmux_step s t"
| x_enqueue: "ts_reserved s = rs @ r # qs \<Longrightarrow>
     tmux_step s (snd (tmux_enqueue r (s\<lparr>ts_reserved := rs @ qs\<rparr>)))"
| x_send_control: "tmux_send_control command (ts_state s) = Inr st \<Longrightarrow> tmux_step s (s\<lparr>ts_state := st\<rparr>)"
| x_control_recv: "tmux_step s (s\<lparr>ts_state := snd (tmux_control_recv pick (ts_state s))\<rparr>)"
| x_drop: "ts_permits s = ps @ p # qs \<Longrightarrow> tmux_drop_permit p (ts_state s) = Inr st \<Longrightarrow>
     tmux_step s (s\<lparr>ts_state := st, ts_permits := ps @ qs\<rparr>)"
| x_recv: "ts_receiver s = Receiving \<Longrightarrow> \<not> ts_draining s \<Longrightarrow> tmux_step s (tmux_recv s)"
| x_resume: "ts_receiver s = Receiving \<Longrightarrow> \<not> ts_draining s \<Longrightarrow>
     tmux_step s (s\<lparr>ts_state := tmux_resume (ts_state s)\<rparr>)"
| x_discard: "ts_receiver s = Receiving \<Longrightarrow> \<not> ts_draining s \<Longrightarrow>
     tmux_step s (s\<lparr>ts_state := tmux_suspend (ts_state s), ts_draining := True, ts_attach := ts_attach s + 1\<rparr>)"
| x_drain: "ts_receiver s = Receiving \<Longrightarrow> ts_draining s \<Longrightarrow> tmux_step s (tmux_drain s)"
| x_receiver_drop: "ts_receiver s = Receiving \<Longrightarrow> \<not> ts_draining s \<Longrightarrow>
     tmux_step s (s\<lparr>ts_state := (ts_state s)\<lparr>x_stopped := True\<rparr>, ts_receiver := Dropping\<rparr>)"
| x_rx_drop: "ts_receiver s = Dropping \<Longrightarrow>
     tmux_step s (s\<lparr>ts_queue := [], ts_permits := map (fst \<circ> snd) (ts_queue s) @ ts_permits s, ts_receiver := Gone\<rparr>)"

definition tmux_held :: "TmuxSystem \<Rightarrow> nat multiset" where
  "tmux_held s = mset (map (p_bytes \<circ> fst \<circ> snd) (ts_reserved s)) + mset (map (p_bytes \<circ> fst \<circ> snd) (ts_queue s)) +
     mset (map p_bytes (ts_permits s))"

lemma tmux_enqueue_books:
  assumes "t = snd (tmux_enqueue r s)"
  shows "ts_state t = ts_state s" "tmux_held t = add_mset (p_bytes (fst (snd r))) (tmux_held s)"
  using assms by (auto simp: tmux_enqueue_def tmux_held_def Let_def)

lemmas tmux_state_defs = tmux_send_control_def tmux_control_recv_def tmux_resume_def tmux_suspend_def

interpretation tmux: ledger "\<lambda>s. s = tmux_channel" tmux_step "\<lambda>s. x_bytes (ts_state s)"
  "\<lambda>s. x_items (ts_state s)" "\<lambda>s. x_peak_bytes (ts_state s)" tmux_held
proof unfold_locales
  fix s :: TmuxSystem assume "s = tmux_channel"
  then show "balanced (x_bytes (ts_state s)) (x_items (ts_state s)) (x_peak_bytes (ts_state s)) (tmux_held s)"
    by (simp add: tmux_channel_def tmux_default_def tmux_held_def balanced_empty)
next
  fix s t :: TmuxSystem
  assume b: "balanced (x_bytes (ts_state s)) (x_items (ts_state s)) (x_peak_bytes (ts_state s)) (tmux_held s)"
    and step: "tmux_step s t"
  from step b show "balanced (x_bytes (ts_state t)) (x_items (ts_state t)) (x_peak_bytes (ts_state t)) (tmux_held t)"
  proof cases
    case (x_begin command)
    then obtain permit st where r: "tmux_reserve (ts_receiver s = Gone) (tmux_cost command) (ts_state s) = Inr (permit, st)"
      and t: "t = s\<lparr>ts_state := st, ts_reserved := (command, permit, ts_attach s) # ts_reserved s\<rparr>"
      by (auto simp: tmux_begin_send_def and_then_Inr_iff)
    from r have "tmux_cost command \<le> BYTE_LIMIT - x_bytes (ts_state s)" "x_items (ts_state s) < ITEM_LIMIT"
      by (auto simp: tmux_reserve_def split: if_splits)
    from balanced_admit [OF b this] r show ?thesis
      by (auto simp: t tmux_reserve_def tmux_held_def split: if_splits)
  next
    case (x_enqueue rs r qs)
    have "tmux_held s = add_mset (p_bytes (fst (snd r))) (tmux_held (s\<lparr>ts_reserved := rs @ qs\<rparr>))"
      using x_enqueue by (simp add: tmux_held_def)
    with b tmux_enqueue_books [OF x_enqueue(1)] show ?thesis by simp
  next
    case (x_drop ps p qs st)
    have h: "tmux_held s = add_mset (p_bytes p) (tmux_held (s\<lparr>ts_permits := ps @ qs\<rparr>))"
      using x_drop by (simp add: tmux_held_def)
    from balanced_release [OF b [unfolded h]] x_drop show ?thesis
      by (auto simp: tmux_drop_permit_def tmux_held_def and_then_Inr_iff)
  qed (use b in \<open>auto simp: tmux_state_defs tmux_recv_def tmux_drain_def tmux_held_def Let_def o_assoc ac_simps
        split: list.splits if_splits SshCommand.splits\<close>)
qed

text \<open>
  Reservations carry the generation of their attachment, and outside a discard everything
  queued belongs to the current one.
\<close>

definition tagged :: "nat \<Rightarrow> reservation \<Rightarrow> bool" where
  "tagged n = (\<lambda>(command, permit, a). p_generation permit = of_nat a \<and> a \<le> n \<and>
     (\<forall>line. command = TmuxCommand line \<longrightarrow> validate_command line = Inr ()))"

definition tmux_inv :: "TmuxSystem \<Rightarrow> bool" where
  "tmux_inv s \<longleftrightarrow> x_generation (ts_state s) = of_nat (ts_attach s) \<and>
     list_all (tagged (ts_attach s)) (ts_reserved s) \<and> list_all (tagged (ts_attach s)) (ts_queue s) \<and>
     (ts_draining s \<longrightarrow> x_suspended (ts_state s)) \<and>
     (\<not> ts_draining s \<longrightarrow> (\<forall>(command, permit, a) \<in> set (ts_queue s). a = ts_attach s)) \<and>
     (\<forall>(command, a, b) \<in> set (ts_received s). a = b \<and>
        (\<forall>line. command = TmuxCommand line \<longrightarrow> validate_command line = Inr ()))"

lemma generation_inj:
  "(of_nat a :: u64) = of_nat b \<Longrightarrow> a \<le> b \<Longrightarrow> b < 2 ^ 64 \<Longrightarrow> a = b"
proof -
  assume e: "(of_nat a :: u64) = of_nat b" and b: "a \<le> b" "b < 2 ^ 64"
  have "unat (of_nat a :: u64) = a" by (rule unat_of_nat_small) (use b in simp)
  moreover have "unat (of_nat b :: u64) = b" by (rule unat_of_nat_small) (use b in simp)
  ultimately show ?thesis using e by metis
qed

lemma tagged_Suc: "list_all (tagged n) rs \<Longrightarrow> list_all (tagged (Suc n)) rs"
  by (erule list.pred_mono_strong) (auto simp: tagged_def)

lemma tmux_begin_inv:
  assumes "tmux_inv s" "tmux_begin_send command s = Inr t"
  shows "tmux_inv t"
proof -
  obtain permit st where v: "(case command of TmuxCommand line \<Rightarrow> validate_command line | _ \<Rightarrow> Inr ()) = Inr ()"
    and r: "tmux_reserve (ts_receiver s = Gone) (tmux_cost command) (ts_state s) = Inr (permit, st)"
    and t: "t = s\<lparr>ts_state := st, ts_reserved := (command, permit, ts_attach s) # ts_reserved s\<rparr>"
    using assms(2) by (auto simp: tmux_begin_send_def and_then_Inr_iff)
  have "p_generation permit = x_generation (ts_state s)" "x_generation st = x_generation (ts_state s)"
    "x_suspended st = x_suspended (ts_state s)"
    using r by (auto simp: tmux_reserve_def split: if_splits)
  moreover have "tagged (ts_attach s) (command, permit, ts_attach s)"
    using assms(1) v calculation(1) by (auto simp: tagged_def tmux_inv_def)
  ultimately show ?thesis using assms(1) by (simp add: tmux_inv_def t)
qed

lemma tmux_enqueue_inv:
  assumes inv: "tmux_inv s" and s: "ts_reserved s = rs @ r # qs" and bound: "ts_attach s < 2 ^ 64"
  shows "tmux_inv (snd (tmux_enqueue r (s\<lparr>ts_reserved := rs @ qs\<rparr>)))"
proof (cases "tmux_refuses (fst (snd r)) (ts_state s) \<or> ts_receiver s = Gone")
  case True
  then show ?thesis using inv s by (auto simp: tmux_enqueue_def tmux_inv_def Let_def)
next
  case False
  obtain command permit a where r: "r = (command, permit, a)" by (cases r)
  have tg: "tagged (ts_attach s) r" and g: "x_generation (ts_state s) = of_nat (ts_attach s)"
    using inv by (simp_all add: tmux_inv_def s)
  then have "a = ts_attach s"
    using False bound by (intro generation_inj) (auto simp: tagged_def r tmux_refuses_def)
  then show ?thesis using inv False tg
    by (auto simp: tmux_enqueue_def tmux_inv_def Let_def s r tmux_refuses_def)
qed

lemma tmux_attach_mono: "tmux_step s t \<Longrightarrow> ts_attach s \<le> ts_attach t"
  by (cases rule: tmux_step.cases, assumption)
    (auto simp: tmux_begin_send_def tmux_enqueue_def tmux_recv_def tmux_drain_def and_then_Inr_iff Let_def
      split: list.splits if_splits)

lemma tmux_inv_step:
  assumes inv: "tmux_inv s" and step: "tmux_step s t" and bound: "ts_attach s < 2 ^ 64"
  shows "tmux_inv t"
  using step
proof cases
  case x_begin
  with inv show ?thesis by (rule tmux_begin_inv)
next
  case x_enqueue
  with tmux_enqueue_inv [OF inv] bound show ?thesis by simp
next
  case x_recv
  then show ?thesis using inv
    by (auto simp: tmux_recv_def tmux_inv_def tagged_def split: list.splits)
next
  case x_drain
  then show ?thesis using inv
    by (auto simp: tmux_drain_def tmux_inv_def tagged_def split: list.splits)
next
  case x_discard
  then show ?thesis using inv tagged_Suc by (auto simp: tmux_inv_def tmux_suspend_def)
next
  case x_drop
  then show ?thesis using inv by (auto simp: tmux_inv_def tmux_drop_permit_def and_then_Inr_iff)
next
  case x_send_control
  then show ?thesis using inv
    by (auto simp: tmux_inv_def tmux_send_control_def split: if_splits SshCommand.splits)
qed (use inv in \<open>auto simp: tmux_inv_def tmux_control_recv_def tmux_resume_def Let_def\<close>)

lemma tmux_reach_inv:
  assumes "reachable (\<lambda>s. s = tmux_channel) tmux_step s"
  shows "ts_attach s < 2 ^ 64 \<longrightarrow> tmux_inv s"
  using assms
proof (rule reachable_invariant)
  show "ts_attach s < 2 ^ 64 \<longrightarrow> tmux_inv s" if "s = tmux_channel" for s
    using that by (simp add: tmux_channel_def tmux_default_def tmux_inv_def)
  show "ts_attach t < 2 ^ 64 \<longrightarrow> tmux_inv t" if "ts_attach s < 2 ^ 64 \<longrightarrow> tmux_inv s" "tmux_step s t" for s t
    using that tmux_attach_mono [OF that(2)] tmux_inv_step [of s t] by simp
qed

lemma tmux_send_steps: "tmux_step\<^sup>*\<^sup>* s (snd (tmux_send command s))"
proof (cases "tmux_begin_send command s")
  case (Inr t)
  then have "tmux_step s t" by (rule x_begin)
  moreover obtain r where t: "ts_reserved t = r # ts_reserved s"
    using Inr by (auto simp: tmux_begin_send_def and_then_Inr_iff)
  moreover from t have "tmux_step t (snd (tmux_enqueue r (t\<lparr>ts_reserved := ts_reserved s\<rparr>)))"
    using x_enqueue [of t "[]"] by simp
  ultimately show ?thesis using Inr
    by (auto simp: tmux_send_def split: SshCommand.splits sum.splits
        intro: tmux_step.x_send_control converse_rtranclp_into_rtranclp)
qed (auto simp: tmux_send_def split: SshCommand.splits sum.splits intro: tmux_step.x_send_control)


text \<open>A wait for capacity that ends well promises the next send.\<close>

lemma writer_wait_send:
  assumes "writer_wait_capacity (byte_cost command) cancelled st = Some (Inr ())"
  shows "writer_check_capacity (byte_cost command) st = Inr () \<and>
    (\<exists>st'. writer_send command st = Inr st' \<and> w_queue st' = w_queue st @ [command])"
  using assms
  by (auto simp: writer_wait_capacity_def writer_check_capacity_def writer_send_def Let_def split: if_splits)

lemma ssh_wait_write:
  assumes "ssh_wait_capacity (length data) cancelled (hs_state s) = Some (Inr ())" "hs_receiver s \<noteq> Gone"
  shows "fst (ssh_write data s) = Inr ()"
  using assms by (auto simp: ssh_wait_capacity_def ssh_write_def Let_def split: if_splits)


section \<open>Examples\<close>

definition example_writer :: WriterSystem where
  "example_writer =
     \<lparr>ws_state = \<lparr>w_queue = [TelnetControl [3]], w_bytes = 3, w_peak_bytes = 3, w_items = 2, w_stopped = False\<rparr>,
      ws_permits = [2], ws_accepted = [Write [1, 2], TelnetControl [3]], ws_delivered = [Write [1, 2]]\<rparr>"

lemma example_writer_reachable: "reachable writer_init writer_step example_writer"
proof -
  let ?s0 = "\<lparr>ws_state = writer_default, ws_permits = [], ws_accepted = [], ws_delivered = []\<rparr>"
  have "reachable writer_init writer_step ?s0" by (rule start) (simp add: writer_init_def)
  note move [OF this w_send [of "Write [1, 2]"]]
  note move [OF this w_send [of "TelnetControl [3]"]]
  note move [OF this w_receive [of False]]
  then show ?thesis
    by (simp add: writer_send_def writer_receive_def writer_default_def BYTE_LIMIT_def ITEM_LIMIT_def Let_def
        example_writer_def)
qed

definition example_ssh :: SshSystem where
  "example_ssh = snd (ssh_take (snd (ssh_write [3] (snd (ssh_write [1, 2] ssh_channel)))))"

lemma example_ssh_reachable: "reachable (\<lambda>s. s = ssh_channel) ssh_step example_ssh"
proof -
  have "hs_receiver (snd (ssh_write [3] (snd (ssh_write [1, 2] ssh_channel)))) = Receiving"
    by (simp add: ssh_write_def ssh_channel_def Let_def split: sum.split)
  moreover have "reachable (\<lambda>s. s = ssh_channel) ssh_step ssh_channel" by (rule start) (rule refl)
  note move [OF move [OF this h_write [of _ "[1, 2]"]] h_write [of _ "[3]"]]
  ultimately show ?thesis unfolding example_ssh_def by (blast intro: move h_take)
qed

definition example_tmux :: TmuxSystem where
  "example_tmux = tmux_recv (snd (tmux_send (TmuxCommand ''new-window'') tmux_channel))"

lemma example_tmux_send:
  "snd (tmux_send (TmuxCommand ''new-window'') tmux_channel) =
     tmux_channel\<lparr>ts_state := tmux_default\<lparr>x_bytes := 10, x_peak_bytes := 10, x_items := 1\<rparr>,
       ts_queue := [(TmuxCommand ''new-window'', \<lparr>p_bytes = 10, p_generation = 0\<rparr>, 0)]\<rparr>"
  by (simp add: tmux_send_def tmux_begin_send_def validate_command_def tmux_reserve_def tmux_enqueue_def tmux_refuses_def
      tmux_channel_def tmux_default_def BYTE_LIMIT_def ITEM_LIMIT_def Let_def)

lemma example_tmux:
  "ts_attach example_tmux = 0" "ts_received example_tmux = [(TmuxCommand ''new-window'', 0, 0)]"
  "ts_permits example_tmux = [\<lparr>p_bytes = 10, p_generation = 0\<rparr>]"
  unfolding example_tmux_def example_tmux_send by (simp_all add: tmux_recv_def tmux_channel_def)

lemma example_tmux_reachable: "reachable (\<lambda>s. s = tmux_channel) tmux_step example_tmux"
proof -
  have "reachable (\<lambda>s. s = tmux_channel) tmux_step (snd (tmux_send (TmuxCommand ''new-window'') tmux_channel))"
    by (rule reachable_steps [OF tmux_send_steps]) (rule start, rule refl)
  then show ?thesis unfolding example_tmux_def
    by (rule move) (rule x_recv; unfold example_tmux_send; simp add: tmux_channel_def)
qed


section \<open>Properties\<close>

text \<open>C21. However sends, receives, permit drops and stop interleave, the writer mailbox's byte and
  item counts are those of the queued commands and live permits and stay within the
  limits, and neither stopping nor dropping a live permit underflows a count. Commands come
  out in the order in which they were accepted; until the mailbox is stopped none is lost.\<close>

theorem writer_mailbox_sound:
  assumes "reachable writer_init writer_step s"
  shows "w_bytes (ws_state s) = sum_list (map byte_cost (w_queue (ws_state s))) + sum_list (ws_permits s) \<and>
    w_bytes (ws_state s) \<le> BYTE_LIMIT \<and> w_items (ws_state s) \<le> ITEM_LIMIT \<and>
    w_peak_bytes (ws_state s) \<le> BYTE_LIMIT \<and>
    (\<exists>st. writer_stop (ws_state s) = Inr st \<and> w_bytes st = sum_list (ws_permits s)) \<and>
    (\<forall>n \<in> set (ws_permits s). \<exists>st. writer_drop_permit n (ws_state s) = Inr st) \<and>
    prefix (ws_delivered s) (ws_accepted s) \<and>
    (\<not> w_stopped (ws_state s) \<longrightarrow> ws_accepted s = ws_delivered s @ w_queue (ws_state s))"
proof -
  have "w_bytes (ws_state s) = sum_list (map byte_cost (w_queue (ws_state s))) + sum_list (ws_permits s)"
    using writer.reach_balanced [OF assms] by (simp add: balanced_def writer_held_def flip: mset_map sum_mset_sum_list)
  moreover have "\<exists>st. writer_drop_permit n (ws_state s) = Inr st" if "n \<in> set (ws_permits s)" for n
    using writer.reach_release_ok [OF assms, of n] that by (intro writer_drop_ok) (simp add: writer_held_def)
  ultimately show ?thesis
    using writer.reach_limits [OF assms] writer_stop_ok [OF assms] writer_fifo_inv [OF assms] by blast
qed

theorem writer_mailbox_sound_witness:
  "\<exists>st. writer_stop (ws_state example_writer) = Inr st \<and> w_bytes st = 2"
  using writer_mailbox_sound [OF example_writer_reachable] by (simp add: example_writer_def)

text \<open>C22. The SSH input keeps the same books under every interleaving, hands out writes in
  order without losing any before the receiver is gone, and no permit drop underflows.\<close>

theorem ssh_mailbox_sound:
  assumes "reachable (\<lambda>s. s = ssh_channel) ssh_step s"
  shows "h_bytes (hs_state s) = sum_list (map length (hs_data s)) + sum_list (hs_permits s) \<and>
    h_bytes (hs_state s) \<le> BYTE_LIMIT \<and> h_items (hs_state s) \<le> ITEM_LIMIT \<and>
    prefix (hs_delivered s) (hs_accepted s) \<and>
    (hs_receiver s \<noteq> Gone \<longrightarrow> hs_accepted s = hs_delivered s @ hs_data s) \<and>
    (\<forall>n \<in> set (hs_permits s). \<exists>st. ssh_drop_permit n (hs_state s) = Inr st)"
proof -
  have "h_bytes (hs_state s) = sum_list (map length (hs_data s)) + sum_list (hs_permits s)"
    using ssh.reach_balanced [OF assms] by (simp add: balanced_def ssh_held_def flip: mset_map sum_mset_sum_list)
  moreover have "\<exists>st. ssh_drop_permit n (hs_state s) = Inr st" if "n \<in> set (hs_permits s)" for n
    using ssh.reach_release_ok [OF assms, of n] that by (simp add: ssh_held_def ssh_drop_permit_def)
  ultimately show ?thesis using ssh.reach_limits [OF assms] ssh_fifo_inv [OF assms] by blast
qed

theorem ssh_mailbox_sound_witness:
  "\<exists>st. ssh_drop_permit 2 (hs_state example_ssh) = Inr st"
  using ssh_mailbox_sound [OF example_ssh_reachable]
  by (simp add: example_ssh_def ssh_take_def ssh_write_def ssh_check_def ssh_channel_def ssh_default_def
      BYTE_LIMIT_def ITEM_LIMIT_def Let_def numeral_2_eq_2)

text \<open>Control commands overtake queued input: after any number of resizes the receiver
  sees the last one, once, before any write, and after a close only the close.\<close>

theorem ssh_control_first:
  assumes "rs \<noteq> []" "\<not> h_stopped (hs_state s)"
  shows "let t = s\<lparr>hs_state := fold ssh_resize rs (hs_state s)\<rparr>; (command, t') = ssh_try_recv t in
    command = Some (case last rs of (cols, rows, width, height) \<Rightarrow> Resize cols rows width height) \<and>
    ssh_try_recv t' = ssh_take t' \<and>
    fst (ssh_try_recv (s\<lparr>hs_state := ssh_close (hs_state s)\<rparr>)) = Some Close"
proof -
  have "fold ssh_resize rs st = st\<lparr>h_resize := Some (last rs)\<rparr>" for st
    using assms(1) by (induction rs arbitrary: st) (auto simp: ssh_resize_def)
  then show ?thesis using assms(2)
    by (auto simp: ssh_try_recv_def ssh_control_def ssh_close_def split: prod.splits)
qed

theorem ssh_control_first_witness:
  "fst (ssh_try_recv (ssh_channel\<lparr>hs_state := fold ssh_resize [(10, 20, 0, 0), (30, 40, 0, 0)] (hs_state ssh_channel)\<rparr>))
     = Some (Resize 30 40 0 0)"
  using ssh_control_first [of "[(10, 20, 0, 0), (30, 40, 0, 0)]" ssh_channel]
  by (simp add: ssh_channel_def ssh_default_def split: prod.splits)

text \<open>C2. No tmux command from a detached generation runs on a later attachment: every
  command received was reserved under the attachment current at that moment, even when a
  detach falls between its reservation and its enqueueing, and every command line received is
  a single line. The generation counter may count up to its width.\<close>

theorem tmux_no_stale_command:
  assumes "reachable (\<lambda>s. s = tmux_channel) tmux_step s" "ts_attach s < 2 ^ 64"
    and "(command, reserved_at, received_at) \<in> set (ts_received s)"
  shows "reserved_at = received_at \<and> (\<forall>line. command = TmuxCommand line \<longrightarrow> validate_command line = Inr ())"
  using tmux_reach_inv [OF assms(1)] assms(2,3) by (auto simp: tmux_inv_def)

theorem tmux_no_stale_command_witness:
  "(TmuxCommand ''new-window'', 0, 0) \<in> set (ts_received example_tmux) \<and>
   validate_command ''new-window'' = Inr ()"
proof -
  have "(TmuxCommand ''new-window'', 0, 0) \<in> set (ts_received example_tmux)" "ts_attach example_tmux < 2 ^ 64"
    by (simp_all add: example_tmux)
  with tmux_no_stale_command [OF example_tmux_reachable] show ?thesis by blast
qed

text \<open>All panes of a tmux client share one budget: under every interleaving the bytes and
  items of reserved, queued and received commands stay within the limits, and no permit drop
  underflows.\<close>

theorem tmux_mailbox_bounded:
  assumes "reachable (\<lambda>s. s = tmux_channel) tmux_step s"
  shows "x_bytes (ts_state s) = \<Sum>\<^sub># (tmux_held s) \<and> x_bytes (ts_state s) \<le> BYTE_LIMIT \<and>
    x_items (ts_state s) = length (ts_reserved s) + length (ts_queue s) + length (ts_permits s) \<and>
    x_items (ts_state s) \<le> ITEM_LIMIT \<and>
    (\<forall>p \<in> set (ts_permits s). \<exists>st. tmux_drop_permit p (ts_state s) = Inr st)"
proof -
  have "x_bytes (ts_state s) = \<Sum>\<^sub># (tmux_held s)"
    "x_items (ts_state s) = length (ts_reserved s) + length (ts_queue s) + length (ts_permits s)"
    using tmux.reach_balanced [OF assms] by (simp_all add: balanced_def tmux_held_def)
  moreover have "\<exists>st. tmux_drop_permit p (ts_state s) = Inr st" if "p \<in> set (ts_permits s)" for p
    using tmux.reach_release_ok [OF assms, of "p_bytes p"] that
    by (simp add: tmux_held_def tmux_drop_permit_def)
  ultimately show ?thesis using tmux.reach_limits [OF assms] by blast
qed

theorem tmux_mailbox_bounded_witness:
  "\<exists>st. tmux_drop_permit \<lparr>p_bytes = 10, p_generation = 0\<rparr> (ts_state example_tmux) = Inr st"
  using tmux_mailbox_bounded [OF example_tmux_reachable] by (simp add: example_tmux)

end
