(* ===== verification/Event_Queue.thy ===== *)
theory Event_Queue
  imports Prelude "HOL-Library.Sublist"
begin

text \<open>
  The queue of session events between the transport threads and the consumers
  (\<open>session_event_queue.rs\<close>): producers take turns, large output is split into chunks, output
  bytes are bounded with back-pressure between two watermarks, sessions can be cancelled and
  resumed, and consumers drain with budgets on events and output bytes.

  A critical section is one operation, and a waiting loop one operation per wake-up that may
  report \<open>Waiting\<close>. The payloads of the events that the queue never looks at are the type
  variables \<open>'n\<close> (notices), \<open>'c\<close> (command contexts) and \<open>'t\<close> (tmux states). \<open>usize\<close> has 64 bits
  where the code saturates.
\<close>


section \<open>Events\<close>

type_synonym SessionEventConsumerId = u64

datatype CleanupOperation = Terminate | Wait | ReaderJoin | WriterJoin | StartupFiles

datatype ('n, 'c, 't) SessionEvent =
    Notice string 'n
  | OutputBoundary string string
  | CleanupFailed string "SessionEventConsumerId option" CleanupOperation
  | Output string "u8 list"
  | OutputDropped string nat
  | CwdChanged string string
  | CommandContext string 'c
  | CommandAccepted string string
  | Exited string string
  | Error string string
  | TmuxState string 't

fun event_session_id :: "('n, 'c, 't) SessionEvent \<Rightarrow> string" where
  "event_session_id (Notice sid _) = sid"
| "event_session_id (OutputBoundary sid _) = sid"
| "event_session_id (CleanupFailed sid _ _) = sid"
| "event_session_id (Output sid _) = sid"
| "event_session_id (OutputDropped sid _) = sid"
| "event_session_id (CwdChanged sid _) = sid"
| "event_session_id (CommandContext sid _) = sid"
| "event_session_id (CommandAccepted sid _) = sid"
| "event_session_id (Exited sid _) = sid"
| "event_session_id (Error sid _) = sid"
| "event_session_id (TmuxState sid _) = sid"

fun is_output :: "('n, 'c, 't) SessionEvent \<Rightarrow> bool" where
  "is_output (Output _ _) = True"
| "is_output _ = False"

fun is_cleanup :: "('n, 'c, 't) SessionEvent \<Rightarrow> bool" where
  "is_cleanup (CleanupFailed _ _ _) = True"
| "is_cleanup _ = False"

fun output_len :: "('n, 'c, 't) SessionEvent \<Rightarrow> nat" where
  "output_len (Output _ data) = length data"
| "output_len _ = 0"


section \<open>The state under the lock\<close>

definition OUTPUT_LIMIT :: nat where "OUTPUT_LIMIT = 8 * 1024 * 1024"
definition OUTPUT_LOW_WATERMARK :: nat where "OUTPUT_LOW_WATERMARK = OUTPUT_LIMIT div 2"
definition OUTPUT_EVENT_LIMIT :: nat where "OUTPUT_EVENT_LIMIT = 256 * 1024"

lemmas output_limits = OUTPUT_LIMIT_def OUTPUT_LOW_WATERMARK_def OUTPUT_EVENT_LIMIT_def

record ('n, 'c, 't) SessionEventQueueInner =
  q_events :: "('n, 'c, 't) SessionEvent list"
  q_output_bytes :: nat
  q_peak_bytes :: nat
  q_backpressured :: bool
  q_producer_active :: bool
  q_closed :: bool
  q_cancelled :: "string set"
  q_consumers :: "string \<rightharpoonup> SessionEventConsumerId"

definition queue_default :: "('n, 'c, 't) SessionEventQueueInner" where
  "queue_default = \<lparr>q_events = [], q_output_bytes = 0, q_peak_bytes = 0, q_backpressured = False,
     q_producer_active = False, q_closed = False, q_cancelled = {}, q_consumers = Map.empty\<rparr>"

definition accepts :: "('n, 'c, 't) SessionEventQueueInner \<Rightarrow> string \<Rightarrow> bool" where
  "accepts inner sid \<longleftrightarrow> \<not> q_closed inner \<and> sid \<notin> q_cancelled inner"

definition session_cancelled :: "string \<Rightarrow> ('n, 'c, 't) SessionEventQueueInner \<Rightarrow> bool" where
  "session_cancelled sid inner \<longleftrightarrow> q_closed inner \<or> sid \<in> q_cancelled inner"

definition session_ended :: "string \<Rightarrow> ('n, 'c, 't) SessionEventQueueInner \<Rightarrow> bool" where
  "session_ended sid inner \<longleftrightarrow> q_closed inner \<or> sid \<in> q_cancelled inner \<or>
     list_ex (\<lambda>event. (case event of Exited _ _ \<Rightarrow> True | Error _ _ \<Rightarrow> True | _ \<Rightarrow> False) \<and>
       event_session_id event = sid) (q_events inner)"

definition resume_output :: "('n, 'c, 't) SessionEventQueueInner \<Rightarrow> bool \<times> ('n, 'c, 't) SessionEventQueueInner" where
  "resume_output inner =
     (if q_backpressured inner \<and> q_output_bytes inner \<le> OUTPUT_LOW_WATERMARK
      then (True, inner\<lparr>q_backpressured := False\<rparr>) else (False, inner))"


section \<open>Producers\<close>

datatype 's outcome = Refused | Pushed 's | Waiting 's

definition begin_push ::
  "string \<Rightarrow> ('n, 'c, 't) SessionEventQueueInner \<Rightarrow> ('n, 'c, 't) SessionEventQueueInner outcome" where
  "begin_push sid inner =
     (if \<not> accepts inner sid then Refused
      else if q_producer_active inner then Waiting inner
      else Pushed (inner\<lparr>q_producer_active := True\<rparr>))"

definition end_push :: "('n, 'c, 't) SessionEventQueueInner \<Rightarrow> ('n, 'c, 't) SessionEventQueueInner" where
  "end_push inner = inner\<lparr>q_producer_active := False\<rparr>"

definition push_output_chunk ::
  "string \<Rightarrow> u8 list \<Rightarrow> ('n, 'c, 't) SessionEventQueueInner \<Rightarrow> ('n, 'c, 't) SessionEventQueueInner outcome" where
  "push_output_chunk sid data inner =
     (if \<not> accepts inner sid then Refused
      else if \<not> q_backpressured inner \<and> saturating_add (q_output_bytes inner) (length data) \<le> OUTPUT_LIMIT then
        (let n = saturating_add (q_output_bytes inner) (length data);
             inner = inner\<lparr>q_output_bytes := n, q_peak_bytes := max (q_peak_bytes inner) n,
                           q_events := q_events inner @ [Output sid data]\<rparr>
         in Pushed (if OUTPUT_LIMIT \<le> n then inner\<lparr>q_backpressured := True\<rparr> else inner))
      else Waiting (inner\<lparr>q_backpressured := True\<rparr>))"

text \<open>The body of the loop of \<open>push_async\<close>, which the source writes separately.\<close>

definition push_async_chunk ::
  "string \<Rightarrow> u8 list \<Rightarrow> ('n, 'c, 't) SessionEventQueueInner \<Rightarrow> ('n, 'c, 't) SessionEventQueueInner outcome" where
  "push_async_chunk sid data inner =
     (if \<not> accepts inner sid then Refused
      else
        let fits = saturating_add (q_output_bytes inner) (length data) \<le> OUTPUT_LIMIT in
        if \<not> q_backpressured inner \<and> fits then
          (let n = q_output_bytes inner + length data in
           Pushed (inner\<lparr>q_output_bytes := n, q_peak_bytes := max (q_peak_bytes inner) n,
                         q_events := q_events inner @ [Output sid data],
                         q_backpressured := (OUTPUT_LIMIT \<le> n)\<rparr>))
        else Waiting (inner\<lparr>q_backpressured := True\<rparr>))"

lemma saturating_add_le:
  "saturating_add a b \<le> OUTPUT_LIMIT \<longleftrightarrow> a + b \<le> OUTPUT_LIMIT"
  "a + b \<le> OUTPUT_LIMIT \<Longrightarrow> saturating_add a b = a + b"
  by (auto simp: saturating_add_def OUTPUT_LIMIT_def min_def)

lemma push_async_chunk_eq: "push_async_chunk sid data inner = push_output_chunk sid data inner"
  by (auto simp: push_async_chunk_def push_output_chunk_def saturating_add_le Let_def)

function chunks :: "nat \<Rightarrow> 'a list \<Rightarrow> 'a list list" where
  "chunks n xs = (if xs = [] \<or> n = 0 then [] else take n xs # chunks n (drop n xs))"
  by auto
termination by (relation "measure (\<lambda>(n, xs). length xs)") (auto simp: length_greater_0_conv)

declare chunks.simps [simp del]

fun push_pieces :: "('n, 'c, 't) SessionEvent \<Rightarrow> ('n, 'c, 't) SessionEvent list" where
  "push_pieces (Output sid data) =
     map (Output sid) (filter (\<lambda>chunk. chunk \<noteq> []) (chunks OUTPUT_EVENT_LIMIT data))"
| "push_pieces event = [event]"

fun push_piece ::
  "('n, 'c, 't) SessionEvent \<Rightarrow> ('n, 'c, 't) SessionEventQueueInner \<Rightarrow> ('n, 'c, 't) SessionEventQueueInner outcome" where
  "push_piece (Output sid data) inner = push_output_chunk sid data inner"
| "push_piece event inner =
     (if \<not> accepts inner (event_session_id event) then Refused
      else Pushed (inner\<lparr>q_events := q_events inner @ [event]\<rparr>))"

text \<open>A whole push that no other thread interrupts; what is left when it has to wait.\<close>

fun push_all ::
  "('n, 'c, 't) SessionEvent list \<Rightarrow> ('n, 'c, 't) SessionEventQueueInner \<Rightarrow>
   ('n, 'c, 't) SessionEvent list \<times> ('n, 'c, 't) SessionEventQueueInner" where
  "push_all [] inner = ([], inner)"
| "push_all (e # es) inner = (case push_piece e inner of
     Refused \<Rightarrow> ([], inner) | Pushed inner \<Rightarrow> push_all es inner | Waiting inner \<Rightarrow> (e # es, inner))"

definition push_cleanup_failure ::
  "('n, 'c, 't) SessionEvent \<Rightarrow> ('n, 'c, 't) SessionEventQueueInner \<Rightarrow> ('n, 'c, 't) SessionEventQueueInner" where
  "push_cleanup_failure event inner =
     (if q_closed inner then inner
      else if 256 \<le> length (filter is_cleanup (q_events inner)) then inner
      else inner\<lparr>q_events := q_events inner @ [event]\<rparr>)"


section \<open>Sessions and consumers\<close>

definition cancel_session ::
  "string \<Rightarrow> ('n, 'c, 't) SessionEventQueueInner \<Rightarrow> ('n, 'c, 't) SessionEventQueueInner" where
  "cancel_session sid inner =
     (let removed = sum_list (map output_len (filter (\<lambda>e. event_session_id e = sid) (q_events inner))) in
      snd (resume_output (inner\<lparr>
        q_cancelled := insert sid (q_cancelled inner),
        q_consumers := (q_consumers inner)(sid := None),
        q_events := filter (\<lambda>e. event_session_id e \<noteq> sid) (q_events inner),
        q_output_bytes := q_output_bytes inner - removed\<rparr>)))"

definition resume_session ::
  "string \<Rightarrow> ('n, 'c, 't) SessionEventQueueInner \<Rightarrow> bool \<times> ('n, 'c, 't) SessionEventQueueInner" where
  "resume_session sid inner =
     (if sid = [] then (False, inner)
      else (sid \<in> q_cancelled inner, inner\<lparr>q_cancelled := q_cancelled inner - {sid}\<rparr>))"

definition assign_consumer ::
  "string \<Rightarrow> SessionEventConsumerId \<Rightarrow> ('n, 'c, 't) SessionEventQueueInner \<Rightarrow> ('n, 'c, 't) SessionEventQueueInner" where
  "assign_consumer sid consumer inner =
     (if sid = [] then inner else inner\<lparr>q_consumers := (q_consumers inner)(sid \<mapsto> consumer)\<rparr>)"

definition clear_consumer ::
  "string \<Rightarrow> SessionEventConsumerId \<Rightarrow> ('n, 'c, 't) SessionEventQueueInner \<Rightarrow> ('n, 'c, 't) SessionEventQueueInner" where
  "clear_consumer sid consumer inner =
     (if q_consumers inner sid = Some consumer then inner\<lparr>q_consumers := (q_consumers inner)(sid := None)\<rparr> else inner)"

definition consumer_for :: "string \<Rightarrow> ('n, 'c, 't) SessionEventQueueInner \<Rightarrow> SessionEventConsumerId option" where
  "consumer_for sid inner = q_consumers inner sid"

definition close_queue :: "('n, 'c, 't) SessionEventQueueInner \<Rightarrow> ('n, 'c, 't) SessionEventQueueInner" where
  "close_queue inner = inner\<lparr>q_closed := True\<rparr>"

definition event_belongs_to_consumer ::
  "(string \<rightharpoonup> SessionEventConsumerId) \<Rightarrow> SessionEventConsumerId \<Rightarrow> ('n, 'c, 't) SessionEvent \<Rightarrow> bool" where
  "event_belongs_to_consumer consumers consumer event =
     (case event of
        CleanupFailed _ owner _ \<Rightarrow> owner = Some consumer
      | _ \<Rightarrow> consumers (event_session_id event) = Some consumer)"

definition has_event_for_consumer :: "SessionEventConsumerId \<Rightarrow> ('n, 'c, 't) SessionEventQueueInner \<Rightarrow> bool" where
  "has_event_for_consumer consumer inner \<longleftrightarrow>
     list_ex (event_belongs_to_consumer (q_consumers inner) consumer) (q_events inner)"


section \<open>Draining\<close>

record SessionDrainStats =
  drained_events :: nat
  drained_output_bytes :: nat
  queued_events :: nat
  queued_output_bytes :: nat
  dropped_output_bytes :: nat

definition stats_default :: SessionDrainStats where
  "stats_default = \<lparr>drained_events = 0, drained_output_bytes = 0, queued_events = 0, queued_output_bytes = 0,
     dropped_output_bytes = 0\<rparr>"

definition account :: "('n, 'c, 't) SessionEvent \<Rightarrow> SessionDrainStats \<Rightarrow> SessionDrainStats" where
  "account event stats =
     (let stats = stats\<lparr>drained_events := saturating_add (drained_events stats) 1\<rparr> in
      case event of
        Output _ data \<Rightarrow> stats\<lparr>drained_output_bytes := saturating_add (drained_output_bytes stats) (length data)\<rparr>
      | OutputDropped _ n \<Rightarrow> stats\<lparr>dropped_output_bytes := saturating_add (dropped_output_bytes stats) n\<rparr>
      | _ \<Rightarrow> stats)"

text \<open>What a round of a drain takes of an event, within the budget left: nothing, a piece of
  output with the remainder, or the whole event.\<close>

fun take_piece ::
  "nat option \<Rightarrow> SessionDrainStats \<Rightarrow> ('n, 'c, 't) SessionEvent \<Rightarrow>
   (('n, 'c, 't) SessionEvent \<times> ('n, 'c, 't) SessionEvent list) option" where
  "take_piece (Some budget) stats (Output sid data) =
     (let remaining = budget - drained_output_bytes stats; n = min (length data) remaining in
      if remaining = 0 then None
      else if n < length data then Some (Output sid (take n data), [Output sid (drop n data)])
      else Some (Output sid data, []))"
| "take_piece _ stats event = Some (event, [])"

definition drain_step ::
  "nat option \<Rightarrow> ('n, 'c, 't) SessionEventQueueInner \<Rightarrow> SessionDrainStats \<Rightarrow>
   (('n, 'c, 't) SessionEvent \<times> ('n, 'c, 't) SessionEventQueueInner \<times> SessionDrainStats) option" where
  "drain_step budget inner stats =
     (case q_events inner of
        [] \<Rightarrow> None
      | event # post \<Rightarrow>
          if (case budget of Some m \<Rightarrow> m \<le> drained_output_bytes stats \<and> 0 < drained_events stats \<and> is_output event
                | None \<Rightarrow> False) then None
          else map_option (\<lambda>(piece, rest). (piece,
              inner\<lparr>q_events := rest @ post, q_output_bytes := q_output_bytes inner - output_len piece\<rparr>,
              account piece stats)) (take_piece budget stats event))"

definition consumer_step ::
  "SessionEventConsumerId \<Rightarrow> nat option \<Rightarrow> ('n, 'c, 't) SessionEventQueueInner \<Rightarrow> SessionDrainStats \<Rightarrow>
   (('n, 'c, 't) SessionEvent \<times> ('n, 'c, 't) SessionEventQueueInner \<times> SessionDrainStats) option" where
  "consumer_step consumer budget inner stats =
     (case List.extract (event_belongs_to_consumer (q_consumers inner) consumer) (q_events inner) of
        None \<Rightarrow> None
      | Some (pre, event, post) \<Rightarrow> map_option (\<lambda>(piece, rest). (piece,
          inner\<lparr>q_events := pre @ rest @ post, q_output_bytes := q_output_bytes inner - output_len piece\<rparr>,
          account piece stats)) (take_piece budget stats event))"

fun drain_rounds ::
  "(('n, 'c, 't) SessionEventQueueInner \<Rightarrow> SessionDrainStats \<Rightarrow>
     (('n, 'c, 't) SessionEvent \<times> ('n, 'c, 't) SessionEventQueueInner \<times> SessionDrainStats) option) \<Rightarrow>
   nat \<Rightarrow> ('n, 'c, 't) SessionEventQueueInner \<Rightarrow> SessionDrainStats \<Rightarrow>
   ('n, 'c, 't) SessionEvent list \<times> ('n, 'c, 't) SessionEventQueueInner \<times> SessionDrainStats" where
  "drain_rounds round 0 inner stats = ([], inner, stats)"
| "drain_rounds round (Suc n) inner stats =
     (case round inner stats of
        None \<Rightarrow> ([], inner, stats)
      | Some (event, inner, stats) \<Rightarrow>
          let (events, inner, stats) = drain_rounds round n inner stats in (event # events, inner, stats))"

definition drain_inner ::
  "nat \<Rightarrow> nat option \<Rightarrow> ('n, 'c, 't) SessionEventQueueInner \<Rightarrow>
   ('n, 'c, 't) SessionEvent list \<times> ('n, 'c, 't) SessionEventQueueInner \<times> SessionDrainStats" where
  "drain_inner max_events budget inner =
     (let (events, inner, stats) = drain_rounds (drain_step budget) max_events inner stats_default in
      (events, inner, stats\<lparr>queued_events := length (q_events inner), queued_output_bytes := q_output_bytes inner\<rparr>))"

definition drain_for_consumer ::
  "SessionEventConsumerId \<Rightarrow> nat \<Rightarrow> nat option \<Rightarrow> ('n, 'c, 't) SessionEventQueueInner \<Rightarrow>
   ('n, 'c, 't) SessionEvent list \<times> ('n, 'c, 't) SessionEventQueueInner \<times> SessionDrainStats" where
  "drain_for_consumer consumer max_events budget inner =
     (let (events, inner, stats) = drain_rounds (consumer_step consumer budget) max_events inner stats_default;
          mine = filter (event_belongs_to_consumer (q_consumers inner) consumer) (q_events inner)
      in (events, inner, stats\<lparr>queued_events := length mine, queued_output_bytes := sum_list (map output_len mine)\<rparr>))"

definition drain_with_output_budget ::
  "nat \<Rightarrow> nat option \<Rightarrow> ('n, 'c, 't) SessionEventQueueInner \<Rightarrow>
   (('n, 'c, 't) SessionEvent list \<times> SessionDrainStats) \<times> bool \<times> ('n, 'c, 't) SessionEventQueueInner" where
  "drain_with_output_budget max_events budget inner =
     (let (events, inner, stats) = drain_inner max_events budget inner in ((events, stats), resume_output inner))"

definition drain_consumer_with_output_budget ::
  "SessionEventConsumerId \<Rightarrow> nat \<Rightarrow> nat option \<Rightarrow> ('n, 'c, 't) SessionEventQueueInner \<Rightarrow>
   (('n, 'c, 't) SessionEvent list \<times> SessionDrainStats) \<times> bool \<times> ('n, 'c, 't) SessionEventQueueInner" where
  "drain_consumer_with_output_budget consumer max_events budget inner =
     (let (events, inner, stats) = drain_for_consumer consumer max_events budget inner in ((events, stats), resume_output inner))"

text \<open>The waits of the blocking variants: whether another round of sleep follows.\<close>

definition drain_waits :: "bool \<Rightarrow> ('n, 'c, 't) SessionEventQueueInner \<Rightarrow> bool" where
  "drain_waits timed_out inner \<longleftrightarrow> q_events inner = [] \<and> \<not> q_closed inner \<and> \<not> timed_out"

definition wait_for_consumer :: "SessionEventConsumerId \<Rightarrow> bool \<Rightarrow> ('n, 'c, 't) SessionEventQueueInner \<Rightarrow> bool" where
  "wait_for_consumer consumer timed_out inner \<longleftrightarrow>
     \<not> has_event_for_consumer consumer inner \<and> \<not> q_closed inner \<and> \<not> timed_out"


section \<open>What a drain keeps\<close>

datatype ('n, 'c, 't) item = Byte string u8 | Item "('n, 'c, 't) SessionEvent"

fun flat_event :: "('n, 'c, 't) SessionEvent \<Rightarrow> ('n, 'c, 't) item list" where
  "flat_event (Output sid data) = map (Byte sid) data"
| "flat_event event = [Item event]"

definition flat :: "('n, 'c, 't) SessionEvent list \<Rightarrow> ('n, 'c, 't) item list" where
  "flat events = concat (map flat_event events)"

definition stream_of :: "string \<Rightarrow> ('n, 'c, 't) SessionEvent list \<Rightarrow> ('n, 'c, 't) item list" where
  "stream_of sid events = flat (filter (\<lambda>e. event_session_id e = sid \<and> \<not> is_cleanup e) events)"

definition output_bytes :: "('n, 'c, 't) SessionEvent list \<Rightarrow> nat" where
  "output_bytes events = sum_list (map output_len events)"

lemma flat_simps [simp]: "flat [] = []" "flat (e # es) = flat_event e @ flat es" "flat (xs @ ys) = flat xs @ flat ys"
  by (simp_all add: flat_def)

lemma stream_of_append [simp]: "stream_of sid (xs @ ys) = stream_of sid xs @ stream_of sid ys" "stream_of sid [] = []"
  by (simp_all add: stream_of_def)

lemma output_bytes_simps [simp]: "output_bytes [] = 0" "output_bytes (e # es) = output_len e + output_bytes es"
  "output_bytes (xs @ ys) = output_bytes xs + output_bytes ys"
  by (simp_all add: output_bytes_def)

lemma output_bytes_split:
  "output_bytes (filter P es) + output_bytes (filter (\<lambda>e. \<not> P e) es) = output_bytes es"
  by (induction es) auto

lemma take_piece_flat:
  assumes "take_piece budget stats event = Some (piece, rest)"
  shows "flat (piece # rest) = flat [event]" "output_bytes (piece # rest) = output_len event"
    "\<forall>e \<in> set (piece # rest). event_session_id e = event_session_id event \<and> is_cleanup e = is_cleanup event"
  using assms
  by (cases budget; cases event; auto simp: Let_def min_def split: if_splits simp flip: map_append)+

text \<open>
  Taking a piece out of the queue: the events before it that are passed over are of other
  sessions or clean-up diagnostics.
\<close>

definition takes ::
  "('n, 'c, 't) SessionEventQueueInner \<Rightarrow> ('n, 'c, 't) SessionEvent \<Rightarrow> ('n, 'c, 't) SessionEventQueueInner \<Rightarrow> bool" where
  "takes inner piece inner' \<longleftrightarrow> (\<exists>pre event post rest budget stats.
     q_events inner = pre @ event # post \<and> take_piece budget stats event = Some (piece, rest) \<and>
     inner' = inner\<lparr>q_events := pre @ rest @ post, q_output_bytes := q_output_bytes inner - output_len piece\<rparr> \<and>
     (\<forall>e \<in> set pre. event_session_id e = event_session_id event \<longrightarrow> is_cleanup e \<or> is_cleanup event))"

inductive drains ::
  "('n, 'c, 't) SessionEventQueueInner \<Rightarrow> ('n, 'c, 't) SessionEvent list \<Rightarrow> ('n, 'c, 't) SessionEventQueueInner \<Rightarrow> bool" where
  drains_none: "drains inner [] inner"
| drains_piece: "takes inner piece inner' \<Longrightarrow> drains inner' pieces inner'' \<Longrightarrow> drains inner (piece # pieces) inner''"

lemma takes_keeps:
  assumes "takes inner piece inner'"
  shows "stream_of sid (q_events inner) = stream_of sid [piece] @ stream_of sid (q_events inner')"
    "output_bytes (q_events inner) = output_len piece + output_bytes (q_events inner')"
    "q_output_bytes inner' = q_output_bytes inner - output_len piece"
    "\<exists>events n. inner' = inner\<lparr>q_events := events, q_output_bytes := n\<rparr>"
proof -
  obtain pre event post rest budget stats where
    q: "q_events inner = pre @ event # post" and tp: "take_piece budget stats event = Some (piece, rest)"
    and i: "inner' = inner\<lparr>q_events := pre @ rest @ post, q_output_bytes := q_output_bytes inner - output_len piece\<rparr>"
    and pre: "\<forall>e \<in> set pre. event_session_id e = event_session_id event \<longrightarrow> is_cleanup e \<or> is_cleanup event"
    using assms unfolding takes_def by blast
  note tpf = take_piece_flat [OF tp]
  show "output_bytes (q_events inner) = output_len piece + output_bytes (q_events inner')"
    using tpf(2) by (simp add: q i)
  show "stream_of sid (q_events inner) = stream_of sid [piece] @ stream_of sid (q_events inner')"
  proof (cases "event_session_id event = sid \<and> \<not> is_cleanup event")
    case True
    then have "filter (\<lambda>e. event_session_id e = sid \<and> \<not> is_cleanup e) pre = []"
      using pre by (auto simp: filter_empty_conv)
    moreover have "filter (\<lambda>e. event_session_id e = sid \<and> \<not> is_cleanup e) (piece # rest) = piece # rest"
      using tpf(3) True by (auto simp: filter_id_conv)
    ultimately show ?thesis using True tpf(1) by (auto simp: q i stream_of_def filter_id_conv)
  next
    case False
    then have "filter (\<lambda>e. event_session_id e = sid \<and> \<not> is_cleanup e) (piece # rest) = []"
      using tpf(3) by (auto simp: filter_empty_conv)
    then have "stream_of sid rest = []" "stream_of sid [piece] = []"
      by (auto simp: stream_of_def split: if_splits)
    moreover have "stream_of sid (event # post) = stream_of sid post" using False by (auto simp: stream_of_def)
    ultimately show ?thesis by (simp add: q i)
  qed
qed (use assms in \<open>auto simp: takes_def\<close>)

lemma drains_keeps:
  assumes "drains inner pieces inner'"
  shows "stream_of sid (q_events inner) = stream_of sid pieces @ stream_of sid (q_events inner')"
    and "output_bytes (q_events inner) = output_bytes pieces + output_bytes (q_events inner')"
    and "q_output_bytes inner' = q_output_bytes inner - output_bytes pieces"
    and "\<exists>events n. inner' = inner\<lparr>q_events := events, q_output_bytes := n\<rparr>"
  using assms
proof induction
  case (drains_none inner)
  { case 4
    have "inner = inner\<lparr>q_events := q_events inner, q_output_bytes := q_output_bytes inner\<rparr>" by simp
    then show ?case by blast }
next
  case (drains_piece inner piece inner' pieces inner'')
  note tk = takes_keeps [OF drains_piece(1)]
  { case 1 show ?case using tk(1) [of sid] drains_piece.IH(1) stream_of_append(1) [of sid "[piece]" pieces] by simp }
  { case 2 show ?case using tk(2) drains_piece.IH(2) by simp }
  { case 3 show ?case using tk(3) drains_piece.IH(3) by simp }
  { case 4 show ?case using tk(4) drains_piece.IH(4) by fastforce }
qed simp_all

lemma drain_step_takes: "drain_step budget inner stats = Some (piece, inner', stats') \<Longrightarrow> takes inner piece inner'"
  unfolding takes_def by (rule exI [of _ "[]"]) (auto simp: drain_step_def split: list.splits if_splits)

lemma consumer_step_takes:
  assumes "consumer_step consumer budget inner stats = Some (piece, inner', stats')"
  shows "takes inner piece inner'"
proof -
  obtain pre event post rest where
    x: "List.extract (event_belongs_to_consumer (q_consumers inner) consumer) (q_events inner) = Some (pre, event, post)"
    and tp: "take_piece budget stats event = Some (piece, rest)"
    and i: "inner' = inner\<lparr>q_events := pre @ rest @ post, q_output_bytes := q_output_bytes inner - output_len piece\<rparr>"
    using assms by (auto simp: consumer_step_def split: option.splits)
  have q: "q_events inner = pre @ event # post" "event_belongs_to_consumer (q_consumers inner) consumer event"
    "\<forall>e \<in> set pre. \<not> event_belongs_to_consumer (q_consumers inner) consumer e"
    using x by (auto simp: extract_Some_iff)
  have "is_cleanup e \<or> is_cleanup event" if "e \<in> set pre" "event_session_id e = event_session_id event" for e
    using q(2) q(3) [rule_format, OF that(1)] that(2)
    by (cases e; cases event) (auto simp: event_belongs_to_consumer_def)
  with q(1) tp i show ?thesis unfolding takes_def by blast
qed

lemma drain_rounds_drains:
  assumes "\<And>inner stats piece inner' stats'. round inner stats = Some (piece, inner', stats') \<Longrightarrow> takes inner piece inner'"
    and "drain_rounds round n inner stats = (events, inner', stats')"
  shows "drains inner events inner' \<and> length events \<le> n"
  using assms(2)
proof (induction n arbitrary: inner stats events)
  case (Suc n)
  show ?case
  proof (cases "round inner stats")
    case None
    with Suc.prems show ?thesis by (simp add: drains_none)
  next
    case (Some r)
    then obtain piece i st where r: "round inner stats = Some (piece, i, st)" by (cases r) auto
    then obtain es where "drain_rounds round n i st = (es, inner', stats')" "events = piece # es"
      using Suc.prems by (auto split: prod.splits)
    then show ?thesis using Suc.IH assms(1) [OF r] by (auto intro: drains_piece)
  qed
qed (simp add: drains_none)

lemma drain_inner_drains:
  assumes "drain_inner n budget inner = (events, inner', stats)"
  shows "drains inner events inner' \<and> length events \<le> n"
proof -
  obtain st where r: "drain_rounds (drain_step budget) n inner stats_default = (events, inner', st)"
    using assms by (auto simp: drain_inner_def Let_def split: prod.splits)
  show ?thesis by (rule drain_rounds_drains [OF _ r]) (rule drain_step_takes)
qed

lemma drain_for_consumer_drains:
  assumes "drain_for_consumer consumer n budget inner = (events, inner', stats)"
  shows "drains inner events inner' \<and> length events \<le> n"
proof -
  obtain st where r: "drain_rounds (consumer_step consumer budget) n inner stats_default = (events, inner', st)"
    using assms by (auto simp: drain_for_consumer_def Let_def split: prod.splits)
  show ?thesis by (rule drain_rounds_drains [OF _ r]) (rule consumer_step_takes)
qed

text \<open>Budgets.\<close>

definition spends :: "nat \<Rightarrow> (('n, 'c, 't) SessionEventQueueInner \<Rightarrow> SessionDrainStats \<Rightarrow>
     (('n, 'c, 't) SessionEvent \<times> ('n, 'c, 't) SessionEventQueueInner \<times> SessionDrainStats) option) \<Rightarrow> bool" where
  "spends m round \<longleftrightarrow> (\<forall>inner stats piece inner' stats'. round inner stats = Some (piece, inner', stats') \<longrightarrow>
     stats' = account piece stats \<and> output_len piece \<le> m - drained_output_bytes stats)"

lemma take_piece_budget:
  "take_piece (Some m) stats event = Some (piece, rest) \<Longrightarrow> output_len piece \<le> m - drained_output_bytes stats"
  by (cases event) (auto simp: Let_def min_def split: if_splits)

lemma spends_steps: "spends m (drain_step (Some m))" "spends m (consumer_step consumer (Some m))"
  using take_piece_budget
  by (fastforce simp: spends_def drain_step_def consumer_step_def split: list.splits if_splits option.splits)+

lemma account_bytes:
  assumes "output_len piece \<le> m - drained_output_bytes stats" "drained_output_bytes stats \<le> m" "m < 2 ^ 64"
  shows "drained_output_bytes (account piece stats) = drained_output_bytes stats + output_len piece"
  using assms by (cases piece) (auto simp: account_def saturating_add_def Let_def)

lemma drain_rounds_budget:
  assumes "spends m round" "drained_output_bytes stats \<le> m" "m < 2 ^ 64"
    and "drain_rounds round n inner stats = (events, inner', stats')"
  shows "drained_output_bytes stats' = drained_output_bytes stats + output_bytes events \<and> drained_output_bytes stats' \<le> m"
  using assms(2,4)
proof (induction n arbitrary: inner stats events)
  case (Suc n)
  show ?case
  proof (cases "round inner stats")
    case None
    with Suc.prems show ?thesis by simp
  next
    case (Some r)
    then obtain piece i st where r: "round inner stats = Some (piece, i, st)" by (cases r) auto
    then have st: "st = account piece stats" and b: "output_len piece \<le> m - drained_output_bytes stats"
      using assms(1) by (auto simp: spends_def)
    obtain es where es: "drain_rounds round n i st = (es, inner', stats')" "events = piece # es"
      using r Suc.prems by (auto split: prod.splits)
    have a: "drained_output_bytes st = drained_output_bytes stats + output_len piece"
      unfolding st by (rule account_bytes [OF b Suc.prems(1) assms(3)])
    moreover have "drained_output_bytes st \<le> m" using a b Suc.prems(1) by linarith
    ultimately show ?thesis using Suc.IH [OF _ es(1)] es(2) by simp
  qed
qed simp

lemma drain_progress:
  assumes "q_events inner \<noteq> []" "0 < n" "budget \<noteq> Some 0"
  shows "fst (drain_inner n budget inner) \<noteq> []"
proof -
  obtain event post where q: "q_events inner = event # post" using assms(1) by (cases "q_events inner") auto
  have "drain_step budget inner stats_default \<noteq> None"
    using assms(3) by (cases budget; cases event) (auto simp: drain_step_def q stats_default_def Let_def)
  then show ?thesis using assms(2)
    by (cases n) (auto simp: drain_inner_def Let_def split: prod.splits)
qed


section \<open>Threads around the queue\<close>

text \<open>
  \<open>e_turn\<close> is the producer that holds the turn with what it still has to push, \<open>e_parked\<close> tells
  that it sleeps for output space, and \<open>e_starters\<close> are the sessions of the producers that sleep
  for the turn. A notification clears the sleepers it reaches; condition variables may also
  wake without one. \<open>e_offered\<close> and \<open>e_drained\<close> record the events whose push began and the
  events handed to consumers, \<open>e_ever\<close> the sessions that were ever cancelled.
\<close>

record ('n, 'c, 't) QueueSystem =
  e_inner :: "('n, 'c, 't) SessionEventQueueInner"
  e_turn :: "(string \<times> ('n, 'c, 't) SessionEvent list) option"
  e_parked :: bool
  e_starters :: "string list"
  e_offered :: "('n, 'c, 't) SessionEvent list"
  e_drained :: "('n, 'c, 't) SessionEvent list"
  e_ever :: "string set"

definition queue_init :: "('n, 'c, 't) QueueSystem \<Rightarrow> bool" where
  "queue_init s \<longleftrightarrow> s = \<lparr>e_inner = queue_default, e_turn = None, e_parked = False, e_starters = [],
     e_offered = [], e_drained = [], e_ever = {}\<rparr>"

inductive queue_step :: "('n, 'c, 't) QueueSystem \<Rightarrow> ('n, 'c, 't) QueueSystem \<Rightarrow> bool" where
  e_begin: "begin_push (event_session_id event) (e_inner s) = Pushed inner \<Longrightarrow>
     queue_step s (s\<lparr>e_inner := inner, e_turn := Some (event_session_id event, push_pieces event),
                     e_offered := e_offered s @ [event]\<rparr>)"
| e_begin_wait: "begin_push sid (e_inner s) = Waiting inner \<Longrightarrow>
     queue_step s (s\<lparr>e_inner := inner, e_starters := sid # e_starters s\<rparr>)"
| e_push: "e_turn s = Some (sid, e # es) \<Longrightarrow> \<not> e_parked s \<Longrightarrow> push_piece e (e_inner s) = Pushed inner \<Longrightarrow>
     queue_step s (s\<lparr>e_inner := inner, e_turn := Some (sid, es)\<rparr>)"
| e_push_wait: "e_turn s = Some (sid, e # es) \<Longrightarrow> \<not> e_parked s \<Longrightarrow> push_piece e (e_inner s) = Waiting inner \<Longrightarrow>
     queue_step s (s\<lparr>e_inner := inner, e_parked := True\<rparr>)"
| e_push_refused: "e_turn s = Some (sid, e # es) \<Longrightarrow> \<not> e_parked s \<Longrightarrow> push_piece e (e_inner s) = Refused \<Longrightarrow>
     queue_step s (s\<lparr>e_turn := Some (sid, [])\<rparr>)"
| e_end: "e_turn s = Some (sid, []) \<Longrightarrow>
     queue_step s (s\<lparr>e_inner := end_push (e_inner s), e_turn := None, e_starters := []\<rparr>)"
| e_wake: "queue_step s (s\<lparr>e_parked := False\<rparr>)"
| e_wake_starter: "e_starters s = ps @ sid # qs \<Longrightarrow> queue_step s (s\<lparr>e_starters := ps @ qs\<rparr>)"
| e_cleanup: "is_cleanup event \<Longrightarrow> queue_step s (s\<lparr>e_inner := push_cleanup_failure event (e_inner s)\<rparr>)"
| e_cancel: "queue_step s (s\<lparr>e_inner := cancel_session sid (e_inner s), e_parked := False, e_starters := [],
     e_ever := insert sid (e_ever s)\<rparr>)"
| e_resume: "resume_session sid (e_inner s) = (resumed, inner) \<Longrightarrow>
     queue_step s (s\<lparr>e_inner := inner, e_starters := (if resumed then [] else e_starters s)\<rparr>)"
| e_assign: "queue_step s (s\<lparr>e_inner := assign_consumer sid consumer (e_inner s)\<rparr>)"
| e_clear: "queue_step s (s\<lparr>e_inner := clear_consumer sid consumer (e_inner s)\<rparr>)"
| e_close: "queue_step s (s\<lparr>e_inner := close_queue (e_inner s), e_parked := False, e_starters := []\<rparr>)"
| e_drain: "drain_with_output_budget n budget (e_inner s) = ((events, stats), resumed, inner) \<Longrightarrow>
     queue_step s (s\<lparr>e_inner := inner, e_parked := (e_parked s \<and> \<not> resumed), e_drained := e_drained s @ events\<rparr>)"
| e_drain_consumer:
     "drain_consumer_with_output_budget consumer n budget (e_inner s) = ((events, stats), resumed, inner) \<Longrightarrow>
     queue_step s (s\<lparr>e_inner := inner, e_parked := (e_parked s \<and> \<not> resumed), e_drained := e_drained s @ events\<rparr>)"

text \<open>The invariant of the state under the lock.\<close>

definition inner_inv :: "('n, 'c, 't) SessionEventQueueInner \<Rightarrow> bool" where
  "inner_inv inner \<longleftrightarrow> q_output_bytes inner = output_bytes (q_events inner) \<and> q_output_bytes inner \<le> q_peak_bytes inner \<and>
     q_peak_bytes inner \<le> OUTPUT_LIMIT \<and> (q_backpressured inner \<longrightarrow> OUTPUT_LOW_WATERMARK < q_output_bytes inner)"

definition piece_ok :: "string \<Rightarrow> ('n, 'c, 't) SessionEvent \<Rightarrow> bool" where
  "piece_ok sid e \<longleftrightarrow> event_session_id e = sid \<and> output_len e \<le> OUTPUT_EVENT_LIMIT"

definition thread_inv :: "('n, 'c, 't) QueueSystem \<Rightarrow> bool" where
  "thread_inv s \<longleftrightarrow>
     (q_producer_active (e_inner s) \<longleftrightarrow> e_turn s \<noteq> None) \<and>
     (\<forall>sid es. e_turn s = Some (sid, es) \<longrightarrow> list_all (piece_ok sid) es) \<and>
     (e_parked s \<longrightarrow> q_backpressured (e_inner s) \<and>
        (\<exists>sid e es. e_turn s = Some (sid, e # es) \<and> accepts (e_inner s) sid)) \<and>
     (\<forall>sid \<in> set (e_starters s). e_turn s \<noteq> None \<and> accepts (e_inner s) sid)"

definition turn_rest :: "('n, 'c, 't) QueueSystem \<Rightarrow> ('n, 'c, 't) SessionEvent list" where
  "turn_rest s = (case e_turn s of None \<Rightarrow> [] | Some (sid, es) \<Rightarrow> es)"

definition stream_inv :: "string \<Rightarrow> ('n, 'c, 't) QueueSystem \<Rightarrow> bool" where
  "stream_inv sid s \<longleftrightarrow> (sid \<notin> e_ever s \<longrightarrow> sid \<notin> q_cancelled (e_inner s) \<and>
     (\<exists>rest. stream_of sid (e_offered s) = stream_of sid (e_drained s) @ stream_of sid (q_events (e_inner s)) @ rest \<and>
       (\<not> q_closed (e_inner s) \<longrightarrow> rest = stream_of sid (turn_rest s))))"

lemma resume_output_inv:
  assumes "resume_output inner = (resumed, inner')"
    and "inner_inv (inner\<lparr>q_backpressured := False\<rparr>)"
  shows "inner_inv inner'" "inner' = inner\<lparr>q_backpressured := (q_backpressured inner \<and> \<not> resumed)\<rparr>"
  using assms by (auto simp: resume_output_def inner_inv_def split: if_splits)

lemma push_output_chunk_cases:
  obtains (refused) "\<not> accepts inner sid" "push_output_chunk sid data inner = Refused"
  | (pushed) "accepts inner sid" "\<not> q_backpressured inner" "q_output_bytes inner + length data \<le> OUTPUT_LIMIT"
      "push_output_chunk sid data inner = Pushed (inner\<lparr>q_events := q_events inner @ [Output sid data],
         q_output_bytes := q_output_bytes inner + length data,
         q_peak_bytes := max (q_peak_bytes inner) (q_output_bytes inner + length data),
         q_backpressured := (OUTPUT_LIMIT \<le> q_output_bytes inner + length data)\<rparr>)"
  | (waiting) "accepts inner sid" "q_backpressured inner \<or> OUTPUT_LIMIT < q_output_bytes inner + length data"
      "push_output_chunk sid data inner = Waiting (inner\<lparr>q_backpressured := True\<rparr>)"
  unfolding push_async_chunk_eq [symmetric]
  by (cases "accepts inner sid"; cases "q_backpressured inner"; cases "q_output_bytes inner + length data \<le> OUTPUT_LIMIT")
    (auto simp: push_async_chunk_def saturating_add_le Let_def)

lemma push_piece_cases:
  obtains (refused) "\<not> accepts inner (event_session_id e)" "push_piece e inner = Refused"
  | (pushed) p b where "accepts inner (event_session_id e)"
      "push_piece e inner = Pushed (inner\<lparr>q_events := q_events inner @ [e],
         q_output_bytes := q_output_bytes inner + output_len e, q_peak_bytes := p, q_backpressured := b\<rparr>)"
      "inner_inv inner \<longrightarrow> max (q_peak_bytes inner) (q_output_bytes inner + output_len e) \<le> p \<and> p \<le> OUTPUT_LIMIT \<and>
         (b \<longrightarrow> OUTPUT_LOW_WATERMARK < q_output_bytes inner + output_len e)"
  | (waiting) sid data where "e = Output sid data" "accepts inner (event_session_id e)"
      "q_backpressured inner \<or> OUTPUT_LIMIT < q_output_bytes inner + output_len e"
      "push_piece e inner = Waiting (inner\<lparr>q_backpressured := True\<rparr>)"
proof (cases "is_output e")
  case True
  then obtain sid data where e: "e = Output sid data" by (cases e) auto
  note out = refused pushed waiting
  show thesis
  proof (cases rule: push_output_chunk_cases [of inner sid data])
    case refused
    then show ?thesis by (intro out(1)) (auto simp: e)
  next
    case pushed
    then show ?thesis
      by (intro out(2) [where p = "max (q_peak_bytes inner) (q_output_bytes inner + length data)"
          and b = "OUTPUT_LIMIT \<le> q_output_bytes inner + length data"])
        (auto simp: e output_limits inner_inv_def)
  next
    case waiting
    then show ?thesis by (intro out(3) [where sid = sid and data = data]) (auto simp: e)
  qed
next
  case False
  then have p: "push_piece e inner = (if \<not> accepts inner (event_session_id e) then Refused
      else Pushed (inner\<lparr>q_events := q_events inner @ [e]\<rparr>))" and z: "output_len e = 0"
    by (cases e; simp)+
  show thesis
  proof (cases "accepts inner (event_session_id e)")
    case True
    then show ?thesis
      by (intro pushed [where p = "q_peak_bytes inner" and b = "q_backpressured inner"]) (auto simp: p z inner_inv_def)
  qed (intro refused, auto simp: p)
qed

lemma push_piece_inv:
  assumes "inner_inv inner" "output_len e \<le> OUTPUT_EVENT_LIMIT"
  shows "push_piece e inner = Pushed inner' \<Longrightarrow> inner_inv inner'"
    and "push_piece e inner = Waiting inner' \<Longrightarrow> inner_inv inner'"
proof -
  show "inner_inv inner'" if "push_piece e inner = Pushed inner'"
    by (cases rule: push_piece_cases [of inner e]) (use assms that in \<open>auto simp: inner_inv_def\<close>)
  show "inner_inv inner'" if "push_piece e inner = Waiting inner'"
    by (cases rule: push_piece_cases [of inner e]) (use assms that in \<open>auto simp: inner_inv_def output_limits\<close>)
qed

lemma drains_inner_inv:
  assumes "drains inner events inner'" "inner_inv inner"
  shows "inner_inv (inner'\<lparr>q_backpressured := False\<rparr>)"
proof -
  obtain es n where "inner' = inner\<lparr>q_events := es, q_output_bytes := n\<rparr>" using drains_keeps(4) [OF assms(1)] by blast
  then show ?thesis using drains_keeps(2,3) [OF assms(1)] assms(2) by (auto simp: inner_inv_def)
qed

lemma drain_result:
  "drain_with_output_budget n budget inner = ((events, stats), resumed, inner'') \<Longrightarrow>
     \<exists>inner'. drains inner events inner' \<and> resume_output inner' = (resumed, inner'')"
  "drain_consumer_with_output_budget consumer n budget inner = ((events, stats), resumed, inner'') \<Longrightarrow>
     \<exists>inner'. drains inner events inner' \<and> resume_output inner' = (resumed, inner'')"
  using drain_inner_drains drain_for_consumer_drains
  by (fastforce simp: drain_with_output_budget_def drain_consumer_with_output_budget_def Let_def split: prod.splits)+

lemma drain_effect:
  assumes "\<exists>inner'. drains inner events inner' \<and> resume_output inner' = (resumed, inner'')" "inner_inv inner"
  shows "inner_inv inner''"
    "stream_of sid (q_events inner) = stream_of sid events @ stream_of sid (q_events inner'')"
    "\<exists>es n. inner'' = inner\<lparr>q_events := es, q_output_bytes := n, q_backpressured := (q_backpressured inner \<and> \<not> resumed)\<rparr>"
proof -
  obtain i where d: "drains inner events i" and r: "resume_output i = (resumed, inner'')" using assms(1) by blast
  note rr = resume_output_inv [OF r drains_inner_inv [OF d assms(2)]]
  show "inner_inv inner''" by (rule rr(1))
  have "q_events inner'' = q_events i" unfolding rr(2) by simp
  then show "stream_of sid (q_events inner) = stream_of sid events @ stream_of sid (q_events inner'')"
    using drains_keeps(1) [OF d] by simp
  obtain es n where i: "i = inner\<lparr>q_events := es, q_output_bytes := n\<rparr>" using drains_keeps(4) [OF d] by blast
  have "inner'' = inner\<lparr>q_events := es, q_output_bytes := n, q_backpressured := (q_backpressured inner \<and> \<not> resumed)\<rparr>"
    unfolding rr(2) i by simp
  then show "\<exists>es n. inner'' = inner\<lparr>q_events := es, q_output_bytes := n, q_backpressured := (q_backpressured inner \<and> \<not> resumed)\<rparr>"
    by blast
qed

lemma output_bytes_filter: "sum_list (map output_len (filter P es)) = output_bytes (filter P es)"
  by (simp add: output_bytes_def)

lemma cancel_session_inv:
  assumes "inner_inv inner"
  shows "inner_inv (cancel_session sid inner)"
proof -
  let ?removed = "output_bytes (filter (\<lambda>e. event_session_id e = sid) (q_events inner))"
  let ?inner = "inner\<lparr>q_cancelled := insert sid (q_cancelled inner), q_consumers := (q_consumers inner)(sid := None),
        q_events := filter (\<lambda>e. event_session_id e \<noteq> sid) (q_events inner),
        q_output_bytes := q_output_bytes inner - ?removed\<rparr>"
  have "inner_inv (?inner\<lparr>q_backpressured := False\<rparr>)"
    using assms output_bytes_split [of "\<lambda>e. event_session_id e = sid" "q_events inner"]
    by (auto simp: inner_inv_def)
  from resume_output_inv(1) [OF surjective_pairing this] show ?thesis
    by (simp add: cancel_session_def Let_def output_bytes_filter)
qed

lemma cancel_session_frame:
  "\<exists>b n. cancel_session sid inner = inner\<lparr>q_cancelled := insert sid (q_cancelled inner),
     q_consumers := (q_consumers inner)(sid := None),
     q_events := filter (\<lambda>e. event_session_id e \<noteq> sid) (q_events inner), q_output_bytes := n, q_backpressured := b\<rparr>"
proof -
  have "\<exists>b. snd (resume_output inner) = inner\<lparr>q_backpressured := b\<rparr>" for inner :: "('a, 'b, 'c) SessionEventQueueInner"
    by (cases "fst (resume_output inner)")
      (auto simp: resume_output_def intro: exI [of _ False] exI [of _ "q_backpressured inner"])
  then show ?thesis unfolding cancel_session_def Let_def by fastforce
qed

lemma chunks_lengths: "list_all (\<lambda>c. length c \<le> n) (chunks n xs)"
  by (induction n xs rule: chunks.induct) (subst chunks.simps, simp)

lemma concat_chunks: "0 < n \<Longrightarrow> concat (chunks n xs) = xs"
  by (induction n xs rule: chunks.induct) (subst chunks.simps, simp)

lemma push_pieces_ok: "list_all (piece_ok (event_session_id event)) (push_pieces event)"
  using chunks_lengths [of OUTPUT_EVENT_LIMIT]
  by (cases event) (auto simp: piece_ok_def list_all_iff)

lemma flat_outputs: "flat (map (Output sid) (filter (\<lambda>c. c \<noteq> []) cs)) = map (Byte sid) (concat cs)"
  by (induction cs) auto

lemma flat_push_pieces: "flat (push_pieces event) = flat [event]"
proof (cases event)
  case (Output sid data)
  then show ?thesis using concat_chunks [of OUTPUT_EVENT_LIMIT data] by (simp add: flat_outputs OUTPUT_EVENT_LIMIT_def)
qed auto

lemma push_pieces_same:
  "e \<in> set (push_pieces event) \<Longrightarrow> event_session_id e = event_session_id event \<and> is_cleanup e = is_cleanup event"
  by (cases event) auto

lemma stream_push_pieces: "stream_of sid (push_pieces event) = stream_of sid [event]"
proof (cases "event_session_id event = sid \<and> \<not> is_cleanup event")
  case True
  then have "filter (\<lambda>e. event_session_id e = sid \<and> \<not> is_cleanup e) (push_pieces event) = push_pieces event"
    using push_pieces_same [of _ event] by (auto simp: filter_id_conv)
  then show ?thesis using True flat_push_pieces [of event] by (simp add: stream_of_def)
next
  case False
  then have "filter (\<lambda>e. event_session_id e = sid \<and> \<not> is_cleanup e) (push_pieces event) = []"
    using push_pieces_same [of _ event] by (auto simp: filter_empty_conv)
  then show ?thesis using False by (auto simp: stream_of_def)
qed

lemma queue_inner_inv_step:
  assumes "queue_step s t" "inner_inv (e_inner s)" "thread_inv s"
  shows "inner_inv (e_inner t)"
  using assms
proof cases
  case (e_push sid e es inner)
  then show ?thesis using assms push_piece_inv(1) by (auto simp: thread_inv_def piece_ok_def)
next
  case (e_push_wait sid e es inner)
  then show ?thesis using assms push_piece_inv(2) by (auto simp: thread_inv_def piece_ok_def)
next
  case e_cancel
  then show ?thesis using cancel_session_inv assms by auto
next
  case e_drain
  then show ?thesis using drain_effect(1) [OF drain_result(1)] assms(2) by simp
next
  case e_drain_consumer
  then show ?thesis using drain_effect(1) [OF drain_result(2)] assms(2) by simp
next
  case (e_cleanup event)
  have "output_len event = 0" using e_cleanup(2) by (cases event) auto
  then show ?thesis using e_cleanup assms(2) by (auto simp: push_cleanup_failure_def inner_inv_def)
qed (auto simp: inner_inv_def begin_push_def end_push_def resume_session_def assign_consumer_def clear_consumer_def
      close_queue_def split: if_splits)

lemma thread_inv_drain:
  assumes "thread_inv s" "inner_inv (e_inner s)"
    and "\<exists>inner'. drains (e_inner s) events inner' \<and> resume_output inner' = (resumed, inner)"
  shows "thread_inv (s\<lparr>e_inner := inner, e_parked := (e_parked s \<and> \<not> resumed), e_drained := d\<rparr>)"
proof -
  obtain es n where i: "inner = (e_inner s)\<lparr>q_events := es, q_output_bytes := n,
      q_backpressured := (q_backpressured (e_inner s) \<and> \<not> resumed)\<rparr>"
    using drain_effect(3) [OF assms(3,2)] by blast
  show ?thesis using assms(1) by (auto simp: i thread_inv_def accepts_def)
qed

lemma queue_thread_inv_step:
  assumes "queue_step s t" "inner_inv (e_inner s)" "thread_inv s"
  shows "thread_inv t"
  using assms(1)
proof cases
  case (e_begin event inner)
  then show ?thesis using assms(3) push_pieces_ok [of event]
    by (auto simp: thread_inv_def begin_push_def accepts_def split: if_splits)
next
  case (e_push sid e es inner)
  then show ?thesis using assms(3)
    by (cases rule: push_piece_cases [of "e_inner s" e]) (auto simp: thread_inv_def accepts_def)
next
  case (e_push_wait sid e es inner)
  then show ?thesis using assms(3)
    by (cases rule: push_piece_cases [of "e_inner s" e]) (auto simp: thread_inv_def accepts_def piece_ok_def)
next
  case (e_cancel sid)
  obtain b n where "cancel_session sid (e_inner s) = (e_inner s)\<lparr>q_cancelled := insert sid (q_cancelled (e_inner s)),
     q_consumers := (q_consumers (e_inner s))(sid := None),
     q_events := filter (\<lambda>e. event_session_id e \<noteq> sid) (q_events (e_inner s)), q_output_bytes := n, q_backpressured := b\<rparr>"
    using cancel_session_frame by blast
  then show ?thesis using assms(3) by (auto simp: e_cancel thread_inv_def)
next
  case e_drain
  then show ?thesis using thread_inv_drain [OF assms(3,2) drain_result(1)] by simp
next
  case e_drain_consumer
  then show ?thesis using thread_inv_drain [OF assms(3,2) drain_result(2)] by simp
qed (use assms(3) in \<open>auto simp: thread_inv_def begin_push_def end_push_def resume_session_def assign_consumer_def
      clear_consumer_def close_queue_def push_cleanup_failure_def accepts_def split: if_splits\<close>)

text \<open>Streams: the steps that neither cancel nor drain.\<close>

lemma stream_of_foreign: "event_session_id e \<noteq> sid \<or> is_cleanup e \<Longrightarrow> stream_of sid [e] = []"
  by (auto simp: stream_of_def)

lemma stream_of_cancel:
  "sid \<noteq> other \<Longrightarrow> stream_of sid (filter (\<lambda>e. event_session_id e \<noteq> other) es) = stream_of sid es"
  by (auto simp: stream_of_def intro!: arg_cong [of _ _ flat] filter_cong)

lemma stream_of_Cons: "stream_of sid (e # es) = stream_of sid [e] @ stream_of sid es"
  using stream_of_append(1) [of sid "[e]" es] by simp

lemma stream_inv_drain:
  assumes "stream_inv sid s" "inner_inv (e_inner s)"
    and "\<exists>inner'. drains (e_inner s) events inner' \<and> resume_output inner' = (resumed, inner)"
  shows "stream_inv sid (s\<lparr>e_inner := inner, e_parked := p, e_drained := e_drained s @ events\<rparr>)"
proof -
  obtain es n where i: "inner = (e_inner s)\<lparr>q_events := es, q_output_bytes := n,
      q_backpressured := (q_backpressured (e_inner s) \<and> \<not> resumed)\<rparr>"
    using drain_effect(3) [OF assms(3,2)] by blast
  show ?thesis using assms(1) drain_effect(2) [OF assms(3,2), of sid] by (simp add: stream_inv_def i turn_rest_def)
qed

lemma queue_stream_inv_step:
  assumes "queue_step s t" "inner_inv (e_inner s)" "thread_inv s" "stream_inv sid s"
  shows "stream_inv sid t"
  using assms(1)
proof cases
  case (e_begin event inner)
  moreover from this have "e_turn s = None" using assms(3)
    by (cases "e_turn s") (auto simp: thread_inv_def begin_push_def split: if_splits)
  ultimately show ?thesis using assms(4) stream_push_pieces [of sid event]
    by (auto simp: stream_inv_def begin_push_def accepts_def turn_rest_def split: if_splits)
next
  case (e_push sid' e es inner)
  then show ?thesis using assms(4) stream_of_Cons [of sid e es]
    by (cases rule: push_piece_cases [of "e_inner s" e])
      (auto simp: stream_inv_def turn_rest_def accepts_def)
next
  case (e_push_wait sid' e es inner)
  then show ?thesis using assms(4)
    by (cases rule: push_piece_cases [of "e_inner s" e]) (auto simp: stream_inv_def turn_rest_def)
next
  case (e_push_refused sid' e es)
  have sid': "list_all (piece_ok sid') (e # es)" using assms(3) e_push_refused by (auto simp: thread_inv_def)
  have "\<not> accepts (e_inner s) (event_session_id e)"
    using e_push_refused by (cases rule: push_piece_cases [of "e_inner s" e]) auto
  moreover have "stream_of sid (e # es) = []" if "sid \<noteq> sid'"
    using sid' that by (auto simp: stream_of_def piece_ok_def list_all_iff filter_empty_conv)
  ultimately show ?thesis using assms(4) sid' e_push_refused
    by (cases "sid = sid'") (auto simp: stream_inv_def turn_rest_def accepts_def piece_ok_def)
next
  case (e_cancel other)
  obtain b n where "cancel_session other (e_inner s) = (e_inner s)\<lparr>q_cancelled := insert other (q_cancelled (e_inner s)),
     q_consumers := (q_consumers (e_inner s))(other := None),
     q_events := filter (\<lambda>e. event_session_id e \<noteq> other) (q_events (e_inner s)), q_output_bytes := n, q_backpressured := b\<rparr>"
    using cancel_session_frame by blast
  then show ?thesis using assms(4)
    by (cases "sid = other") (auto simp: e_cancel stream_inv_def turn_rest_def stream_of_cancel)
next
  case e_drain
  then show ?thesis using stream_inv_drain [OF assms(4,2) drain_result(1)] by simp
next
  case e_drain_consumer
  then show ?thesis using stream_inv_drain [OF assms(4,2) drain_result(2)] by simp
next
  case e_cleanup
  then show ?thesis using assms(4)
    by (auto simp: stream_inv_def turn_rest_def push_cleanup_failure_def stream_of_foreign)
qed (use assms(4) in \<open>auto simp: stream_inv_def turn_rest_def begin_push_def end_push_def resume_session_def assign_consumer_def
      clear_consumer_def close_queue_def split: if_splits\<close>)

lemma queue_reach_inv:
  assumes "reachable queue_init queue_step s"
  shows "inner_inv (e_inner s) \<and> thread_inv s \<and> stream_inv sid s"
  using assms
proof (rule reachable_invariant)
  show "inner_inv (e_inner s) \<and> thread_inv s \<and> stream_inv sid s" if "queue_init s" for s :: "('a, 'b, 'c) QueueSystem"
    using that by (auto simp: queue_init_def queue_default_def inner_inv_def thread_inv_def stream_inv_def turn_rest_def)
qed (use queue_inner_inv_step queue_thread_inv_step queue_stream_inv_step in blast)

lemma drain_inner_budget:
  assumes "drain_inner n (Some m) inner = (events, inner', stats)" "m < 2 ^ 64"
  shows "drained_output_bytes stats = output_bytes events \<and> output_bytes events \<le> m"
proof -
  obtain st where r: "drain_rounds (drain_step (Some m)) n inner stats_default = (events, inner', st)"
    and s: "drained_output_bytes stats = drained_output_bytes st"
    using assms(1) by (auto simp: drain_inner_def Let_def split: prod.splits)
  show ?thesis using drain_rounds_budget [OF spends_steps(1) _ assms(2) r] s by (simp add: stats_default_def)
qed

lemma drain_for_consumer_budget:
  assumes "drain_for_consumer consumer n (Some m) inner = (events, inner', stats)" "m < 2 ^ 64"
  shows "drained_output_bytes stats = output_bytes events \<and> output_bytes events \<le> m"
proof -
  obtain st where r: "drain_rounds (consumer_step consumer (Some m)) n inner stats_default = (events, inner', st)"
    and s: "drained_output_bytes stats = drained_output_bytes st"
    using assms(1) by (auto simp: drain_for_consumer_def Let_def split: prod.splits)
  show ?thesis using drain_rounds_budget [OF spends_steps(2) _ assms(2) r] s by (simp add: stats_default_def)
qed


text \<open>A push with room for all of its output does not wait.\<close>

lemma push_all_room:
  assumes "list_all (piece_ok sid) es" "accepts inner sid" "\<not> q_backpressured inner"
    and "q_output_bytes inner + output_bytes es < OUTPUT_LIMIT"
  shows "\<exists>inner'. push_all es inner = ([], inner') \<and> q_events inner' = q_events inner @ es"
  using assms
proof (induction es arbitrary: inner)
  case (Cons e es)
  have sid: "accepts inner (event_session_id e)" using Cons.prems by (simp add: piece_ok_def)
  obtain inner' where p: "push_piece e inner = Pushed inner'" "q_events inner' = q_events inner @ [e]"
    "q_output_bytes inner' = q_output_bytes inner + output_len e" "\<not> q_backpressured inner'" "accepts inner' sid"
    using sid Cons.prems by (cases e) (auto simp: push_output_chunk_def saturating_add_le accepts_def Let_def)
  with Cons.IH [of inner'] Cons.prems show ?case by auto
qed simp


section \<open>Examples\<close>

definition example_inner :: "(unit, unit, unit) SessionEventQueueInner" where
  "example_inner = queue_default\<lparr>q_events := [Output ''a'' [1, 2], Exited ''a'' ''end''], q_output_bytes := 2, q_peak_bytes := 2\<rparr>"

definition example_state ::
  "bool \<Rightarrow> (unit, unit, unit) SessionEvent list \<Rightarrow> (string \<times> (unit, unit, unit) SessionEvent list) option \<Rightarrow> string list \<Rightarrow>
   (unit, unit, unit) SessionEvent list \<Rightarrow> (unit, unit, unit) QueueSystem" where
  "example_state active events turn starters offered =
     \<lparr>e_inner = \<lparr>q_events = events, q_output_bytes = output_bytes events, q_peak_bytes = output_bytes events,
        q_backpressured = False, q_producer_active = active, q_closed = False, q_cancelled = {}, q_consumers = Map.empty\<rparr>,
      e_turn = turn, e_parked = False, e_starters = starters, e_offered = offered, e_drained = [], e_ever = {}\<rparr>"

definition example_queue :: "(unit, unit, unit) QueueSystem" where
  "example_queue = example_state True [Output ''a'' [1]] (Some (''a'', [])) [''b''] [Output ''a'' [1]]"

lemma example_begin:
  "queue_step (example_state False [] None [] []) (example_state True [] (Some (''a'', [Output ''a'' [1]])) [] [Output ''a'' [1]])"
proof -
  let ?s = "example_state False [] None [] []" and ?e = "Output ''a'' [1] :: (unit, unit, unit) SessionEvent"
  have "chunks OUTPUT_EVENT_LIMIT [1 :: u8] = [[1]]"
    by (subst chunks.simps, simp add: OUTPUT_EVENT_LIMIT_def, subst chunks.simps, simp)
  then have "example_state True [] (Some (''a'', [?e])) [] [?e] =
      ?s\<lparr>e_inner := (e_inner ?s)\<lparr>q_producer_active := True\<rparr>,
        e_turn := Some (event_session_id ?e, push_pieces ?e), e_offered := e_offered ?s @ [?e]\<rparr>"
    by (simp add: example_state_def)
  moreover have "begin_push (event_session_id ?e) (e_inner ?s) = Pushed ((e_inner ?s)\<lparr>q_producer_active := True\<rparr>)"
    by (simp add: begin_push_def accepts_def example_state_def)
  ultimately show ?thesis using e_begin by metis
qed

lemma example_push:
  "queue_step (example_state True [] (Some (''a'', [Output ''a'' [1]])) [] [Output ''a'' [1]])
     (example_state True [Output ''a'' [1]] (Some (''a'', [])) [] [Output ''a'' [1]])"
proof -
  let ?e = "Output ''a'' [1] :: (unit, unit, unit) SessionEvent"
  let ?s = "example_state True [] (Some (''a'', [?e])) [] [?e]" and ?t = "example_state True [?e] (Some (''a'', [])) [] [?e]"
  have "?t = ?s\<lparr>e_inner := e_inner ?t, e_turn := Some (''a'', [])\<rparr>" by (simp add: example_state_def)
  moreover have "push_piece ?e (e_inner ?s) = Pushed (e_inner ?t)"
    by (simp add: push_output_chunk_def accepts_def example_state_def saturating_add_def OUTPUT_LIMIT_def Let_def)
  moreover have "e_turn ?s = Some (''a'', [?e])" "\<not> e_parked ?s" by (simp_all add: example_state_def)
  ultimately show ?thesis using e_push by metis
qed

lemma example_begin_wait:
  "queue_step (example_state True [Output ''a'' [1]] (Some (''a'', [])) [] [Output ''a'' [1]]) example_queue"
proof -
  let ?e = "Output ''a'' [1] :: (unit, unit, unit) SessionEvent"
  let ?s = "example_state True [?e] (Some (''a'', [])) [] [?e]"
  have "example_queue = ?s\<lparr>e_inner := e_inner ?s, e_starters := ''b'' # e_starters ?s\<rparr>"
    by (simp add: example_state_def example_queue_def)
  moreover have "begin_push ''b'' (e_inner ?s) = Waiting (e_inner ?s)"
    by (simp add: begin_push_def accepts_def example_state_def)
  ultimately show ?thesis using e_begin_wait by metis
qed

lemma example_queue_reachable: "reachable queue_init queue_step example_queue"
proof -
  have "reachable queue_init queue_step (example_state False [] None [] [])"
    by (rule start) (simp add: queue_init_def queue_default_def example_state_def)
  note move [where step = queue_step, OF this example_begin]
  note move [where step = queue_step, OF this example_push]
  note move [where step = queue_step, OF this example_begin_wait]
  then show ?thesis .
qed


section \<open>Properties\<close>

text \<open>C1. The queue loses, duplicates and reorders nothing: in every interleaving of producers,
  consumers and cancellations, the events and output bytes that were offered for a session
  that was never cancelled are, in order, those drained, those queued, and those that the producer
  holding the turn has yet to push, however output was split on the way in and out.\<close>

theorem event_queue_streams:
  assumes "reachable queue_init queue_step s" "sid \<notin> e_ever s" "\<not> q_closed (e_inner s)"
  shows "stream_of sid (e_offered s) =
    stream_of sid (e_drained s) @ stream_of sid (q_events (e_inner s)) @ stream_of sid (turn_rest s)"
  using queue_reach_inv [OF assms(1), of sid] assms(2,3) by (auto simp: stream_inv_def)

theorem event_queue_streams_witness:
  "stream_of ''a'' (e_offered example_queue) = stream_of ''a'' (q_events (e_inner example_queue))"
  using event_queue_streams [OF example_queue_reachable, of "''a''"]
  by (simp add: example_queue_def example_state_def turn_rest_def)

text \<open>C20. Queued output is counted exactly and bounded, and no wake-up is lost: a producer that
  sleeps for output space has a live session and finds more than the low watermark queued,
  and one that sleeps for its turn has a live session while another producer holds the turn.\<close>

theorem event_queue_no_lost_wakeup:
  assumes "reachable queue_init queue_step s"
  shows "q_output_bytes (e_inner s) = output_bytes (q_events (e_inner s)) \<and> q_output_bytes (e_inner s) \<le> OUTPUT_LIMIT \<and>
    q_peak_bytes (e_inner s) \<le> OUTPUT_LIMIT \<and>
    (e_parked s \<longrightarrow> OUTPUT_LOW_WATERMARK < q_output_bytes (e_inner s) \<and>
       (\<exists>sid e es. e_turn s = Some (sid, e # es) \<and> accepts (e_inner s) sid)) \<and>
    (\<forall>sid \<in> set (e_starters s). e_turn s \<noteq> None \<and> accepts (e_inner s) sid)"
  using queue_reach_inv [OF assms, of "[]"] by (auto simp: inner_inv_def thread_inv_def)

theorem event_queue_no_lost_wakeup_witness:
  "e_turn example_queue \<noteq> None \<and> accepts (e_inner example_queue) ''b''"
  using event_queue_no_lost_wakeup [OF example_queue_reachable]
  by (simp add: example_queue_def example_state_def)

text \<open>A drain keeps to its budgets of events and output bytes, whether for one consumer
  or for all, reports exactly the output bytes it took, and an unrestricted drain of a non-empty
  queue takes something.\<close>

theorem event_queue_drain_budget:
  assumes "drain_inner n (Some m) inner = (events, inner', stats) \<or>
      drain_for_consumer consumer n (Some m) inner = (events, inner', stats)" and "m < 2 ^ 64"
  shows "length events \<le> n \<and> output_bytes events \<le> m \<and> drained_output_bytes stats = output_bytes events \<and>
    (q_events inner \<noteq> [] \<and> 0 < n \<and> 0 < m \<longrightarrow> fst (drain_inner n (Some m) inner) \<noteq> [])"
  using assms drain_inner_drains [of n "Some m" inner events inner' stats]
    drain_for_consumer_drains [of consumer n "Some m" inner events inner' stats]
    drain_inner_budget [of n m inner events inner' stats]
    drain_for_consumer_budget [of consumer n m inner events inner' stats]
    drain_progress [of inner n "Some m"]
  by blast

theorem event_queue_drain_budget_witness:
  "output_bytes (fst (drain_inner 5 (Some 1) example_inner)) \<le> 1 \<and> fst (drain_inner 5 (Some 1) example_inner) \<noteq> []"
proof -
  obtain events inner' stats where "drain_inner 5 (Some 1) example_inner = (events, inner', stats)"
    by (cases "drain_inner 5 (Some 1) example_inner")
  then show ?thesis using event_queue_drain_budget [of 5 1 example_inner events inner' stats 0]
    by (simp add: example_inner_def)
qed

end
