(* ===== verification/Recording.thy ===== *)
theory Recording
  imports Cells
begin

text \<open>
  Plain-text transcripts (\<open>recording_sanitizer.rs\<close> of the terminal crate): the streaming
  \<open>RecordingSanitizer\<close> that removes terminal controls and turns the line-editing ones into
  events, and the \<open>RecordingLineEditor\<close> that applies the events to one row.

  Text is a list of Unicode scalar values. The code keeps byte offsets into the row, all of
  which come from \<open>char_indices\<close> or step over the character found there; here they count
  characters. \<open>width\<close> is \<open>UnicodeWidthChar::width\<close> of the \<open>unicode-width\<close> crate. Subtractions,
  slices and replaced ranges panic where Rust panics.
\<close>


section \<open>The sanitizer\<close>

definition MAX_CSI_PARAMS :: nat where "MAX_CSI_PARAMS = 32"
definition MAX_CURSOR_COLUMN :: nat where "MAX_CURSOR_COLUMN = 64 * 1024"

datatype State = Ground | Escape | EscapeIntermediate | Csi | ControlString bool bool

datatype RecordingEvent =
    Character uchar
  | Backspace
  | CarriageReturn
  | Newline
  | Tab
  | CursorLeft nat
  | CursorRight nat
  | CursorColumn nat
  | EraseLine nat
  | DeleteCharacters nat
  | InsertCharacters nat

record RecordingSanitizer =
  sz_state :: State
  csi_params :: "u8 list"
  csi_len :: nat
  csi_invalid :: bool

definition sanitizer_default :: RecordingSanitizer where
  "sanitizer_default = \<lparr>sz_state = Ground, csi_params = replicate MAX_CSI_PARAMS 0, csi_len = 0, csi_invalid = False\<rparr>"

definition sanitizer_reset :: "RecordingSanitizer \<Rightarrow> RecordingSanitizer" where
  "sanitizer_reset sz = sz\<lparr>sz_state := Ground, csi_len := 0, csi_invalid := False\<rparr>"

definition is_control :: "uchar \<Rightarrow> bool" where
  "is_control ch \<longleftrightarrow> ch < 0x20 \<or> 0x7f \<le> ch \<and> ch \<le> 0x9f"

definition begin_csi :: "RecordingSanitizer \<Rightarrow> RecordingSanitizer" where
  "begin_csi sz = sz\<lparr>csi_len := 0, csi_invalid := False, sz_state := Csi\<rparr>"

fun csi_count :: "u8 list \<Rightarrow> nat \<Rightarrow> nat option" where
  "csi_count [] count = Some count"
| "csi_count (byte # rest) count =
     (if \<not> (0x30 \<le> byte \<and> byte \<le> 0x39) then None
      else csi_count rest (saturating_add (saturating_mul count 10) (unat (byte - 0x30))))"

text \<open>The final characters are \<open>D\<close>, \<open>C\<close>, \<open>G\<close>, the back-quote, \<open>K\<close>, \<open>P\<close> and \<open>@\<close>.\<close>

definition csi_event :: "RecordingSanitizer \<Rightarrow> uchar \<Rightarrow> panic + RecordingEvent option" where
  "csi_event sz final =
     (if csi_invalid sz \<or> final \<notin> {0x44, 0x43, 0x47, 0x60, 0x4b, 0x50, 0x40} then Inr None
      else if length (csi_params sz) < csi_len sz then Inl OutOfBounds
      else case csi_count (take (csi_len sz) (csi_params sz)) 0 of
        None \<Rightarrow> Inr None
      | Some n \<Rightarrow>
          let count = min n MAX_CURSOR_COLUMN; movement = max count 1 in
          Inr (Some
            (if final = 0x44 then CursorLeft movement
             else if final = 0x43 then CursorRight movement
             else if final = 0x47 \<or> final = 0x60 then CursorColumn (movement - 1)
             else if final = 0x4b then EraseLine count
             else if final = 0x50 then DeleteCharacters movement
             else InsertCharacters movement)))"

definition ground_step :: "uchar \<Rightarrow> RecordingSanitizer \<Rightarrow> RecordingEvent list \<times> RecordingSanitizer" where
  "ground_step ch sz =
     (if ch = 0x1b then ([], sz\<lparr>sz_state := Escape\<rparr>)
      else if ch = 0x9b then ([], begin_csi sz)
      else if ch = 0x9d then ([], sz\<lparr>sz_state := ControlString True False\<rparr>)
      else if ch \<in> {0x90, 0x98, 0x9e, 0x9f} then ([], sz\<lparr>sz_state := ControlString False False\<rparr>)
      else if ch = 0x0d then ([CarriageReturn], sz)
      else if ch = 8 then ([Backspace], sz)
      else if ch = 0x0a then ([Newline], sz)
      else if ch = 9 then ([Tab], sz)
      else if \<not> is_control ch then ([Character ch], sz)
      else ([], sz))"

definition escape_step :: "uchar \<Rightarrow> RecordingSanitizer \<Rightarrow> RecordingSanitizer" where
  "escape_step ch sz =
     (if ch = 0x5b then begin_csi sz
      else if ch = 0x5d then sz\<lparr>sz_state := ControlString True False\<rparr>
      else if ch \<in> {0x50, 0x58, 0x5e, 0x5f} then sz\<lparr>sz_state := ControlString False False\<rparr>
      else if ch = 0x1b then sz\<lparr>sz_state := Escape\<rparr>
      else if 0x20 \<le> ch \<and> ch \<le> 0x2f then sz\<lparr>sz_state := EscapeIntermediate\<rparr>
      else sz\<lparr>sz_state := Ground\<rparr>)"

definition csi_step :: "uchar \<Rightarrow> RecordingSanitizer \<Rightarrow> panic + RecordingEvent list \<times> RecordingSanitizer" where
  "csi_step ch sz =
     (if 0x30 \<le> ch \<and> ch \<le> 0x3f then
        Inr ([], if csi_len sz < MAX_CSI_PARAMS
                 then sz\<lparr>csi_params := (csi_params sz)[csi_len sz := of_nat ch], csi_len := csi_len sz + 1\<rparr>
                 else sz\<lparr>csi_invalid := True\<rparr>)
      else if 0x40 \<le> ch \<and> ch \<le> 0x7e then
        and_then (csi_event sz ch) (\<lambda>event.
          Inr (case event of None \<Rightarrow> [] | Some e \<Rightarrow> [e], sz\<lparr>sz_state := Ground\<rparr>))
      else if ch = 0x1b then Inr ([], sz\<lparr>sz_state := Escape\<rparr>)
      else if ch = 0x18 \<or> ch = 0x1a then Inr ([], sz\<lparr>sz_state := Ground\<rparr>)
      else Inr ([], sz\<lparr>csi_invalid := True\<rparr>))"

definition sanitize_char :: "uchar \<Rightarrow> RecordingSanitizer \<Rightarrow> panic + RecordingEvent list \<times> RecordingSanitizer" where
  "sanitize_char ch sz =
     (case sz_state sz of
        Ground \<Rightarrow> Inr (ground_step ch sz)
      | Escape \<Rightarrow> Inr ([], escape_step ch sz)
      | EscapeIntermediate \<Rightarrow>
          Inr ([], if 0x30 \<le> ch \<and> ch \<le> 0x7e then sz\<lparr>sz_state := Ground\<rparr>
                   else if ch = 0x1b then sz\<lparr>sz_state := Escape\<rparr> else sz)
      | Csi \<Rightarrow> csi_step ch sz
      | ControlString osc escape \<Rightarrow>
          Inr ([], sz\<lparr>sz_state :=
            (if ch = 0x9c \<or> osc \<and> ch = 7 \<or> escape \<and> ch = 0x5c then Ground else ControlString osc (ch = 0x1b))\<rparr>))"

fun feed_events :: "uchar list \<Rightarrow> RecordingSanitizer \<Rightarrow> panic + RecordingEvent list \<times> RecordingSanitizer" where
  "feed_events [] sz = Inr ([], sz)"
| "feed_events (ch # rest) sz =
     and_then (sanitize_char ch sz) (\<lambda>(events, sz).
     and_then (feed_events rest sz) (\<lambda>(more, sz). Inr (events @ more, sz)))"

fun event_text :: "RecordingEvent \<Rightarrow> uchar list" where
  "event_text (Character ch) = [ch]"
| "event_text Newline = [0x0a]"
| "event_text Tab = [9]"
| "event_text _ = []"

definition sanitizer_feed :: "uchar list \<Rightarrow> RecordingSanitizer \<Rightarrow> panic + uchar list \<times> RecordingSanitizer" where
  "sanitizer_feed text sz =
     and_then (feed_events text sz) (\<lambda>(events, sz). Inr (concat (map event_text events), sz))"


section \<open>The line editor\<close>

record RecordingLineEditor =
  ed_line :: "uchar list"
  ed_cursor :: nat
  ed_width :: nat

definition editor_default :: RecordingLineEditor where
  "editor_default = \<lparr>ed_line = [], ed_cursor = 0, ed_width = 0\<rparr>"

definition char_width :: "(uchar \<Rightarrow> nat option) \<Rightarrow> uchar \<Rightarrow> nat" where
  "char_width width ch = (case width ch of None \<Rightarrow> 0 | Some n \<Rightarrow> n)"

abbreviation blanks :: "nat \<Rightarrow> uchar list" where
  "blanks n \<equiv> replicate n 0x20"

definition replace_range :: "nat \<Rightarrow> nat \<Rightarrow> uchar list \<Rightarrow> uchar list \<Rightarrow> panic + uchar list" where
  "replace_range i j new line =
     (if i \<le> j \<and> j \<le> length line then Inr (take i line @ new @ drop j line) else Inl OutOfBounds)"

fun index_loop :: "(uchar \<Rightarrow> nat option) \<Rightarrow> nat \<Rightarrow> uchar list \<Rightarrow> nat \<Rightarrow> nat \<Rightarrow> (nat \<times> nat) option" where
  "index_loop width target [] index column = None"
| "index_loop width target (ch # rest) index column =
     (if target < column + char_width width ch then Some (index, column)
      else index_loop width target rest (index + 1) (column + char_width width ch))"

definition index_at :: "(uchar \<Rightarrow> nat option) \<Rightarrow> nat \<Rightarrow> RecordingLineEditor \<Rightarrow> nat \<times> nat" where
  "index_at width target ed =
     (if ed_width ed \<le> target then (length (ed_line ed), ed_width ed)
      else case index_loop width target (ed_line ed) 0 0 of
        Some r \<Rightarrow> r | None \<Rightarrow> (length (ed_line ed), ed_width ed))"

definition normalize_cell_at :: "(uchar \<Rightarrow> nat option) \<Rightarrow> nat \<Rightarrow> RecordingLineEditor \<Rightarrow> panic + RecordingLineEditor" where
  "normalize_cell_at width target ed =
     (let (i, column) = index_at width target ed in
      if column < target \<and> i < length (ed_line ed) then
        and_then (replace_range i (i + 1) (blanks (char_width width (ed_line ed ! i))) (ed_line ed)) (\<lambda>line.
        Inr (ed\<lparr>ed_line := line\<rparr>))
      else Inr ed)"

definition write_character :: "(uchar \<Rightarrow> nat option) \<Rightarrow> uchar \<Rightarrow> RecordingLineEditor \<Rightarrow> panic + RecordingLineEditor" where
  "write_character width ch ed =
     (let w = char_width width ch; cursor = ed_cursor ed in
      and_then
        (if ed_width ed \<le> cursor then
           Inr (ed\<lparr>ed_line := ed_line ed @ blanks (cursor - ed_width ed) @ [ch], ed_width := cursor + w\<rparr>)
         else
           let (i, start_column) = index_at width cursor ed;
               target = cursor + w;
               (j, end_column) = index_at width target ed;
               (j, end_column) =
                 (if end_column < target \<and> j < length (ed_line ed)
                  then (j + 1, end_column + char_width width (ed_line ed ! j)) else (j, end_column))
           in and_then (sub_usize cursor start_column) (\<lambda>before.
              and_then (replace_range i j (blanks before @ [ch] @ blanks (end_column - target)) (ed_line ed)) (\<lambda>line.
              Inr (ed\<lparr>ed_line := line, ed_width := max (ed_width ed) target\<rparr>))))
        (\<lambda>ed. Inr (ed\<lparr>ed_cursor := min (saturating_add cursor w) MAX_CURSOR_COLUMN\<rparr>)))"

definition trim_end :: "uchar list \<Rightarrow> uchar list" where
  "trim_end line = rev (dropWhile (\<lambda>ch. ch = 0x20) (rev line))"

definition take_pending :: "RecordingLineEditor \<Rightarrow> uchar list \<times> RecordingLineEditor" where
  "take_pending ed = (trim_end (ed_line ed), editor_default)"

definition editor_clear :: "RecordingLineEditor \<Rightarrow> RecordingLineEditor" where
  "editor_clear ed = ed\<lparr>ed_line := [], ed_cursor := 0, ed_width := 0\<rparr>"

definition erase_right :: "(uchar \<Rightarrow> nat option) \<Rightarrow> RecordingLineEditor \<Rightarrow> panic + RecordingLineEditor" where
  "erase_right width ed =
     (let (i, column) = index_at width (ed_cursor ed) ed; n = min (ed_cursor ed) (ed_width ed) in
      and_then (sub_usize n column) (\<lambda>k.
      Inr (ed\<lparr>ed_line := take i (ed_line ed) @ blanks k, ed_width := n\<rparr>)))"

definition erase_left :: "(uchar \<Rightarrow> nat option) \<Rightarrow> RecordingLineEditor \<Rightarrow> panic + RecordingLineEditor" where
  "erase_left width ed =
     (let end_column = min (saturating_add (ed_cursor ed) 1) (ed_width ed);
          (j, column) = index_at width end_column ed;
          (j, erased) =
            (if column < end_column \<and> j < length (ed_line ed)
             then (j + 1, column + char_width width (ed_line ed ! j)) else (j, end_column))
      in and_then (replace_range 0 j (blanks erased) (ed_line ed)) (\<lambda>line. Inr (ed\<lparr>ed_line := line\<rparr>)))"

definition delete_characters :: "(uchar \<Rightarrow> nat option) \<Rightarrow> nat \<Rightarrow> RecordingLineEditor \<Rightarrow> panic + RecordingLineEditor" where
  "delete_characters width count ed =
     and_then (normalize_cell_at width (ed_cursor ed) ed) (\<lambda>ed.
     and_then (normalize_cell_at width (saturating_add (ed_cursor ed) count) ed) (\<lambda>ed.
     let (i, column) = index_at width (ed_cursor ed) ed;
         (j, end_column) = index_at width (saturating_add (ed_cursor ed) count) ed
     in and_then (replace_range i j [] (ed_line ed)) (\<lambda>line.
        and_then (sub_usize end_column column) (\<lambda>removed.
        and_then (sub_usize (ed_width ed) removed) (\<lambda>n.
        Inr (ed\<lparr>ed_line := line, ed_width := n\<rparr>))))))"

definition insert_characters :: "(uchar \<Rightarrow> nat option) \<Rightarrow> nat \<Rightarrow> RecordingLineEditor \<Rightarrow> panic + RecordingLineEditor" where
  "insert_characters width count ed =
     and_then (normalize_cell_at width (ed_cursor ed) ed) (\<lambda>ed.
     let count = min count (MAX_CURSOR_COLUMN - ed_width ed); (i, _) = index_at width (ed_cursor ed) ed
     in and_then (replace_range i i (blanks count) (ed_line ed)) (\<lambda>line.
        Inr (ed\<lparr>ed_line := line, ed_width := ed_width ed + count\<rparr>)))"

definition editor_feed ::
  "(uchar \<Rightarrow> nat option) \<Rightarrow> RecordingEvent \<Rightarrow> RecordingLineEditor \<Rightarrow> panic + uchar list option \<times> RecordingLineEditor" where
  "editor_feed width event ed =
     (let cursor = ed_cursor ed in
      case event of
        Tab \<Rightarrow> Inr (None, ed\<lparr>ed_cursor := min ((cursor div 8 + 1) * 8) MAX_CURSOR_COLUMN\<rparr>)
      | Backspace \<Rightarrow> Inr (None, ed\<lparr>ed_cursor := cursor - 1\<rparr>)
      | CarriageReturn \<Rightarrow> Inr (None, ed\<lparr>ed_cursor := 0\<rparr>)
      | Newline \<Rightarrow> Inr (let (line, ed) = take_pending ed in (Some line, ed))
      | CursorLeft count \<Rightarrow> Inr (None, ed\<lparr>ed_cursor := cursor - count\<rparr>)
      | CursorRight count \<Rightarrow> Inr (None, ed\<lparr>ed_cursor := min (saturating_add cursor count) MAX_CURSOR_COLUMN\<rparr>)
      | CursorColumn column \<Rightarrow> Inr (None, ed\<lparr>ed_cursor := min column MAX_CURSOR_COLUMN\<rparr>)
      | Character ch \<Rightarrow> and_then (write_character width ch ed) (\<lambda>ed. Inr (None, ed))
      | EraseLine n \<Rightarrow>
          (if n = 0 then and_then (erase_right width ed) (\<lambda>ed. Inr (None, ed))
           else if n = 1 then and_then (erase_left width ed) (\<lambda>ed. Inr (None, ed))
           else if n = 2 then Inr (None, ed\<lparr>ed_line := [], ed_width := 0\<rparr>)
           else Inr (None, ed))
      | DeleteCharacters count \<Rightarrow> and_then (delete_characters width count ed) (\<lambda>ed. Inr (None, ed))
      | InsertCharacters count \<Rightarrow> and_then (insert_characters width count ed) (\<lambda>ed. Inr (None, ed)))"

fun editor_run ::
  "(uchar \<Rightarrow> nat option) \<Rightarrow> RecordingEvent list \<Rightarrow> RecordingLineEditor \<Rightarrow> panic + uchar list list \<times> RecordingLineEditor" where
  "editor_run width [] ed = Inr ([], ed)"
| "editor_run width (event # events) ed =
     and_then (editor_feed width event ed) (\<lambda>(line, ed).
     and_then (editor_run width events ed) (\<lambda>(lines, ed).
       Inr (case line of None \<Rightarrow> lines | Some l \<Rightarrow> l # lines, ed)))"


section \<open>What the sanitizer keeps\<close>

definition sanitizer_ok :: "RecordingSanitizer \<Rightarrow> bool" where
  "sanitizer_ok sz \<longleftrightarrow> length (csi_params sz) = MAX_CSI_PARAMS \<and> csi_len sz \<le> MAX_CSI_PARAMS"

definition clean :: "uchar \<Rightarrow> bool" where
  "clean ch \<longleftrightarrow> \<not> is_control ch \<or> ch = 0x0a \<or> ch = 9"

definition event_ok :: "RecordingEvent \<Rightarrow> bool" where
  "event_ok event \<longleftrightarrow> (case event of Character ch \<Rightarrow> \<not> is_control ch | CursorLeft n \<Rightarrow> n \<le> MAX_CURSOR_COLUMN
     | CursorRight n \<Rightarrow> n \<le> MAX_CURSOR_COLUMN | CursorColumn n \<Rightarrow> n \<le> MAX_CURSOR_COLUMN
     | EraseLine n \<Rightarrow> n \<le> MAX_CURSOR_COLUMN | DeleteCharacters n \<Rightarrow> n \<le> MAX_CURSOR_COLUMN
     | InsertCharacters n \<Rightarrow> n \<le> MAX_CURSOR_COLUMN | _ \<Rightarrow> True)"

lemma csi_event_ok:
  assumes "sanitizer_ok sz"
  shows "\<exists>e. csi_event sz ch = Inr e \<and> (\<forall>x. e = Some x \<longrightarrow> event_ok x)"
  using assms
  by (auto simp: csi_event_def sanitizer_ok_def event_ok_def Let_def MAX_CURSOR_COLUMN_def split: option.splits)

lemma sanitizer_ok_state [simp]:
  "sanitizer_ok (sz\<lparr>sz_state := x\<rparr>) = sanitizer_ok sz" "sanitizer_ok (sz\<lparr>csi_invalid := y\<rparr>) = sanitizer_ok sz"
  by (simp_all add: sanitizer_ok_def)

lemma begin_csi_ok: "sanitizer_ok sz \<Longrightarrow> sanitizer_ok (begin_csi sz)"
  by (simp add: begin_csi_def sanitizer_ok_def)

lemma ground_step_ok:
  assumes "sanitizer_ok sz" "ground_step ch sz = (events, sz')"
  shows "sanitizer_ok sz' \<and> list_all event_ok events"
  using assms by (auto simp: ground_step_def begin_csi_ok event_ok_def split: if_splits)

lemma escape_step_ok: "sanitizer_ok sz \<Longrightarrow> sanitizer_ok (escape_step ch sz)"
  by (simp add: escape_step_def begin_csi_ok)

lemma csi_step_ok:
  assumes "sanitizer_ok sz"
  shows "\<exists>events sz'. csi_step ch sz = Inr (events, sz') \<and> sanitizer_ok sz' \<and> list_all event_ok events"
proof -
  obtain e where e: "csi_event sz ch = Inr e" "\<forall>x. e = Some x \<longrightarrow> event_ok x" using csi_event_ok [OF assms] by blast
  have "sanitizer_ok (sz\<lparr>csi_params := (csi_params sz)[csi_len sz := b], csi_len := csi_len sz + 1\<rparr>)"
    if "csi_len sz < MAX_CSI_PARAMS" for b using assms that by (simp add: sanitizer_ok_def)
  then show ?thesis using e assms by (cases e) (simp_all add: csi_step_def)
qed

lemma sanitize_char_ok:
  assumes "sanitizer_ok sz"
  shows "\<exists>events sz'. sanitize_char ch sz = Inr (events, sz') \<and> sanitizer_ok sz' \<and> list_all event_ok events"
proof (cases "sz_state sz")
  case Ground
  then show ?thesis using ground_step_ok [OF assms, of ch]
    by (cases "ground_step ch sz") (simp add: sanitize_char_def)
next
  case Csi
  then show ?thesis using csi_step_ok [OF assms] by (simp add: sanitize_char_def)
qed (simp_all add: sanitize_char_def escape_step_ok assms)

lemma feed_events_ok:
  assumes "sanitizer_ok sz"
  shows "\<exists>events sz'. feed_events text sz = Inr (events, sz') \<and> sanitizer_ok sz' \<and> list_all event_ok events"
  using assms
proof (induction "text" arbitrary: sz)
  case (Cons ch rest)
  from sanitize_char_ok [OF Cons.prems, of ch] obtain events sz' where
    "sanitize_char ch sz = Inr (events, sz')" "sanitizer_ok sz'" "list_all event_ok events" by blast
  with Cons.IH [of sz'] show ?case by auto
qed simp

lemma event_text_clean: "event_ok e \<Longrightarrow> list_all clean (event_text e)"
  by (cases e) (auto simp: event_ok_def clean_def)

lemma feed_events_append:
  "feed_events (a @ b) sz = and_then (feed_events a sz) (\<lambda>(events, sz).
     and_then (feed_events b sz) (\<lambda>(more, sz). Inr (events @ more, sz)))"
  by (induction a arbitrary: sz) (simp_all add: and_then_assoc case_prod_beta')

lemma feed_clean:
  assumes "list_all clean out" "sz_state sz = Ground"
  shows "sanitizer_feed out sz = Inr (out, sz)"
  using assms
proof (induction out)
  case (Cons ch out)
  have g: "ground_step ch sz = ([if ch = 0x0a then Newline else if ch = 9 then Tab else Character ch], sz)"
    using Cons.prems by (auto simp: ground_step_def clean_def is_control_def)
  obtain events where "feed_events out sz = Inr (events, sz)" "concat (map event_text events) = out"
    using Cons by (auto simp: sanitizer_feed_def and_then_Inr_iff)
  then show ?case using g Cons.prems by (auto simp: sanitizer_feed_def sanitize_char_def)
qed (simp add: sanitizer_feed_def)


section \<open>What the editor keeps\<close>

definition cells :: "(uchar \<Rightarrow> nat option) \<Rightarrow> uchar list \<Rightarrow> nat" where
  "cells width line = sum_list (map (char_width width) line)"

definition editor_ok :: "(uchar \<Rightarrow> nat option) \<Rightarrow> RecordingLineEditor \<Rightarrow> bool" where
  "editor_ok width ed \<longleftrightarrow> ed_width ed = cells width (ed_line ed) \<and> ed_cursor ed \<le> MAX_CURSOR_COLUMN \<and>
     ed_width ed \<le> MAX_CURSOR_COLUMN + 2"

lemma cells_simps [simp]:
  "cells width [] = 0" "cells width (ch # line) = char_width width ch + cells width line"
  "cells width (a @ b) = cells width a + cells width b"
  by (simp_all add: cells_def)

lemma cells_blanks: "width 0x20 = Some 1 \<Longrightarrow> cells width (blanks n) = n"
  by (induction n) (simp_all add: char_width_def)

lemma cells_split: "cells width line = cells width (take i line) + cells width (drop i line)"
  by (metis append_take_drop_id cells_simps(3))

lemma cells_take_mono: "i \<le> j \<Longrightarrow> cells width (take i line) \<le> cells width (take j line)"
  by (metis cells_simps(3) le_add1 le_Suc_ex take_add)

lemma cells_take_le: "cells width (take i line) \<le> cells width line"
  using cells_split [of width line i] by simp

lemma cells_take_Suc: "i < length line \<Longrightarrow> cells width (take (Suc i) line) = cells width (take i line) + char_width width (line ! i)"
  by (simp add: take_Suc_conv_app_nth)

lemma cells_drop: "cells width (drop i line) = cells width line - cells width (take i line)"
  using cells_split [of width line i] by simp

text \<open>A position found by \<open>index_at\<close>: the last one whose column does not pass the target, after
  any marks of the cell before it.\<close>

definition found :: "(uchar \<Rightarrow> nat option) \<Rightarrow> uchar list \<Rightarrow> nat \<Rightarrow> nat \<Rightarrow> nat \<Rightarrow> bool" where
  "found width line target i column \<longleftrightarrow> i \<le> length line \<and> column = cells width (take i line) \<and> column \<le> target \<and>
     (i < length line \<longrightarrow> target < column + char_width width (line ! i))"

lemma index_loop_found:
  assumes "index_loop width target rest (length pre) (cells width pre) = r" "cells width pre \<le> target"
  shows "case r of Some (i, column) \<Rightarrow> found width (pre @ rest) target i column \<and> i < length (pre @ rest)
    | None \<Rightarrow> cells width (pre @ rest) \<le> target"
  using assms
proof (induction rest arbitrary: pre)
  case (Cons ch rest)
  show ?case
  proof (cases "target < cells width pre + char_width width ch")
    case True
    then show ?thesis using Cons.prems by (auto simp: found_def)
  next
    case False
    then have "index_loop width target rest (length (pre @ [ch])) (cells width (pre @ [ch])) = r"
      "cells width (pre @ [ch]) \<le> target"
      using Cons.prems by simp_all
    from Cons.IH [OF this] show ?thesis by (cases r) (auto simp: add_ac)
  qed
qed auto

lemma index_at_found:
  assumes "ed_width ed = cells width (ed_line ed)"
  obtains i column where "index_at width target ed = (i, column)" "found width (ed_line ed) target i column"
proof (cases "ed_width ed \<le> target")
  case True
  then show ?thesis using that assms by (simp add: index_at_def found_def)
next
  case False
  have "case index_loop width target (ed_line ed) 0 0 of Some (i, column) \<Rightarrow> found width (ed_line ed) target i column
      \<and> i < length (ed_line ed) | None \<Rightarrow> cells width (ed_line ed) \<le> target"
    using index_loop_found [of width target "ed_line ed" "[]"] by (auto split: option.splits)
  then show ?thesis using that False assms by (auto simp: index_at_def split: option.splits)
qed

lemma found_min: "found width line target i column \<Longrightarrow> column \<le> cells width line"
  by (auto simp: found_def cells_take_le)

lemma found_end: "found width line target i column \<Longrightarrow> i = length line \<Longrightarrow> column = cells width line"
  by (auto simp: found_def)

lemma found_mono:
  assumes "found width line t i c" "found width line t' j d" "t \<le> t'"
  shows "i \<le> j"
proof (rule ccontr)
  assume "\<not> i \<le> j"
  then have "Suc j \<le> i" and j: "j < length line" using assms(1) by (auto simp: found_def)
  from cells_take_mono [OF this(1), of width line] have "d + char_width width (line ! j) \<le> c"
    using assms(1,2) j by (simp add: found_def cells_take_Suc)
  then show False using assms j by (auto simp: found_def)
qed

lemma found_exact:
  assumes "found width line t i c" "found width line t' j d" "t \<le> t'"
  shows "c \<le> d"
  using found_mono [OF assms] assms(1,2) by (auto simp: found_def cells_take_mono)

lemma replace_range_ok:
  assumes "i \<le> j" "j \<le> length line"
  shows "replace_range i j new line = Inr (take i line @ new @ drop j line)"
    "cells width (take i line @ new @ drop j line) =
       cells width (take i line) + cells width new + (cells width line - cells width (take j line))"
  using assms by (simp_all add: replace_range_def cells_drop)

text \<open>What is relied on of the width table: a blank takes one cell, and nothing more than two.\<close>

definition width_table :: "(uchar \<Rightarrow> nat option) \<Rightarrow> bool" where
  "width_table width \<longleftrightarrow> width 0x20 = Some 1 \<and> (\<forall>ch n. width ch = Some n \<longrightarrow> n \<le> 2)"

lemma width_tableD: "width_table width \<Longrightarrow> width 0x20 = Some 1" "width_table width \<Longrightarrow> char_width width ch \<le> 2"
  by (auto simp: width_table_def char_width_def split: option.splits)

lemma normalize_ok:
  assumes "width_table width" "ed_width ed = cells width (ed_line ed)"
  shows "\<exists>line. normalize_cell_at width target ed = Inr (ed\<lparr>ed_line := line\<rparr>) \<and> cells width line = cells width (ed_line ed)
    \<and> (target \<le> cells width line \<longrightarrow> (\<exists>i. i \<le> length line \<and> cells width (take i line) = target))"
proof -
  obtain i c where x: "index_at width target ed = (i, c)" and f: "found width (ed_line ed) target i c"
    using index_at_found [OF assms(2)] by blast
  show ?thesis
  proof (cases "c < target \<and> i < length (ed_line ed)")
    case True
    let ?w = "char_width width (ed_line ed ! i)"
    let ?line = "take i (ed_line ed) @ blanks ?w @ drop (Suc i) (ed_line ed)"
    have "normalize_cell_at width target ed = Inr (ed\<lparr>ed_line := ?line\<rparr>)"
      using True by (simp add: normalize_cell_at_def x replace_range_def)
    moreover have "cells width ?line = cells width (ed_line ed)"
      using True cells_split [of width "ed_line ed" "Suc i"] width_tableD(1) [OF assms(1)]
      by (simp add: cells_blanks cells_take_Suc)
    moreover have "cells width (take (i + (target - c)) ?line) = target" "i + (target - c) \<le> length ?line"
      using True f width_tableD(1) [OF assms(1)] by (auto simp: found_def cells_blanks min_def)
    ultimately show ?thesis by blast
  next
    case False
    then have "normalize_cell_at width target ed = Inr ed" by (auto simp: normalize_cell_at_def x)
    moreover have "ed = ed\<lparr>ed_line := ed_line ed\<rparr>" by simp
    moreover have "cells width (take i (ed_line ed)) = target" if "target \<le> cells width (ed_line ed)"
      using False f that by (auto simp: found_def)
    ultimately show ?thesis using f unfolding found_def by metis
  qed
qed

text \<open>Where a wide character that the target cuts is stepped over.\<close>

lemma step_over:
  assumes "found width line target j d"
    and "(j', d') = (if d < target \<and> j < length line then (j + 1, d + char_width width (line ! j)) else (j, d))"
  shows "j \<le> j'" "j' \<le> length line" "d' = cells width (take j' line)"
    "target \<le> d' \<or> j' = length line \<and> d' = cells width line \<and> d' < target" "d' \<le> cells width line"
proof -
  have "j \<le> j' \<and> j' \<le> length line \<and> d' = cells width (take j' line) \<and>
    (target \<le> d' \<or> j' = length line \<and> d' = cells width line \<and> d' < target)"
  proof (cases "d < target \<and> j < length line")
    case True
    then have "j' = Suc j" "d' = d + char_width width (line ! j)" using assms(2) by simp_all
    then show ?thesis using True assms(1) by (simp add: found_def cells_take_Suc)
  next
    case False
    then have "j' = j" "d' = d" using assms(2) by (simp_all split: if_splits)
    then show ?thesis using False assms(1) by (auto simp: found_def)
  qed
  then show "j \<le> j'" "j' \<le> length line" "d' = cells width (take j' line)"
    "target \<le> d' \<or> j' = length line \<and> d' = cells width line \<and> d' < target" "d' \<le> cells width line"
    by (blast intro: cells_take_le)+
qed

lemma write_inside_ok:
  assumes "width_table width" "ed_width ed = cells width (ed_line ed)" "ed_cursor ed < ed_width ed"
  shows "\<exists>line. write_character width ch ed = Inr (ed\<lparr>ed_line := line,
      ed_width := max (ed_width ed) (ed_cursor ed + char_width width ch),
      ed_cursor := min (saturating_add (ed_cursor ed) (char_width width ch)) MAX_CURSOR_COLUMN\<rparr>) \<and>
    cells width line = max (ed_width ed) (ed_cursor ed + char_width width ch)"
proof -
  let ?line = "ed_line ed" and ?w = "char_width width ch"
  let ?target = "ed_cursor ed + ?w"
  obtain i c where x: "index_at width (ed_cursor ed) ed = (i, c)" and f: "found width ?line (ed_cursor ed) i c"
    using index_at_found [OF assms(2)] by blast
  obtain j d where y: "index_at width ?target ed = (j, d)" and g: "found width ?line ?target j d"
    using index_at_found [OF assms(2)] by blast
  obtain j' d' where z: "(j', d') = (if d < ?target \<and> j < length ?line then (j + 1, d + char_width width (?line ! j)) else (j, d))"
    by (metis surj_pair)
  note s = step_over [OF g z]
  have ij: "i \<le> j'" using found_mono [OF f g] s(1) by simp
  let ?new = "blanks (ed_cursor ed - c) @ [ch] @ blanks (d' - ?target)"
  have c: "c \<le> ed_cursor ed" "c = cells width (take i ?line)" using f by (auto simp: found_def)
  have "write_character width ch ed = Inr (ed\<lparr>ed_line := take i ?line @ ?new @ drop j' ?line,
      ed_width := max (ed_width ed) ?target, ed_cursor := min (saturating_add (ed_cursor ed) ?w) MAX_CURSOR_COLUMN\<rparr>)"
    using assms(3) c(1) replace_range_ok(1) [OF ij s(2)]
    by (simp add: write_character_def Let_def x y z [symmetric])
  moreover have "cells width (take i ?line @ ?new @ drop j' ?line) = max (ed_width ed) ?target"
    using c s(3,4,5) assms(2) width_tableD(1) [OF assms(1)] replace_range_ok(2) [OF ij s(2), of width ?new]
    by (auto simp: cells_blanks)
  ultimately show ?thesis by blast
qed

lemma write_character_ok:
  assumes "width_table width" "editor_ok width ed"
  shows "\<exists>ed'. write_character width ch ed = Inr ed' \<and> editor_ok width ed'"
proof (cases "ed_width ed \<le> ed_cursor ed")
  case True
  then show ?thesis using assms width_tableD(2) [OF assms(1), of ch] width_tableD(1) [OF assms(1)]
    by (simp add: write_character_def Let_def editor_ok_def cells_blanks)
next
  case False
  have e: "ed_width ed = cells width (ed_line ed)" using assms(2) by (simp add: editor_ok_def)
  obtain line where w: "write_character width ch ed = Inr (ed\<lparr>ed_line := line,
      ed_width := max (ed_width ed) (ed_cursor ed + char_width width ch),
      ed_cursor := min (saturating_add (ed_cursor ed) (char_width width ch)) MAX_CURSOR_COLUMN\<rparr>)"
    and l: "cells width line = max (ed_width ed) (ed_cursor ed + char_width width ch)"
    using write_inside_ok [OF assms(1) e] False by (metis not_le)
  show ?thesis using assms(2) l width_tableD(2) [OF assms(1), of ch] by (simp add: w editor_ok_def)
qed

lemma erase_right_ok:
  assumes "width_table width" "editor_ok width ed"
  shows "\<exists>ed'. erase_right width ed = Inr ed' \<and> editor_ok width ed'"
proof -
  have e: "ed_width ed = cells width (ed_line ed)" using assms(2) by (simp add: editor_ok_def)
  obtain i c where x: "index_at width (ed_cursor ed) ed = (i, c)" and f: "found width (ed_line ed) (ed_cursor ed) i c"
    using index_at_found [OF e] by blast
  have "c \<le> min (ed_cursor ed) (ed_width ed)" "c = cells width (take i (ed_line ed))"
    using f found_min [OF f] e by (auto simp: found_def)
  then show ?thesis using assms(2) width_tableD(1) [OF assms(1)]
    by (auto simp: erase_right_def x Let_def editor_ok_def cells_blanks)
qed

lemma erase_left_ok:
  assumes "width_table width" "editor_ok width ed"
  shows "\<exists>ed'. erase_left width ed = Inr ed' \<and> editor_ok width ed'"
proof -
  let ?line = "ed_line ed" and ?stop = "min (saturating_add (ed_cursor ed) 1) (ed_width ed)"
  have e: "ed_width ed = cells width ?line" using assms(2) by (simp add: editor_ok_def)
  obtain j d where y: "index_at width ?stop ed = (j, d)" and g: "found width ?line ?stop j d"
    using index_at_found [OF e] by blast
  obtain j' d' where z: "(j', d') = (if d < ?stop \<and> j < length ?line then (j + 1, d + char_width width (?line ! j)) else (j, d))"
    by (metis surj_pair)
  note s = step_over [OF g z]
  have d': "(if d < ?stop \<and> j < length ?line then (j + 1, d + char_width width (?line ! j)) else (j, ?stop)) = (j', d')"
  proof (cases "d < ?stop \<and> j < length ?line")
    case False
    then have "d = ?stop" using g e by (auto simp: found_def)
    then show ?thesis using False z by (simp del: min.bounded_iff min_less_iff_disj)
  qed (use z in simp)
  have "erase_left width ed = Inr (ed\<lparr>ed_line := take 0 ?line @ blanks d' @ drop j' ?line\<rparr>)"
    unfolding erase_left_def Let_def y prod.case d' using replace_range_ok(1) [of 0 j' ?line "blanks d'"] s(2) by simp
  moreover have "cells width (take 0 ?line @ blanks d' @ drop j' ?line) = cells width ?line"
    using replace_range_ok(2) [of 0 j' ?line width "blanks d'"] s(2,3,5) width_tableD(1) [OF assms(1)]
    by (simp add: cells_blanks)
  ultimately show ?thesis using assms(2) by (simp add: editor_ok_def)
qed

lemma delete_characters_ok:
  assumes "width_table width" "editor_ok width ed"
  shows "\<exists>ed'. delete_characters width count ed = Inr ed' \<and> editor_ok width ed'"
proof -
  let ?t = "saturating_add (ed_cursor ed) count"
  have e: "ed_width ed = cells width (ed_line ed)" using assms(2) by (simp add: editor_ok_def)
  obtain l1 where n1: "normalize_cell_at width (ed_cursor ed) ed = Inr (ed\<lparr>ed_line := l1\<rparr>)" "cells width l1 = ed_width ed"
    using normalize_ok [OF assms(1) e] e by metis
  obtain l2 where n2: "normalize_cell_at width ?t (ed\<lparr>ed_line := l1\<rparr>) = Inr (ed\<lparr>ed_line := l2\<rparr>)" "cells width l2 = ed_width ed"
    using normalize_ok [OF assms(1), of "ed\<lparr>ed_line := l1\<rparr>" ?t] n1(2) by auto
  let ?ed = "ed\<lparr>ed_line := l2\<rparr>"
  have e2: "ed_width ?ed = cells width (ed_line ?ed)" using n2(2) by simp
  obtain i c where x: "index_at width (ed_cursor ed) ?ed = (i, c)" and f: "found width l2 (ed_cursor ed) i c"
    using index_at_found [OF e2] by auto
  obtain j d where y: "index_at width ?t ?ed = (j, d)" and g: "found width l2 ?t j d"
    using index_at_found [OF e2] by auto
  have "ed_cursor ed \<le> ?t" using assms(2) by (simp add: saturating_add_def editor_ok_def MAX_CURSOR_COLUMN_def)
  from found_mono [OF f g this] found_exact [OF f g this] have ij: "i \<le> j" and cd: "c \<le> d" by auto
  have j: "j \<le> length l2" "c = cells width (take i l2)" "d = cells width (take j l2)" "d \<le> ed_width ed"
    using f g found_min [OF g] n2(2) by (auto simp: found_def)
  have "delete_characters width count ed = Inr (?ed\<lparr>ed_line := take i l2 @ drop j l2, ed_width := ed_width ed - (d - c)\<rparr>)"
    using replace_range_ok(1) [OF ij j(1), of "[]"] cd j(4)
    by (simp add: delete_characters_def n1 n2 x y)
  moreover have "cells width (take i l2 @ drop j l2) = ed_width ed - (d - c)"
    using replace_range_ok(2) [OF ij j(1), of width "[]"] j cd n2(2) by simp
  ultimately show ?thesis using assms(2) by (auto simp: editor_ok_def)
qed

lemma insert_characters_ok:
  assumes "width_table width" "editor_ok width ed"
  shows "\<exists>ed'. insert_characters width count ed = Inr ed' \<and> editor_ok width ed'"
proof -
  have e: "ed_width ed = cells width (ed_line ed)" using assms(2) by (simp add: editor_ok_def)
  obtain l1 where n1: "normalize_cell_at width (ed_cursor ed) ed = Inr (ed\<lparr>ed_line := l1\<rparr>)" "cells width l1 = ed_width ed"
    using normalize_ok [OF assms(1) e] e by metis
  have e1: "ed_width (ed\<lparr>ed_line := l1\<rparr>) = cells width (ed_line (ed\<lparr>ed_line := l1\<rparr>))" using n1(2) by simp
  obtain i c where x: "index_at width (ed_cursor ed) (ed\<lparr>ed_line := l1\<rparr>) = (i, c)" and f: "found width l1 (ed_cursor ed) i c"
    using index_at_found [OF e1] by auto
  have i: "i \<le> length l1" using f by (simp add: found_def)
  let ?n = "min count (MAX_CURSOR_COLUMN - ed_width ed)"
  have "insert_characters width count ed =
      Inr (ed\<lparr>ed_line := take i l1 @ blanks ?n @ drop i l1, ed_width := ed_width ed + ?n\<rparr>)"
    using replace_range_ok(1) [OF order_refl i] by (simp add: insert_characters_def n1 x Let_def)
  moreover have "cells width (take i l1 @ blanks ?n @ drop i l1) = ed_width ed + ?n"
    using cells_split [of width l1 i] n1(2) width_tableD(1) [OF assms(1)] by (simp add: cells_blanks)
  ultimately show ?thesis using assms(2) by (auto simp: editor_ok_def)
qed

lemma editor_feed_ok:
  assumes "width_table width" "editor_ok width ed"
  shows "\<exists>line ed'. editor_feed width event ed = Inr (line, ed') \<and> editor_ok width ed'"
proof (cases event)
  case (Character ch)
  then show ?thesis using write_character_ok [OF assms, of ch] by (auto simp: editor_feed_def)
next
  case (EraseLine n)
  have "editor_ok width (ed\<lparr>ed_line := [], ed_width := 0\<rparr>)" using assms(2) by (simp add: editor_ok_def)
  then show ?thesis using erase_right_ok [OF assms] erase_left_ok [OF assms] assms(2) EraseLine
    by (auto simp: editor_feed_def)
next
  case (DeleteCharacters n)
  then show ?thesis using delete_characters_ok [OF assms, of n] by (auto simp: editor_feed_def)
next
  case (InsertCharacters n)
  then show ?thesis using insert_characters_ok [OF assms, of n] by (auto simp: editor_feed_def)
qed (use assms(2) in \<open>auto simp: editor_feed_def editor_ok_def take_pending_def editor_default_def Let_def\<close>)

lemma editor_run_ok:
  assumes "width_table width" "editor_ok width ed"
  shows "\<exists>lines ed'. editor_run width events ed = Inr (lines, ed') \<and> editor_ok width ed'"
  using assms(2)
proof (induction events arbitrary: ed)
  case (Cons event events)
  obtain line ed' where "editor_feed width event ed = Inr (line, ed')" "editor_ok width ed'"
    using editor_feed_ok [OF assms(1) Cons.prems] by blast
  with Cons.IH [of ed'] show ?case by auto
qed simp


section \<open>Rows of narrow characters\<close>

text \<open>
  The contract of the editor for characters that take one cell each: the row is an array of
  cells, printing overwrites the cell under the cursor, and the edits shift or blank cells.
\<close>

fun row_spec :: "RecordingEvent \<Rightarrow> uchar list \<Rightarrow> nat \<Rightarrow> uchar list option \<times> uchar list \<times> nat" where
  "row_spec (Character ch) row cursor =
     (None, if cursor < length row then row[cursor := ch] else row @ blanks (cursor - length row) @ [ch],
      min (cursor + 1) MAX_CURSOR_COLUMN)"
| "row_spec Backspace row cursor = (None, row, cursor - 1)"
| "row_spec CarriageReturn row cursor = (None, row, 0)"
| "row_spec Newline row cursor = (Some (trim_end row), [], 0)"
| "row_spec Tab row cursor = (None, row, min ((cursor div 8 + 1) * 8) MAX_CURSOR_COLUMN)"
| "row_spec (CursorLeft n) row cursor = (None, row, cursor - n)"
| "row_spec (CursorRight n) row cursor = (None, row, min (cursor + n) MAX_CURSOR_COLUMN)"
| "row_spec (CursorColumn n) row cursor = (None, row, min n MAX_CURSOR_COLUMN)"
| "row_spec (EraseLine n) row cursor =
     (None, if n = 0 then take cursor row
            else if n = 1 then blanks (min (cursor + 1) (length row)) @ drop (cursor + 1) row
            else if n = 2 then [] else row, cursor)"
| "row_spec (DeleteCharacters n) row cursor = (None, take cursor row @ drop (cursor + n) row, cursor)"
| "row_spec (InsertCharacters n) row cursor =
     (None, take cursor row @ blanks (min n (MAX_CURSOR_COLUMN - length row)) @ drop cursor row, cursor)"

fun row_run :: "RecordingEvent list \<Rightarrow> uchar list \<Rightarrow> nat \<Rightarrow> uchar list list \<times> uchar list \<times> nat" where
  "row_run [] row cursor = ([], row, cursor)"
| "row_run (event # events) row cursor =
     (let (line, row, cursor) = row_spec event row cursor; (lines, rest) = row_run events row cursor
      in (case line of None \<Rightarrow> lines | Some l \<Rightarrow> l # lines, rest))"

definition narrow :: "(uchar \<Rightarrow> nat option) \<Rightarrow> RecordingLineEditor \<Rightarrow> bool" where
  "narrow width ed \<longleftrightarrow> list_all (\<lambda>ch. width ch = Some 1) (ed_line ed) \<and> ed_width ed = length (ed_line ed) \<and>
     ed_cursor ed \<le> MAX_CURSOR_COLUMN"

definition narrow_event :: "(uchar \<Rightarrow> nat option) \<Rightarrow> RecordingEvent \<Rightarrow> bool" where
  "narrow_event width event \<longleftrightarrow> event_ok event \<and> (case event of Character ch \<Rightarrow> width ch = Some 1 | _ \<Rightarrow> True)"

lemma narrow_cells: "list_all (\<lambda>ch. width ch = Some 1) line \<Longrightarrow> cells width line = length line"
  by (induction line) (simp_all add: char_width_def)

lemma narrow_found:
  assumes "list_all (\<lambda>ch. width ch = Some 1) line" "found width line target i c"
  shows "i = min target (length line) \<and> c = min target (length line)"
proof -
  have "list_all (\<lambda>ch. width ch = Some 1) (take i line)" using assms(1) by (auto simp: list_all_iff dest: in_set_takeD)
  from narrow_cells [OF this] have "c = i" "i \<le> length line" "i \<le> target" using assms(2) by (auto simp: found_def)
  moreover have "target < i + 1" if "i < length line"
    using assms that \<open>c = i\<close> by (auto simp: found_def list_all_length char_width_def)
  ultimately show ?thesis by fastforce
qed

lemma narrow_index_at:
  assumes "narrow width ed"
  shows "index_at width target ed = (min target (length (ed_line ed)), min target (length (ed_line ed)))"
proof -
  have n: "list_all (\<lambda>ch. width ch = Some 1) (ed_line ed)" using assms by (simp add: narrow_def)
  have "ed_width ed = cells width (ed_line ed)" using assms narrow_cells [OF n] by (simp add: narrow_def)
  then obtain i c where x: "index_at width target ed = (i, c)" and f: "found width (ed_line ed) target i c"
    by (rule index_at_found)
  from narrow_found [OF n f] show ?thesis unfolding x by blast
qed

lemma narrow_normalize: "narrow width ed \<Longrightarrow> normalize_cell_at width target ed = Inr ed"
  by (auto simp: normalize_cell_at_def narrow_index_at Let_def)

lemma saturating_small: "a \<le> MAX_CURSOR_COLUMN \<Longrightarrow> b \<le> MAX_CURSOR_COLUMN \<Longrightarrow> saturating_add a b = a + b"
  by (simp add: saturating_add_def MAX_CURSOR_COLUMN_def)

lemma narrow_write:
  assumes "narrow width ed" "width ch = Some 1"
  shows "write_character width ch ed = Inr (ed\<lparr>ed_line := fst (snd (row_spec (Character ch) (ed_line ed) (ed_cursor ed))),
    ed_width := max (ed_width ed) (ed_cursor ed + 1), ed_cursor := min (ed_cursor ed + 1) MAX_CURSOR_COLUMN\<rparr>)"
proof (cases "ed_cursor ed < length (ed_line ed)")
  case True
  then show ?thesis using assms
    by (simp add: write_character_def Let_def narrow_index_at narrow_def char_width_def replace_range_def
        saturating_small MAX_CURSOR_COLUMN_def upd_conv_take_nth_drop min_def)
next
  case False
  then show ?thesis using assms
    by (simp add: write_character_def Let_def narrow_def char_width_def saturating_small MAX_CURSOR_COLUMN_def)
qed

lemma narrow_erase_right:
  "narrow width ed \<Longrightarrow> erase_right width ed =
     Inr (ed\<lparr>ed_line := take (ed_cursor ed) (ed_line ed), ed_width := min (ed_cursor ed) (length (ed_line ed))\<rparr>)"
  by (simp add: erase_right_def narrow_index_at Let_def) (simp add: narrow_def min_def)

lemma narrow_erase_left:
  "narrow width ed \<Longrightarrow> erase_left width ed =
     Inr (ed\<lparr>ed_line := blanks (min (ed_cursor ed + 1) (length (ed_line ed))) @ drop (ed_cursor ed + 1) (ed_line ed)\<rparr>)"
  by (simp add: erase_left_def narrow_index_at Let_def replace_range_def)
    (auto simp: narrow_def saturating_small MAX_CURSOR_COLUMN_def min_def saturating_add_def)

lemma narrow_delete:
  assumes "narrow width ed" "n \<le> MAX_CURSOR_COLUMN"
  shows "delete_characters width n ed = Inr (ed\<lparr>ed_line := take (ed_cursor ed) (ed_line ed) @ drop (ed_cursor ed + n) (ed_line ed),
      ed_width := length (take (ed_cursor ed) (ed_line ed) @ drop (ed_cursor ed + n) (ed_line ed))\<rparr>)"
proof -
  have "saturating_add (ed_cursor ed) n = ed_cursor ed + n" using assms by (simp add: narrow_def saturating_small)
  then show ?thesis using assms(1)
    by (simp add: delete_characters_def narrow_normalize narrow_index_at replace_range_def) (simp add: narrow_def min_def)
qed

lemma narrow_insert:
  assumes "narrow width ed"
  shows "insert_characters width n ed = Inr (ed\<lparr>ed_line := take (ed_cursor ed) (ed_line ed) @
      blanks (min n (MAX_CURSOR_COLUMN - length (ed_line ed))) @ drop (ed_cursor ed) (ed_line ed),
      ed_width := length (ed_line ed) + min n (MAX_CURSOR_COLUMN - length (ed_line ed))\<rparr>)"
  using assms
  by (simp add: insert_characters_def narrow_normalize narrow_index_at replace_range_def Let_def) (simp add: narrow_def min_def)

lemma list_all_update: "list_all P xs \<Longrightarrow> P x \<Longrightarrow> list_all P (xs[i := x])"
  by (induction xs arbitrary: i) (auto split: nat.splits)

lemma list_all_parts: "list_all P xs \<Longrightarrow> list_all P (take i xs)" "list_all P xs \<Longrightarrow> list_all P (drop i xs)"
  by (auto simp: list_all_iff dest: in_set_takeD in_set_dropD)

lemma list_all_blanks: "P 0x20 \<Longrightarrow> list_all P (blanks n)"
  by (simp add: list_all_iff)

lemma editor_feed_narrow:
  assumes "width 0x20 = Some 1" "narrow width ed" "narrow_event width event"
  shows "\<exists>line ed'. editor_feed width event ed = Inr (line, ed') \<and> narrow width ed' \<and>
    row_spec event (ed_line ed) (ed_cursor ed) = (line, ed_line ed', ed_cursor ed')"
proof (cases event)
  case (Character ch)
  then have ch: "width ch = Some 1" using assms(3) by (simp add: narrow_event_def)
  show ?thesis using assms(1,2) ch
    by (auto simp: Character editor_feed_def narrow_write narrow_def list_all_update list_all_blanks)
next
  case (EraseLine n)
  have "narrow width (ed\<lparr>ed_line := take (ed_cursor ed) (ed_line ed), ed_width := min (ed_cursor ed) (length (ed_line ed))\<rparr>)"
    "narrow width (ed\<lparr>ed_line := blanks (min (ed_cursor ed + 1) (length (ed_line ed))) @ drop (ed_cursor ed + 1) (ed_line ed)\<rparr>)"
    "narrow width (ed\<lparr>ed_line := [], ed_width := 0\<rparr>)"
    using assms(1,2) by (auto simp: narrow_def list_all_parts list_all_blanks)
  then show ?thesis using assms(2)
    by (auto simp: EraseLine editor_feed_def narrow_erase_right narrow_erase_left)
next
  case (DeleteCharacters n)
  then have "n \<le> MAX_CURSOR_COLUMN" using assms(3) by (simp add: narrow_event_def event_ok_def)
  then show ?thesis using assms(2)
    by (simp add: DeleteCharacters editor_feed_def narrow_delete) (simp add: narrow_def list_all_parts)
next
  case (InsertCharacters n)
  then show ?thesis using assms(1,2)
    by (simp add: editor_feed_def narrow_insert) (auto simp: narrow_def list_all_parts list_all_blanks)
qed (use assms(2,3) in \<open>auto simp: editor_feed_def narrow_def narrow_event_def event_ok_def saturating_small take_pending_def
      editor_default_def Let_def\<close>)

lemma editor_run_narrow:
  assumes "width 0x20 = Some 1" "narrow width ed" "list_all (narrow_event width) events"
  shows "\<exists>lines ed'. editor_run width events ed = Inr (lines, ed') \<and> narrow width ed' \<and>
    row_run events (ed_line ed) (ed_cursor ed) = (lines, ed_line ed', ed_cursor ed')"
  using assms(2,3)
proof (induction events arbitrary: ed)
  case (Cons event events)
  obtain line ed1 where 1: "editor_feed width event ed = Inr (line, ed1)" "narrow width ed1"
    "row_spec event (ed_line ed) (ed_cursor ed) = (line, ed_line ed1, ed_cursor ed1)"
    using editor_feed_narrow [OF assms(1) Cons.prems(1), of event] Cons.prems(2) by auto
  with Cons.IH [of ed1] Cons.prems(2) show ?case by auto
qed simp


section \<open>Properties\<close>

definition example_width :: "uchar \<Rightarrow> nat option" where
  "example_width ch = (if ch < 0x20 then None else if ch < 0x1100 then Some 1 else Some 2)"

text \<open>Sanitized text is clean and final: whatever the input, the sanitizer returns text
  whose only controls are newlines and tabs, sanitizing it again changes nothing, and feeding the
  input in two pieces gives the same text.\<close>

theorem recording_sanitized:
  "\<exists>out sz. sanitizer_feed (a @ b) sanitizer_default = Inr (out, sz) \<and> list_all clean out \<and>
    sanitizer_feed out sanitizer_default = Inr (out, sanitizer_default) \<and>
    and_then (sanitizer_feed a sanitizer_default) (\<lambda>(out1, sz1).
      and_then (sanitizer_feed b sz1) (\<lambda>(out2, sz2). Inr (out1 @ out2, sz2))) = Inr (out, sz)"
proof -
  have ok: "sanitizer_ok sanitizer_default" by (simp add: sanitizer_ok_def sanitizer_default_def)
  then obtain e1 sz1 where 1: "feed_events a sanitizer_default = Inr (e1, sz1)" "sanitizer_ok sz1" "list_all event_ok e1"
    using feed_events_ok by blast
  then obtain e2 sz2 where 2: "feed_events b sz1 = Inr (e2, sz2)" "list_all event_ok e2"
    using feed_events_ok by blast
  let ?out = "concat (map event_text (e1 @ e2))"
  have "list_all clean ?out" using 1(3) 2(2) event_text_clean by (fastforce simp: list_all_iff)
  moreover from this have "sanitizer_feed ?out sanitizer_default = Inr (?out, sanitizer_default)"
    by (rule feed_clean) (simp add: sanitizer_default_def)
  ultimately show ?thesis using 1 2 by (simp add: sanitizer_feed_def feed_events_append)
qed



text \<open>C7. For characters of one cell the editor is an array of cells: its lines, row and cursor are
  those of the reference in which printing overwrites the cell under the cursor and the
  erase, delete and insert controls blank or shift cells.\<close>

theorem recording_editor_refines:
  assumes "width 0x20 = Some 1" "list_all (narrow_event width) events"
  shows "\<exists>lines ed. editor_run width events editor_default = Inr (lines, ed) \<and>
    row_run events [] 0 = (lines, ed_line ed, ed_cursor ed)"
  using editor_run_narrow [OF assms(1) _ assms(2), of editor_default]
  by (auto simp: narrow_def editor_default_def)

theorem recording_editor_refines_witness:
  "\<exists>ed. editor_run example_width [Character 0x61, Character 0x62, CarriageReturn, Character 0x63, EraseLine 0, Newline]
     editor_default = Inr ([[0x63]], ed)"
  using recording_editor_refines [of example_width
      "[Character 0x61, Character 0x62, CarriageReturn, Character 0x63, EraseLine 0, Newline]"]
  by (auto simp: example_width_def narrow_event_def event_ok_def is_control_def trim_end_def MAX_CURSOR_COLUMN_def)

end
