(* ===== verification/Framebuffer.thy ===== *)
theory Framebuffer
  imports Prelude
begin

text \<open>
  The framebuffer of remote desktop sessions (\<open>frame.rs\<close> of the remote-desktop crate): size
  limits, the shared budget for pixel memory (\<open>pixel_memory.rs\<close>), applying bitmap updates sent by a
  server, and merging dirty rectangles.

  Coordinates and sizes of 32 bits are words; offsets are natural numbers, as \<open>usize\<close> has 64 bits
  and the checked products are tested against that width. Slices panic where Rust panics.
  \<open>alloc\<close> tells whether the allocator can reserve a number of bytes.
\<close>


section \<open>Limits and memory\<close>

record FramebufferLimits =
  max_width :: u32
  max_height :: u32
  max_bytes :: nat

definition RDP_FRAMEBUFFER_LIMITS :: FramebufferLimits where
  "RDP_FRAMEBUFFER_LIMITS = \<lparr>max_width = 8192, max_height = 8192, max_bytes = 256 * 1024 * 1024\<rparr>"

definition VNC_FRAMEBUFFER_LIMITS :: FramebufferLimits where
  "VNC_FRAMEBUFFER_LIMITS = \<lparr>max_width = 7680, max_height = 4320, max_bytes = 128 * 1024 * 1024\<rparr>"

datatype FramebufferError =
    StaleEpoch u64 u64
  | FrameOutOfBounds
  | InvalidPayload
  | SizeOverflow
  | DimensionsTooLarge u32 u32
  | AllocationFailed nat

definition checked_mul :: "nat \<Rightarrow> nat \<Rightarrow> nat option" where
  "checked_mul a b = (if a * b < 2 ^ 64 then Some (a * b) else None)"

definition checked_add :: "nat \<Rightarrow> nat \<Rightarrow> nat option" where
  "checked_add a b = (if a + b < 2 ^ 64 then Some (a + b) else None)"

definition validate_framebuffer_dimensions :: "u32 \<Rightarrow> u32 \<Rightarrow> FramebufferLimits \<Rightarrow> FramebufferError + nat" where
  "validate_framebuffer_dimensions w h limits =
     (if w = 0 \<or> h = 0 \<or> max_width limits < w \<or> max_height limits < h then Inl (DimensionsTooLarge w h)
      else and_then (ok_or (Option.bind (checked_mul (unat w) (unat h)) (\<lambda>pixels. checked_mul pixels 4)) SizeOverflow) (\<lambda>len.
        if max_bytes limits < len then Inl (DimensionsTooLarge w h) else Inr len))"

definition PIXEL_MEMORY_LIMIT :: nat where "PIXEL_MEMORY_LIMIT = 1024 * 1024 * 1024"

text \<open>\<open>PixelBudget::reserve\<close>: its loop retries until no other thread changed the counter in between.\<close>

definition budget_reserve :: "nat \<Rightarrow> nat \<Rightarrow> nat \<Rightarrow> nat option" where
  "budget_reserve limit used n =
     (case checked_add used n of None \<Rightarrow> None | Some after \<Rightarrow> if after \<le> limit then Some after else None)"

text \<open>\<open>fetch_sub\<close> wraps around.\<close>

definition lease_drop :: "nat \<Rightarrow> nat \<Rightarrow> nat" where
  "lease_drop n used = (used + (2 ^ 64 - n mod 2 ^ 64)) mod 2 ^ 64"

lemma lease_drop_held: "n \<le> used \<Longrightarrow> used < 2 ^ 64 \<Longrightarrow> lease_drop n used = used - n"
proof -
  assume a: "n \<le> used" "used < 2 ^ 64"
  then have "used + (2 ^ 64 - n mod 2 ^ 64) = (used - n) + 2 ^ 64" by simp
  then have "lease_drop n used = (used - n) mod 2 ^ 64" unfolding lease_drop_def by (simp only: mod_add_self2)
  then show ?thesis using a by simp
qed


section \<open>Frames\<close>

datatype PixelFormat = Bgra8 | Rgba8

record Bitmap =
  b_epoch :: u64
  b_full :: bool
  b_x :: u32
  b_y :: u32
  b_width :: u32
  b_height :: u32
  b_stride :: u32
  b_format :: PixelFormat
  b_pixels :: "u8 list"

datatype RemoteFrameEvent = Reset u64 u32 u32 | BitmapEvent Bitmap

fun frame_cost :: "RemoteFrameEvent \<Rightarrow> nat" where
  "frame_cost (BitmapEvent b) = length (b_pixels b)"
| "frame_cost _ = 0"

fun frame_batch_loop :: "RemoteFrameEvent list \<Rightarrow> nat \<Rightarrow> nat \<Rightarrow> nat" where
  "frame_batch_loop [] n count = count"
| "frame_batch_loop (frame # rest) n count =
     (if 0 < count \<and> 8 * 1024 * 1024 < saturating_add n (frame_cost frame) then count
      else frame_batch_loop rest (saturating_add n (frame_cost frame)) (count + 1))"

definition frame_batch_len :: "RemoteFrameEvent list \<Rightarrow> nat" where
  "frame_batch_len frames = frame_batch_loop (take 8 frames) 0 0"

record Framebuffer =
  f_width :: u32
  f_height :: u32
  f_epoch :: u64
  f_bgra :: "u8 list"

record DirtyRect =
  r_x :: u32
  r_y :: u32
  r_width :: u32
  r_height :: u32

text \<open>The state of the shared budget goes in and out.\<close>

definition framebuffer_new ::
  "(nat \<Rightarrow> bool) \<Rightarrow> u64 \<Rightarrow> u32 \<Rightarrow> u32 \<Rightarrow> FramebufferLimits \<Rightarrow> nat \<Rightarrow> (FramebufferError + Framebuffer) \<times> nat" where
  "framebuffer_new alloc epoch w h limits used =
     (case validate_framebuffer_dimensions w h limits of
        Inl e \<Rightarrow> (Inl e, used)
      | Inr len \<Rightarrow>
          (case budget_reserve PIXEL_MEMORY_LIMIT used len of
             None \<Rightarrow> (Inl (AllocationFailed len), used)
           | Some used' \<Rightarrow>
               if alloc len then
                 (Inr \<lparr>f_width = w, f_height = h, f_epoch = epoch, f_bgra = replicate len 0\<rparr>, used')
               else (Inl (AllocationFailed len), lease_drop len used')))"

text \<open>A reset holds the old buffer until the new one is there, and drops its lease then.\<close>

definition framebuffer_reset ::
  "(nat \<Rightarrow> bool) \<Rightarrow> u64 \<Rightarrow> u32 \<Rightarrow> u32 \<Rightarrow> FramebufferLimits \<Rightarrow> Framebuffer \<Rightarrow> nat \<Rightarrow> (FramebufferError + Framebuffer) \<times> nat" where
  "framebuffer_reset alloc epoch w h limits fb used =
     (case framebuffer_new alloc epoch w h limits used of
        (Inl e, used) \<Rightarrow> (Inl e, used)
      | (Inr new, used) \<Rightarrow> (Inr new, lease_drop (length (f_bgra fb)) used))"

definition slice :: "nat \<Rightarrow> nat \<Rightarrow> 'a list \<Rightarrow> panic + 'a list" where
  "slice off n xs = (if off + n \<le> length xs then Inr (take n (drop off xs)) else Inl OutOfBounds)"

definition copy_at :: "nat \<Rightarrow> 'a list \<Rightarrow> 'a list \<Rightarrow> panic + 'a list" where
  "copy_at off src dst =
     (if off + length src \<le> length dst then Inr (take off dst @ src @ drop (off + length src) dst) else Inl OutOfBounds)"

fun rgba_to_bgra :: "u8 list \<Rightarrow> u8 list" where
  "rgba_to_bgra (a # b # c # d # rest) = c # b # a # d # rgba_to_bgra rest"
| "rgba_to_bgra xs = xs"

fun convert_row :: "PixelFormat \<Rightarrow> u8 list \<Rightarrow> u8 list" where
  "convert_row Bgra8 xs = xs"
| "convert_row Rgba8 xs = rgba_to_bgra xs"

fun apply_rows :: "Bitmap \<Rightarrow> nat \<Rightarrow> nat \<Rightarrow> nat \<Rightarrow> u8 list \<Rightarrow> panic + u8 list" where
  "apply_rows b stride 0 row bgra = Inr bgra"
| "apply_rows b stride (Suc n) row bgra =
     (let row_bytes = unat (b_width b) * 4 in
      and_then (slice (row * unat (b_stride b)) row_bytes (b_pixels b)) (\<lambda>source.
      and_then (copy_at ((unat (b_y b) + row) * stride + unat (b_x b) * 4) (convert_row (b_format b) source) bgra) (\<lambda>bgra.
      apply_rows b stride n (row + 1) bgra)))"

text \<open>The checks of \<open>apply\<close>, with the number of payload bytes a valid update has.\<close>

definition check_bitmap :: "Framebuffer \<Rightarrow> Bitmap \<Rightarrow> FramebufferError + nat" where
  "check_bitmap fb b =
     (if b_epoch b \<noteq> f_epoch fb then Inl (StaleEpoch (f_epoch fb) (b_epoch b))
      else if b_width b = 0 \<or> b_height b = 0 \<or>
          \<not> (unat (b_x b) + unat (b_width b) < 2 ^ 32 \<and> unat (b_x b) + unat (b_width b) \<le> unat (f_width fb)) \<or>
          \<not> (unat (b_y b) + unat (b_height b) < 2 ^ 32 \<and> unat (b_y b) + unat (b_height b) \<le> unat (f_height fb))
        then Inl FrameOutOfBounds
      else and_then (ok_or (checked_mul (unat (b_width b)) 4) InvalidPayload) (\<lambda>row_bytes.
        if unat (b_stride b) < row_bytes then Inl InvalidPayload
        else and_then (ok_or (Option.bind (checked_mul (unat (b_height b - 1)) (unat (b_stride b)))
              (\<lambda>off. checked_add off row_bytes)) InvalidPayload) (\<lambda>required.
          if length (b_pixels b) \<noteq> required then Inl InvalidPayload else Inr required)))"

definition framebuffer_apply ::
  "Framebuffer \<Rightarrow> RemoteFrameEvent \<Rightarrow> panic + (FramebufferError + DirtyRect option) \<times> Framebuffer" where
  "framebuffer_apply fb frame =
     (case frame of
        Reset _ _ _ \<Rightarrow> Inr (Inr None, fb)
      | BitmapEvent b \<Rightarrow>
          (case check_bitmap fb b of
             Inl e \<Rightarrow> Inr (Inl e, fb)
           | Inr required \<Rightarrow>
               let stride = unat (f_width fb) * 4 in
               and_then
                 (if b_format b = Bgra8 \<and> unat (b_stride b) = stride \<and> unat (b_width b) * 4 = stride
                  then and_then (slice 0 required (b_pixels b)) (\<lambda>source.
                    copy_at (unat (b_y b) * stride) source (f_bgra fb))
                  else apply_rows b stride (unat (b_height b)) 0 (f_bgra fb)) (\<lambda>bgra.
               Inr (Inr (Some \<lparr>r_x = b_x b, r_y = b_y b, r_width = b_width b, r_height = b_height b\<rparr>),
                    fb\<lparr>f_bgra := bgra\<rparr>))))"


section \<open>Dirty rectangles\<close>

definition saturating_add32 :: "u32 \<Rightarrow> u32 \<Rightarrow> u32" where
  "saturating_add32 a b = (if unat a + unat b < 2 ^ 32 then a + b else - 1)"

definition rect_right :: "DirtyRect \<Rightarrow> u32" where
  "rect_right r = saturating_add32 (r_x r) (r_width r)"

definition rect_bottom :: "DirtyRect \<Rightarrow> u32" where
  "rect_bottom r = saturating_add32 (r_y r) (r_height r)"

definition intersects_or_touches :: "DirtyRect \<Rightarrow> DirtyRect \<Rightarrow> bool" where
  "intersects_or_touches r other \<longleftrightarrow> r_x r \<le> rect_right other \<and> r_x other \<le> rect_right r \<and>
     r_y r \<le> rect_bottom other \<and> r_y other \<le> rect_bottom r"

definition rect_union :: "DirtyRect \<Rightarrow> DirtyRect \<Rightarrow> DirtyRect" where
  "rect_union r other =
     (let x = min (r_x r) (r_x other); y = min (r_y r) (r_y other);
          right = max (rect_right r) (rect_right other); bottom = max (rect_bottom r) (rect_bottom other)
      in \<lparr>r_x = x, r_y = y, r_width = right - x, r_height = bottom - y\<rparr>)"

definition swap_remove :: "nat \<Rightarrow> 'a list \<Rightarrow> 'a list" where
  "swap_remove i xs = (if i = length xs - 1 then butlast xs else (butlast xs)[i := last xs])"

function merge_into :: "DirtyRect \<Rightarrow> DirtyRect list \<Rightarrow> nat \<Rightarrow> DirtyRect \<times> DirtyRect list" where
  "merge_into r merged i =
     (if i < length merged then
        if intersects_or_touches r (merged ! i) then merge_into (rect_union r (merged ! i)) (swap_remove i merged) 0
        else merge_into r merged (i + 1)
      else (r, merged))"
  by auto
termination
proof (relation "measures [\<lambda>(r, merged, i). length merged, \<lambda>(r, merged, i). length merged - i]")
qed (auto simp: swap_remove_def)

declare merge_into.simps [simp del]

fun merge_loop :: "DirtyRect list \<Rightarrow> DirtyRect list \<Rightarrow> DirtyRect list" where
  "merge_loop [] merged = merged"
| "merge_loop (r # rects) merged =
     (let (r, merged) = merge_into r merged 0 in merge_loop rects (merged @ [r]))"

definition merge_dirty_rects :: "DirtyRect list \<Rightarrow> DirtyRect list" where
  "merge_dirty_rects rects = merge_loop rects []"


section \<open>Applying an update\<close>

lemma copy_at_ok:
  assumes "off + length src \<le> length dst"
  obtains res where "copy_at off src dst = Inr res" "length res = length dst"
    "\<And>k. k < length dst \<Longrightarrow> res ! k = (if off \<le> k \<and> k < off + length src then src ! (k - off) else dst ! k)"
proof
  show "copy_at off src dst = Inr (take off dst @ src @ drop (off + length src) dst)"
    using assms by (simp add: copy_at_def)
qed (use assms in \<open>auto simp: nth_append\<close>)

fun channel :: "PixelFormat \<Rightarrow> nat \<Rightarrow> nat" where
  "channel Bgra8 i = i"
| "channel Rgba8 i = i div 4 * 4 + (if i mod 4 = 0 then 2 else if i mod 4 = 2 then 0 else i mod 4)"

lemma channel_add4: "channel fmt (j + 4) = channel fmt j + 4"
  by (cases fmt) (simp_all add: div_add_self2)

lemma nth_add4: "(a # b # c # d # rest) ! (m + 4) = rest ! m"
  by (simp add: eval_nat_numeral)

lemma length_rgba_to_bgra [simp]: "length (rgba_to_bgra xs) = length xs"
  by (induction xs rule: rgba_to_bgra.induct) auto

lemma length_convert_row [simp]: "length (convert_row fmt xs) = length xs"
  by (cases fmt) auto

lemma nth_rgba_to_bgra:
  "length xs mod 4 = 0 \<Longrightarrow> i < length xs \<Longrightarrow> rgba_to_bgra xs ! i = xs ! channel Rgba8 i"
proof (induction xs arbitrary: i rule: rgba_to_bgra.induct)
  case (1 a b c d rest)
  show ?case
  proof (cases "i < 4")
    case True
    then have "i = 0 \<or> i = 1 \<or> i = 2 \<or> i = 3" by linarith
    then show ?thesis by auto
  next
    case False
    then obtain j where j: "i = j + 4" using le_Suc_ex [of 4 i] by (auto simp: add.commute)
    have "length rest mod 4 = 0" using 1(2) by (simp add: mod_Suc split: if_splits)
    then have "rgba_to_bgra rest ! j = rest ! channel Rgba8 j" using 1(1) [of j] 1(3) j by simp
    then show ?thesis unfolding j channel_add4 rgba_to_bgra.simps nth_add4 .
  qed
qed auto

lemma nth_convert_row:
  "length xs = 4 * n \<Longrightarrow> i < 4 * n \<Longrightarrow> convert_row fmt xs ! i = xs ! channel fmt i"
  using nth_rgba_to_bgra [of xs i] by (cases fmt) auto

lemma channel_less: "i < 4 * n \<Longrightarrow> channel fmt i < 4 * n"
proof (cases fmt)
  case Rgba8
  assume "i < 4 * n"
  then have "i div 4 < n" by linarith
  moreover have "channel Rgba8 i < i div 4 * 4 + 4" by simp
  ultimately have "channel Rgba8 i < 4 * n" by linarith
  then show ?thesis using Rgba8 by simp
qed simp

text \<open>Where byte \<open>k\<close> of a framebuffer row of \<open>d\<close> bytes lies in an update of \<open>w\<close> pixels a row at
  column \<open>x\<close>.\<close>

lemma row_range:
  assumes "x + w \<le> (d :: nat)"
  shows "r * d + x \<le> k \<and> k < r * d + x + w \<longleftrightarrow> k div d = r \<and> x \<le> k mod d \<and> k mod d < x + w"
proof
  assume a: "r * d + x \<le> k \<and> k < r * d + x + w"
  then obtain q where q: "k = q + r * d" "q < d" using assms le_Suc_ex [of "r * d" k] by (auto simp: add.commute)
  then have "k div d = r" "k mod d = q" by simp_all
  with a q show "k div d = r \<and> x \<le> k mod d \<and> k mod d < x + w" by auto
next
  assume a: "k div d = r \<and> x \<le> k mod d \<and> k mod d < x + w"
  then have "k = r * d + k mod d" using div_mult_mod_eq [of k d] by simp
  with a show "r * d + x \<le> k \<and> k < r * d + x + w" by linarith
qed

text \<open>An update that passed the checks, in numbers.\<close>

definition fits :: "Framebuffer \<Rightarrow> Bitmap \<Rightarrow> bool" where
  "fits fb b \<longleftrightarrow> 0 < unat (b_width b) \<and> 0 < unat (b_height b) \<and>
     unat (b_x b) + unat (b_width b) \<le> unat (f_width fb) \<and> unat (b_y b) + unat (b_height b) \<le> unat (f_height fb) \<and>
     unat (b_width b) * 4 \<le> unat (b_stride b) \<and>
     length (b_pixels b) = (unat (b_height b) - 1) * unat (b_stride b) + unat (b_width b) * 4"

lemma unat_pos: "(w :: u32) \<noteq> 0 \<Longrightarrow> 0 < unat w"
  by (simp add: unat_gt_0)

lemma unat_pred: "(h :: u32) \<noteq> 0 \<Longrightarrow> unat (h - 1) = unat h - 1"
  by (metis One_nat_def measure_unat unat_pos unat_minus_one)

lemma check_bitmap_fits:
  assumes "check_bitmap fb b = Inr required"
  shows "fits fb b \<and> required = length (b_pixels b) \<and> b_epoch b = f_epoch fb"
  using assms unat_pred [of "b_height b"]
  by (auto simp: check_bitmap_def fits_def checked_mul_def checked_add_def unat_pos and_then_Inr_iff ok_or_Inr_iff
      split: if_splits option.splits)

definition framebuffer_ok :: "Framebuffer \<Rightarrow> bool" where
  "framebuffer_ok fb \<longleftrightarrow> length (f_bgra fb) = unat (f_height fb) * (unat (f_width fb) * 4)"

text \<open>Byte \<open>k\<close> after the first \<open>n\<close> rows of an update.\<close>

definition updated :: "Framebuffer \<Rightarrow> Bitmap \<Rightarrow> nat \<Rightarrow> nat \<Rightarrow> u8" where
  "updated fb b n k =
     (let d = unat (f_width fb) * 4; row = k div d; col = k mod d; x = unat (b_x b) * 4; y = unat (b_y b) in
      if y \<le> row \<and> row < y + n \<and> x \<le> col \<and> col < x + unat (b_width b) * 4
      then b_pixels b ! ((row - y) * unat (b_stride b) + channel (b_format b) (col - x))
      else f_bgra fb ! k)"

lemma rows_in_payload:
  assumes "fits fb b" "row < unat (b_height b)"
  shows "row * unat (b_stride b) + unat (b_width b) * 4 \<le> length (b_pixels b)"
proof -
  have "row * unat (b_stride b) \<le> (unat (b_height b) - 1) * unat (b_stride b)"
    using assms(2) by (intro mult_right_mono) auto
  then show ?thesis using assms(1) by (simp add: fits_def)
qed

lemma rows_in_buffer:
  assumes "fits fb b" "framebuffer_ok fb" "row < unat (b_height b)"
  shows "(unat (b_y b) + row) * (unat (f_width fb) * 4) + unat (b_x b) * 4 + unat (b_width b) * 4 \<le> length (f_bgra fb)"
proof -
  have "(unat (b_y b) + row + 1) * (unat (f_width fb) * 4) \<le> unat (f_height fb) * (unat (f_width fb) * 4)"
    using assms(1,3) by (intro mult_right_mono) (auto simp: fits_def)
  moreover have "unat (b_x b) * 4 + unat (b_width b) * 4 \<le> unat (f_width fb) * 4" using assms(1) by (auto simp: fits_def)
  ultimately show ?thesis using assms(2) by (simp add: framebuffer_ok_def algebra_simps)
qed

lemma apply_row:
  assumes "fits fb b" "framebuffer_ok fb" "row < unat (b_height b)"
    and "length bgra = length (f_bgra fb)" "\<And>k. k < length bgra \<Longrightarrow> bgra ! k = updated fb b row k"
  obtains source res where "slice (row * unat (b_stride b)) (unat (b_width b) * 4) (b_pixels b) = Inr source"
    "copy_at ((unat (b_y b) + row) * (unat (f_width fb) * 4) + unat (b_x b) * 4) (convert_row (b_format b) source) bgra = Inr res"
    "length res = length bgra" "\<And>k. k < length bgra \<Longrightarrow> res ! k = updated fb b (Suc row) k"
proof -
  let ?d = "unat (f_width fb) * 4" and ?n = "unat (b_width b) * 4" and ?x = "unat (b_x b) * 4" and ?y = "unat (b_y b)"
  let ?source = "take ?n (drop (row * unat (b_stride b)) (b_pixels b))" and ?off = "(?y + row) * ?d + ?x"
  have p: "row * unat (b_stride b) + ?n \<le> length (b_pixels b)" by (rule rows_in_payload [OF assms(1,3)])
  then have l: "length ?source = ?n" by simp
  have "?off + length (convert_row (b_format b) ?source) \<le> length bgra"
    using rows_in_buffer [OF assms(1-3)] assms(4) l by simp
  then obtain res where c: "copy_at ?off (convert_row (b_format b) ?source) bgra = Inr res" "length res = length bgra"
    and r: "\<And>k. k < length bgra \<Longrightarrow> res ! k = (if ?off \<le> k \<and> k < ?off + length (convert_row (b_format b) ?source)
      then convert_row (b_format b) ?source ! (k - ?off) else bgra ! k)"
    by (rule copy_at_ok) blast
  have n: "length (convert_row (b_format b) ?source) = ?n" using l by simp
  note r = r [unfolded n]
  have w: "?x + ?n \<le> ?d" using assms(1) by (auto simp: fits_def)
  have "res ! k = updated fb b (Suc row) k" if k: "k < length bgra" for k
  proof (cases "?off \<le> k \<and> k < ?off + ?n")
    case True
    then have rk: "k div ?d = ?y + row" "?x \<le> k mod ?d" "k mod ?d < ?x + ?n" using row_range [OF w] by blast+
    have "k = (?y + row) * ?d + k mod ?d" using div_mult_mod_eq [of k ?d] rk(1) by metis
    then have o: "k - ?off = k mod ?d - ?x" by linarith
    have "res ! k = ?source ! channel (b_format b) (k mod ?d - ?x)"
      unfolding r [OF k] if_P [OF True] using l rk nth_convert_row [of ?source "unat (b_width b)" "k mod ?d - ?x" "b_format b"]
      by (simp add: o mult.commute)
    also have "\<dots> = b_pixels b ! (row * unat (b_stride b) + channel (b_format b) (k mod ?d - ?x))"
      using p channel_less [of "k mod ?d - ?x" "unat (b_width b)" "b_format b"] rk by (simp add: mult.commute)
    finally show ?thesis using rk by (simp add: updated_def Let_def)
  next
    case False
    then have "\<not> (k div ?d = ?y + row \<and> ?x \<le> k mod ?d \<and> k mod ?d < ?x + ?n)" using row_range [OF w] by blast
    then have "updated fb b (Suc row) k = updated fb b row k" by (auto simp: updated_def Let_def less_Suc_eq)
    moreover have "res ! k = bgra ! k" unfolding r [OF k] using False by (rule if_not_P)
    ultimately show ?thesis using assms(5) [OF k] by simp
  qed
  with p c that show thesis by (simp add: slice_def)
qed

lemma apply_rows_ok:
  assumes "fits fb b" "framebuffer_ok fb"
    and "row + n = unat (b_height b)" "length bgra = length (f_bgra fb)" "\<And>k. k < length bgra \<Longrightarrow> bgra ! k = updated fb b row k"
  shows "\<exists>res. apply_rows b (unat (f_width fb) * 4) n row bgra = Inr res \<and> length res = length (f_bgra fb) \<and>
    (\<forall>k < length (f_bgra fb). res ! k = updated fb b (unat (b_height b)) k)"
  using assms(3-)
proof (induction n arbitrary: row bgra)
  case (Suc n)
  then have "row < unat (b_height b)" by simp
  then obtain source res where 1: "slice (row * unat (b_stride b)) (unat (b_width b) * 4) (b_pixels b) = Inr source"
    "copy_at ((unat (b_y b) + row) * (unat (f_width fb) * 4) + unat (b_x b) * 4) (convert_row (b_format b) source) bgra = Inr res"
    and 2: "length res = length bgra" "\<And>k. k < length bgra \<Longrightarrow> res ! k = updated fb b (Suc row) k"
    using apply_row [OF assms(1,2) _ Suc.prems(2,3)] by metis
  have "\<exists>r. apply_rows b (unat (f_width fb) * 4) n (Suc row) res = Inr r \<and> length r = length (f_bgra fb) \<and>
    (\<forall>k < length (f_bgra fb). r ! k = updated fb b (unat (b_height b)) k)"
    using Suc.prems 2 by (intro Suc.IH) auto
  then show ?case by (simp add: Let_def 1)
qed auto

lemma sub_row:
  assumes "y \<le> k div d"
  shows "k - y * d = (k div d - y) * d + k mod (d :: nat)"
proof -
  have "y * d \<le> k div d * d" using assms by (rule mult_le_mono1)
  then have "k div d * d + k mod d - y * d = (k div d - y) * d + k mod d" by (simp add: diff_mult_distrib)
  then show ?thesis by (simp only: div_mult_mod_eq)
qed

text \<open>The fast path for whole rows in the buffer's own format is a single copy.\<close>

lemma apply_fast_ok:
  assumes "fits fb b" "framebuffer_ok fb" "b_format b = Bgra8" "unat (b_stride b) = unat (f_width fb) * 4"
    and "unat (b_width b) * 4 = unat (f_width fb) * 4"
  shows "\<exists>res. and_then (slice 0 (length (b_pixels b)) (b_pixels b)) (\<lambda>source.
      copy_at (unat (b_y b) * (unat (f_width fb) * 4)) source (f_bgra fb)) = Inr res \<and>
    length res = length (f_bgra fb) \<and> (\<forall>k < length (f_bgra fb). res ! k = updated fb b (unat (b_height b)) k)"
proof -
  let ?d = "unat (f_width fb) * 4" and ?y = "unat (b_y b)" and ?h = "unat (b_height b)"
  have x: "unat (b_x b) = 0" "0 < ?d" "0 < ?h" using assms(1,5) by (auto simp: fits_def)
  have l: "length (b_pixels b) = ?h * ?d"
    using assms(1,4,5) by (cases ?h) (auto simp: fits_def)
  have "?y * ?d + length (b_pixels b) \<le> length (f_bgra fb)"
  proof -
    have "(?y + ?h) * ?d \<le> unat (f_height fb) * ?d" using assms(1) by (intro mult_right_mono) (auto simp: fits_def)
    then show ?thesis using assms(2) unfolding l framebuffer_ok_def add_mult_distrib by simp
  qed
  then obtain res where c: "copy_at (?y * ?d) (b_pixels b) (f_bgra fb) = Inr res" "length res = length (f_bgra fb)"
    and r: "\<And>k. k < length (f_bgra fb) \<Longrightarrow> res ! k = (if ?y * ?d \<le> k \<and> k < ?y * ?d + length (b_pixels b)
      then b_pixels b ! (k - ?y * ?d) else f_bgra fb ! k)"
    by (rule copy_at_ok) blast
  have "res ! k = updated fb b ?h k" if k: "k < length (f_bgra fb)" for k
  proof -
    have a: "?y * ?d \<le> k \<longleftrightarrow> ?y \<le> k div ?d" by (rule less_eq_div_iff_mult_less_eq [OF x(2), symmetric])
    have b: "k < ?y * ?d + ?h * ?d \<longleftrightarrow> k div ?d < ?y + ?h"
      using div_less_iff_less_mult [OF x(2), of k "?y + ?h"] unfolding add_mult_distrib by (rule sym)
    have "k mod ?d < ?d" using x(2) by simp
    then have u: "updated fb b ?h k = (if ?y \<le> k div ?d \<and> k div ?d < ?y + ?h
        then b_pixels b ! ((k div ?d - ?y) * ?d + k mod ?d) else f_bgra fb ! k)"
      unfolding updated_def Let_def assms(3,4,5) x(1) channel.simps by simp
    show ?thesis unfolding u r [OF k] l a b by (rule if_cong) (auto simp: sub_row)
  qed
  then show ?thesis using c by (simp add: slice_def)
qed

lemma framebuffer_apply_ok:
  assumes "framebuffer_ok fb" "check_bitmap fb b = Inr required"
  shows "\<exists>bgra. framebuffer_apply fb (BitmapEvent b) =
      Inr (Inr (Some \<lparr>r_x = b_x b, r_y = b_y b, r_width = b_width b, r_height = b_height b\<rparr>), fb\<lparr>f_bgra := bgra\<rparr>) \<and>
    length bgra = length (f_bgra fb) \<and> (\<forall>k < length (f_bgra fb). bgra ! k = updated fb b (unat (b_height b)) k)"
proof -
  have f: "fits fb b" "required = length (b_pixels b)" using check_bitmap_fits [OF assms(2)] by auto
  have rows: "\<exists>res. apply_rows b (unat (f_width fb) * 4) (unat (b_height b)) 0 (f_bgra fb) = Inr res \<and>
      length res = length (f_bgra fb) \<and> (\<forall>k < length (f_bgra fb). res ! k = updated fb b (unat (b_height b)) k)"
    by (rule apply_rows_ok [OF f(1) assms(1)]) (auto simp: updated_def Let_def)
  show ?thesis
  proof (cases "b_format b = Bgra8 \<and> unat (b_stride b) = unat (f_width fb) * 4 \<and> unat (b_width b) * 4 = unat (f_width fb) * 4")
    case True
    then show ?thesis using apply_fast_ok [OF f(1) assms(1)] assms(2)
      by (auto simp: framebuffer_apply_def Let_def f(2))
  next
    case False
    then show ?thesis using rows assms(2) unfolding framebuffer_apply_def RemoteFrameEvent.case Let_def
      by (auto simp only: sum.case if_False and_then.simps)
  qed
qed

text \<open>Construction and the memory budget.\<close>

lemma validate_ok:
  assumes "validate_framebuffer_dimensions w h limits = Inr len"
  shows "len = unat h * (unat w * 4) \<and> len \<le> max_bytes limits \<and> 0 < len \<and> w \<le> max_width limits \<and> h \<le> max_height limits"
proof -
  have "w \<noteq> 0" "h \<noteq> 0" "w \<le> max_width limits" "h \<le> max_height limits" "len = unat w * unat h * 4" "len \<le> max_bytes limits"
    using assms by (auto simp: validate_framebuffer_dimensions_def checked_mul_def and_then_Inr_iff ok_or_Inr_iff
        bind_eq_Some_conv not_less split: if_splits)
  then show ?thesis using unat_pos [of w] unat_pos [of h] by simp
qed

lemma framebuffer_new_cases:
  assumes "framebuffer_new alloc epoch w h limits used = (result, used')" "used \<le> PIXEL_MEMORY_LIMIT"
  shows "used' \<le> PIXEL_MEMORY_LIMIT \<and> (\<forall>e. result = Inl e \<longrightarrow> used' = used) \<and>
    (\<forall>fb. result = Inr fb \<longrightarrow> framebuffer_ok fb \<and> f_width fb = w \<and> f_height fb = h \<and> f_epoch fb = epoch \<and>
       set (f_bgra fb) = {0} \<and> length (f_bgra fb) \<le> max_bytes limits \<and> used' = used + length (f_bgra fb))"
proof (cases "validate_framebuffer_dimensions w h limits")
  case (Inr len)
  then show ?thesis using assms validate_ok [OF Inr] lease_drop_held [of len "used + len"]
    by (auto simp: framebuffer_new_def budget_reserve_def checked_add_def framebuffer_ok_def
        set_replicate_conv_if split: option.splits if_splits)
qed (use assms in \<open>auto simp: framebuffer_new_def\<close>)

lemma framebuffer_reset_budget:
  assumes "framebuffer_reset alloc epoch w h limits fb used = (Inr fb', used')"
    and "length (f_bgra fb) \<le> used" "used \<le> PIXEL_MEMORY_LIMIT"
  shows "used' = used + length (f_bgra fb') - length (f_bgra fb) \<and> framebuffer_ok fb'"
proof -
  obtain u where n: "framebuffer_new alloc epoch w h limits used = (Inr fb', u)"
    and u: "used' = lease_drop (length (f_bgra fb)) u"
    using assms(1) by (auto simp: framebuffer_reset_def split: prod.splits sum.splits)
  have "u = used + length (f_bgra fb')" "u \<le> PIXEL_MEMORY_LIMIT" "framebuffer_ok fb'"
    using framebuffer_new_cases [OF n assms(3)] by auto
  then show ?thesis using u assms(2) lease_drop_held [of "length (f_bgra fb)" u]
    by (simp add: PIXEL_MEMORY_LIMIT_def)
qed


section \<open>Merging rectangles\<close>

definition covers :: "DirtyRect \<Rightarrow> nat \<Rightarrow> nat \<Rightarrow> bool" where
  "covers r px py \<longleftrightarrow> unat (r_x r) \<le> px \<and> px < unat (rect_right r) \<and> unat (r_y r) \<le> py \<and> py < unat (rect_bottom r)"

lemma saturating_add32_ge: "a \<le> saturating_add32 a b"
proof (cases "unat a + unat b < 2 ^ 32")
  case True
  then have "unat (a + b) = unat a + unat b" by (intro unat_add_lem [THEN iffD1]) simp
  then show ?thesis using True by (simp add: saturating_add32_def word_le_nat_alt)
qed (simp add: saturating_add32_def)

lemma saturating_add32_diff: "a \<le> b \<Longrightarrow> saturating_add32 a (b - a) = b"
proof -
  assume "a \<le> b"
  then have "unat (b - a) = unat b - unat a" "unat a \<le> unat b" by (simp_all add: unat_sub word_le_nat_alt)
  moreover have "unat b < 2 ^ 32" using unsigned_less [of b] by simp
  ultimately show ?thesis by (simp add: saturating_add32_def)
qed

lemma rect_union_sides:
  "r_x (rect_union r s) = min (r_x r) (r_x s)" "r_y (rect_union r s) = min (r_y r) (r_y s)"
  "rect_right (rect_union r s) = max (rect_right r) (rect_right s)"
  "rect_bottom (rect_union r s) = max (rect_bottom r) (rect_bottom s)"
proof -
  have "min (r_x r) (r_x s) \<le> max (rect_right r) (rect_right s)" "min (r_y r) (r_y s) \<le> max (rect_bottom r) (rect_bottom s)"
    using saturating_add32_ge [of "r_x r" "r_width r"] saturating_add32_ge [of "r_y r" "r_height r"]
    by (auto simp: rect_right_def rect_bottom_def min_le_iff_disj le_max_iff_disj)
  then show "rect_right (rect_union r s) = max (rect_right r) (rect_right s)"
    "rect_bottom (rect_union r s) = max (rect_bottom r) (rect_bottom s)"
    by (simp_all add: rect_union_def Let_def rect_right_def [of "\<lparr>r_x = _, r_y = _, r_width = _, r_height = _\<rparr>"]
        rect_bottom_def [of "\<lparr>r_x = _, r_y = _, r_width = _, r_height = _\<rparr>"] saturating_add32_diff)
qed (simp_all add: rect_union_def Let_def)

lemma rect_union_covers: "covers r px py \<or> covers s px py \<Longrightarrow> covers (rect_union r s) px py"
  by (auto simp: covers_def rect_union_sides min_def max_def word_le_nat_alt)

lemma touches_sym: "intersects_or_touches r s = intersects_or_touches s r"
  by (auto simp: intersects_or_touches_def)

definition apart :: "DirtyRect list \<Rightarrow> bool" where
  "apart rects \<longleftrightarrow> (\<forall>i < length rects. \<forall>j < length rects. i \<noteq> j \<longrightarrow> \<not> intersects_or_touches (rects ! i) (rects ! j))"

lemma length_swap_remove: "i < length xs \<Longrightarrow> length (swap_remove i xs) = length xs - 1"
  by (simp add: swap_remove_def)

lemma nth_swap_remove:
  assumes "i < length xs" "k < length xs - 1"
  shows "swap_remove i xs ! k = (if k = i then xs ! (length xs - 1) else xs ! k)"
proof -
  have "xs \<noteq> []" using assms by auto
  then show ?thesis using assms by (auto simp: swap_remove_def nth_butlast last_conv_nth)
qed

lemma set_swap_remove:
  assumes "i < length xs" "x \<in> set xs"
  shows "x = xs ! i \<or> x \<in> set (swap_remove i xs)"
proof -
  obtain k where k: "k < length xs" "x = xs ! k" using assms(2) by (auto simp: in_set_conv_nth)
  consider "k = i" | "k \<noteq> i" "k < length xs - 1" | "k \<noteq> i" "k = length xs - 1" "i < length xs - 1"
    using k assms(1) by linarith
  then show ?thesis
  proof cases
    case 2
    then have "swap_remove i xs ! k = x" using nth_swap_remove [OF assms(1)] k by simp
    then show ?thesis using 2 length_swap_remove [OF assms(1)] by (metis nth_mem)
  next
    case 3
    then have "swap_remove i xs ! i = x" using nth_swap_remove [OF assms(1)] k by simp
    then show ?thesis using 3 length_swap_remove [OF assms(1)] by (metis nth_mem)
  qed (use k in simp)
qed

lemma apart_swap_remove:
  assumes "apart xs" "i < length xs"
  shows "apart (swap_remove i xs)"
  unfolding apart_def length_swap_remove [OF assms(2)]
proof (intro allI impI)
  fix j k assume jk: "j < length xs - 1" "k < length xs - 1" "j \<noteq> k"
  let ?old = "\<lambda>k. if k = i then length xs - 1 else k"
  have "?old j \<noteq> ?old k" "?old j < length xs" "?old k < length xs" using jk assms(2) by auto
  then have "\<not> intersects_or_touches (xs ! ?old j) (xs ! ?old k)" using assms(1) unfolding apart_def by blast
  then show "\<not> intersects_or_touches (swap_remove i xs ! j) (swap_remove i xs ! k)"
    using jk nth_swap_remove [OF assms(2)] by (simp split: if_splits)
qed

lemma merge_into_ok:
  assumes "apart merged" "\<forall>j < i. j < length merged \<longrightarrow> \<not> intersects_or_touches r (merged ! j)"
    and "merge_into r merged i = (r', merged')"
  shows "apart merged' \<and> (\<forall>s \<in> set merged'. \<not> intersects_or_touches r' s) \<and>
    (\<forall>px py. (\<exists>s \<in> insert r (set merged). covers s px py) \<longrightarrow> (\<exists>s \<in> insert r' (set merged'). covers s px py))"
  using assms
proof (induction r merged i arbitrary: r' merged' rule: merge_into.induct)
  case (1 r merged i)
  consider (finished) "\<not> i < length merged" | (touch) "i < length merged" "intersects_or_touches r (merged ! i)"
    | (skip) "i < length merged" "\<not> intersects_or_touches r (merged ! i)" by blast
  then show ?case
  proof cases
    case finished
    then have "r' = r" "merged' = merged" using 1(5) by (simp_all add: merge_into.simps [of r])
    then show ?thesis using 1(3,4) finished by (auto simp: in_set_conv_nth)
  next
    case touch
    let ?u = "rect_union r (merged ! i)" and ?m = "swap_remove i merged"
    have "merge_into ?u ?m 0 = (r', merged')" using 1(5) touch by (simp add: merge_into.simps [of r])
    then have ih: "apart merged' \<and> (\<forall>s \<in> set merged'. \<not> intersects_or_touches r' s) \<and>
      (\<forall>px py. (\<exists>s \<in> insert ?u (set ?m). covers s px py) \<longrightarrow> (\<exists>s \<in> insert r' (set merged'). covers s px py))"
      by (intro 1(1) [OF touch apart_swap_remove [OF 1(3) touch(1)]]) simp_all
    have "\<exists>s \<in> insert ?u (set ?m). covers s px py" if "\<exists>s \<in> insert r (set merged). covers s px py" for px py
      using that rect_union_covers [of r px py "merged ! i"] set_swap_remove [OF touch(1)] by blast
    with ih show ?thesis by blast
  next
    case skip
    have "merge_into r merged (i + 1) = (r', merged')" using 1(5) skip by (simp add: merge_into.simps [of r])
    moreover have "\<forall>j < i + 1. j < length merged \<longrightarrow> \<not> intersects_or_touches r (merged ! j)"
      using 1(4) skip by (auto simp: less_Suc_eq)
    ultimately show ?thesis using 1(2) [OF skip 1(3)] by blast
  qed
qed

lemma apart_snoc:
  assumes "apart xs" "\<forall>s \<in> set xs. \<not> intersects_or_touches r s"
  shows "apart (xs @ [r])"
  using assms touches_sym unfolding apart_def by (auto simp: nth_append less_Suc_eq)

lemma merge_loop_ok:
  assumes "apart merged"
  shows "apart (merge_loop rects merged) \<and>
    (\<forall>px py. (\<exists>s \<in> set rects \<union> set merged. covers s px py) \<longrightarrow> (\<exists>s \<in> set (merge_loop rects merged). covers s px py))"
  using assms
proof (induction rects arbitrary: merged)
  case (Cons r rects)
  obtain r' m' where m: "merge_into r merged 0 = (r', m')" by (metis surj_pair)
  have ok: "apart m' \<and> (\<forall>s \<in> set m'. \<not> intersects_or_touches r' s) \<and>
    (\<forall>px py. (\<exists>s \<in> insert r (set merged). covers s px py) \<longrightarrow> (\<exists>s \<in> insert r' (set m'). covers s px py))"
    by (rule merge_into_ok [OF Cons.prems _ m]) simp
  have l: "merge_loop (r # rects) merged = merge_loop rects (m' @ [r'])" by (simp add: m)
  have "apart (m' @ [r'])" using ok by (blast intro: apart_snoc)
  note ih = Cons.IH [OF this]
  have "\<exists>s \<in> set rects \<union> set (m' @ [r']). covers s px py"
    if "\<exists>s \<in> set (r # rects) \<union> set merged. covers s px py" for px py
  proof -
    have "(\<exists>s \<in> set rects. covers s px py) \<or> (\<exists>s \<in> insert r (set merged). covers s px py)" using that by auto
    then have "(\<exists>s \<in> set rects. covers s px py) \<or> (\<exists>s \<in> insert r' (set m'). covers s px py)" using ok by blast
    then show ?thesis by auto
  qed
  then show ?case unfolding l using ih by blast
qed simp

text \<open>A batch of frames makes progress, and is within eight frames.\<close>

lemma frame_batch_loop_bounds: "count \<le> frame_batch_loop frames n count \<and> frame_batch_loop frames n count \<le> count + length frames"
proof (induction frames arbitrary: n count)
  case (Cons f fs)
  from this [of "count + 1" "saturating_add n (frame_cost f)"] show ?case by auto
qed simp

lemma frame_batch_progress: "frames \<noteq> [] \<Longrightarrow> 0 < frame_batch_len frames \<and> frame_batch_len frames \<le> 8"
proof -
  assume "frames \<noteq> []"
  then obtain f fs where "take 8 frames = f # fs" "length fs \<le> 7" by (cases frames) auto
  then show ?thesis using frame_batch_loop_bounds [of 1 fs "saturating_add 0 (frame_cost f)"]
    by (auto simp: frame_batch_len_def)
qed


section \<open>Properties\<close>

definition example_framebuffer :: Framebuffer where
  "example_framebuffer = \<lparr>f_width = 2, f_height = 2, f_epoch = 3, f_bgra = replicate 16 0\<rparr>"

definition example_bitmap :: Bitmap where
  "example_bitmap = \<lparr>b_epoch = 3, b_full = False, b_x = 1, b_y = 1, b_width = 1, b_height = 1, b_stride = 4,
     b_format = Rgba8, b_pixels = [1, 2, 3, 4]\<rparr>"

text \<open>C25. No bitmap update from a server makes the framebuffer panic or write outside the update's
  rectangle: a refused update changes nothing, and an accepted one replaces exactly the bytes of
  the rectangle by the payload's, with red and blue swapped when its format says so, on the fast
  path as on the row by row path.\<close>

theorem framebuffer_update:
  assumes "framebuffer_ok fb"
  shows "\<exists>result fb'. framebuffer_apply fb (BitmapEvent b) = Inr (result, fb') \<and> framebuffer_ok fb' \<and>
    (case result of
       Inl e \<Rightarrow> fb' = fb
     | Inr dirty \<Rightarrow> b_epoch b = f_epoch fb \<and>
         dirty = Some \<lparr>r_x = b_x b, r_y = b_y b, r_width = b_width b, r_height = b_height b\<rparr> \<and>
         (\<forall>k < length (f_bgra fb). f_bgra fb' ! k = updated fb b (unat (b_height b)) k))"
proof (cases "check_bitmap fb b")
  case (Inl e)
  then show ?thesis using assms by (simp add: framebuffer_apply_def)
next
  case (Inr required)
  from framebuffer_apply_ok [OF assms Inr] check_bitmap_fits [OF Inr] assms show ?thesis
    by (auto simp: framebuffer_ok_def)
qed

theorem framebuffer_update_witness:
  "\<exists>result fb'. framebuffer_apply example_framebuffer (BitmapEvent example_bitmap) = Inr (result, fb') \<and> framebuffer_ok fb'"
proof -
  have "framebuffer_ok example_framebuffer" by (simp add: framebuffer_ok_def example_framebuffer_def)
  from framebuffer_update [OF this] show ?thesis by blast
qed

text \<open>Every framebuffer that is built is well formed, blank and within its limits, the shared
  pixel budget grows by exactly its size and is never exceeded, and a failure leaves the
  budget as it was.\<close>

theorem framebuffer_well_formed:
  assumes "framebuffer_new alloc epoch w h limits used = (result, used')" "used \<le> PIXEL_MEMORY_LIMIT"
  shows "used' \<le> PIXEL_MEMORY_LIMIT \<and>
    (case result of
       Inl e \<Rightarrow> used' = used
     | Inr fb \<Rightarrow> framebuffer_ok fb \<and> f_epoch fb = epoch \<and> set (f_bgra fb) = {0} \<and>
         length (f_bgra fb) \<le> max_bytes limits \<and> used' = used + length (f_bgra fb))"
  using framebuffer_new_cases [OF assms] by (cases result) auto

theorem framebuffer_well_formed_witness:
  "snd (framebuffer_new (\<lambda>_. True) 1 640 480 VNC_FRAMEBUFFER_LIMITS 0) \<le> PIXEL_MEMORY_LIMIT"
proof -
  obtain result used' where "framebuffer_new (\<lambda>_. True) 1 640 480 VNC_FRAMEBUFFER_LIMITS 0 = (result, used')"
    by (metis surj_pair)
  then show ?thesis using framebuffer_well_formed [of "\<lambda>_. True" 1 640 480 VNC_FRAMEBUFFER_LIMITS 0 result used'] by simp
qed

text \<open>C33. Merging dirty rectangles ends, loses no dirty pixel, and leaves rectangles of which no two
  overlap or touch.\<close>

theorem dirty_rects_merged:
  "{(px, py). \<exists>r \<in> set rects. covers r px py} \<subseteq> {(px, py). \<exists>r \<in> set (merge_dirty_rects rects). covers r px py} \<and>
   apart (merge_dirty_rects rects)"
proof -
  have "apart []" by (simp add: apart_def)
  from merge_loop_ok [OF this, of rects] show ?thesis unfolding merge_dirty_rects_def by blast
qed

end
