(* ===== verification/Sync.thy ===== *)
theory Sync
  imports Prelude "HOL-Library.Finite_Map" "HOL-Library.List_Lexorder" "HOL-Library.Char_ord"
    "HOL-Library.Option_ord" "HOL-Library.Product_Lexorder" "HOL-Library.Sublist"
begin

text \<open>
  Synchronisation of settings between devices: the identities, scopes and field lists of
  \<open>sync_schema/mod.rs\<close> (core crate), the isolation of changes that a device cannot apply
  (\<open>application.rs\<close> of the sync crate), and the conflicts and the materialisation of a replica and the capture of
  local edits (\<open>engine.rs\<close>).

  A \<open>BTreeMap\<close> is a finite map that is traversed by its sorted keys. The history of the
  replica is kept by the Automerge library; what the code reads of it is the map of registers
  \<open>Registers\<close>. \<open>to_json\<close> and \<open>from_json\<close> stand for serde's encoding of a field identity, \<open>as_bool\<close> for
  its decoding of a boolean value, \<open>json_bool\<close> for the encoding of one, and \<open>valid\<close> for the pure validator an adapter
  supplies. \<open>capture\<close> gives the writes to the document in order; a put into the root object of the document
  is taken to succeed.
\<close>


section \<open>Identities\<close>

datatype SyncResourceId = SyncResourceId (res_kind: string) (res_id: string)

datatype SyncFieldId = SyncFieldId (fld_resource: SyncResourceId) (fld_field: string)

instantiation SyncResourceId :: linorder
begin

definition less_eq_SyncResourceId :: "SyncResourceId \<Rightarrow> SyncResourceId \<Rightarrow> bool" where
  "less_eq_SyncResourceId a b \<longleftrightarrow> (res_kind a, res_id a) \<le> (res_kind b, res_id b)"

definition less_SyncResourceId :: "SyncResourceId \<Rightarrow> SyncResourceId \<Rightarrow> bool" where
  "less_SyncResourceId a b \<longleftrightarrow> (res_kind a, res_id a) < (res_kind b, res_id b)"

instance
proof
  fix x y z :: SyncResourceId
  show "x < y \<longleftrightarrow> x \<le> y \<and> \<not> y \<le> x" by (auto simp: less_eq_SyncResourceId_def less_SyncResourceId_def)
  show "x \<le> x" by (simp add: less_eq_SyncResourceId_def)
  show "x \<le> y \<Longrightarrow> y \<le> z \<Longrightarrow> x \<le> z" unfolding less_eq_SyncResourceId_def by (rule order_trans)
  show "x \<le> y \<Longrightarrow> y \<le> x \<Longrightarrow> x = y"
    unfolding less_eq_SyncResourceId_def by (drule (1) antisym) (cases x; cases y; simp)
  show "x \<le> y \<or> y \<le> x" unfolding less_eq_SyncResourceId_def by (rule linear)
qed

end

instantiation SyncFieldId :: linorder
begin

definition less_eq_SyncFieldId :: "SyncFieldId \<Rightarrow> SyncFieldId \<Rightarrow> bool" where
  "less_eq_SyncFieldId a b \<longleftrightarrow> (fld_resource a, fld_field a) \<le> (fld_resource b, fld_field b)"

definition less_SyncFieldId :: "SyncFieldId \<Rightarrow> SyncFieldId \<Rightarrow> bool" where
  "less_SyncFieldId a b \<longleftrightarrow> (fld_resource a, fld_field a) < (fld_resource b, fld_field b)"

instance
proof
  fix x y z :: SyncFieldId
  show "x < y \<longleftrightarrow> x \<le> y \<and> \<not> y \<le> x" by (auto simp: less_eq_SyncFieldId_def less_SyncFieldId_def)
  show "x \<le> x" by (simp add: less_eq_SyncFieldId_def)
  show "x \<le> y \<Longrightarrow> y \<le> z \<Longrightarrow> x \<le> z" unfolding less_eq_SyncFieldId_def by (rule order_trans)
  show "x \<le> y \<Longrightarrow> y \<le> x \<Longrightarrow> x = y"
    unfolding less_eq_SyncFieldId_def by (drule (1) antisym) (cases x; cases y; simp)
  show "x \<le> y \<or> y \<le> x" unfolding less_eq_SyncFieldId_def by (rule linear)
qed

end

definition from_key ::
  "(SyncFieldId \<Rightarrow> string) \<Rightarrow> (string \<Rightarrow> SyncFieldId option) \<Rightarrow> string \<Rightarrow> SyncFieldId option" where
  "from_key to_json from_json key =
     (case from_json key of
        None \<Rightarrow> None
      | Some field \<Rightarrow>
          if res_kind (fld_resource field) \<noteq> [] \<and> res_id (fld_resource field) \<noteq> [] \<and> fld_field field \<noteq> [] \<and>
             to_json field = key
          then Some field else None)"

definition presence :: "SyncResourceId \<Rightarrow> SyncFieldId" where
  "presence resource = SyncFieldId resource ''$present''"


section \<open>Scopes and fields\<close>

record SyncScope =
  secrets :: bool
  preferences :: bool
  ai :: bool
  keybindings :: bool
  trusted_hosts :: bool

definition CORE_KINDS :: "string list" where
  "CORE_KINDS = [''connection'', ''connection_group'', ''connection_icon'', ''proxy'', ''proxy_group'', ''tunnel'',
     ''tunnel_group'', ''command'', ''command_category'', ''note'', ''note_folder'', ''theme'']"

definition SECRET_KINDS :: "string list" where
  "SECRET_KINDS = [''key'', ''password'', ''credential'', ''otp'', ''inline_secret'', ''ai_secret'']"

definition AI_KINDS :: "string list" where
  "AI_KINDS = [''ai_provider'', ''ai_profile'', ''ai_model'', ''ai_action'', ''ai_preference'']"

definition TRUST_KINDS :: "string list" where
  "TRUST_KINDS = [''known_host'', ''vnc_known_host'']"

definition scope_includes :: "SyncScope \<Rightarrow> string \<Rightarrow> bool" where
  "scope_includes scope kind \<longleftrightarrow> kind \<in> set CORE_KINDS \<or> (secrets scope \<and> kind \<in> set SECRET_KINDS) \<or>
     (preferences scope \<and> kind = ''preference'') \<or> (ai scope \<and> kind \<in> set AI_KINDS) \<or>
     (keybindings scope \<and> kind = ''keybinding'') \<or>
     (trusted_hosts scope \<and> kind \<in> {''known_host'', ''vnc_known_host''})"

definition ai_fields :: "string \<Rightarrow> string list" where
  "ai_fields kind =
     (if kind = ''ai_provider'' then [''name'', ''transport'', ''enabled'', ''icon_data_url'']
      else if kind = ''ai_profile'' then [''name'', ''transport'', ''model'', ''enabled'']
      else if kind = ''ai_model'' then [''identity'', ''enabled'']
      else if kind = ''ai_action'' then [''name'', ''prompt'', ''enabled'']
      else if kind = ''ai_preference'' then [''value''] else [])"

text \<open>The kinds of \<open>project_record\<close> whose projection is a plain list of fields, for which the
  projection of a record with one field has that field exactly when it is in the list.\<close>

definition plain_fields :: "string \<Rightarrow> string list" where
  "plain_fields kind =
     (if kind = ''connection_group'' then [''name'', ''parent_id'', ''sort_order'']
      else if kind = ''connection_icon'' then [''name'', ''data_url'']
      else if kind \<in> {''proxy_group'', ''tunnel_group''} then [''name'', ''sort_order'']
      else if kind = ''command_category'' then [''name'', ''parent_id'', ''sort_order'']
      else if kind = ''command'' then [''label'', ''command'', ''description'', ''category_id'', ''sort_order'',
        ''color_tag'', ''icon_tag'', ''pinned'', ''execution_mode'']
      else if kind = ''note'' then [''title'', ''markdown'', ''parent_id'', ''sort_order'']
      else if kind = ''note_folder'' then [''name'', ''parent_id'', ''sort_order''] else [])"

definition supports_field :: "string \<Rightarrow> string \<Rightarrow> bool" where
  "supports_field kind field =
     (if kind \<in> set TRUST_KINDS then field \<in> {''$present'', ''identity''}
      else if kind \<in> set SECRET_KINDS then field \<in> {''$present'', ''name'', ''sort_order'', ''value''}
      else if kind \<in> set AI_KINDS then field = ''$present'' \<or> field \<in> set (ai_fields kind)
      else if field = ''$present'' then kind \<in> set CORE_KINDS \<or> kind \<in> {''preference'', ''keybinding''}
      else if kind = ''connection'' then field \<in> {''name'', ''description'', ''tags'', ''endpoint'', ''placement'',
        ''terminal'', ''serial'', ''icon'', ''asset'', ''authentication'', ''network'', ''post_login'', ''sftp'',
        ''ssh_algorithms'', ''telnet'', ''auto_login''}
      else if kind \<in> {''preference'', ''keybinding''} then field = ''value''
      else if kind \<in> {''proxy'', ''tunnel''} then
        field \<in> {''name'', ''group_id'', ''endpoint''} \<or> kind = ''tunnel'' \<and> field = ''auto_open''
      else if kind = ''theme'' then field \<in> {''name'', ''label'', ''swatch'', ''colors''}
      else field \<in> set (plain_fields kind))"


section \<open>Isolating changes\<close>

datatype SyncError = InvalidReplica | StaleConflict | StalePlan | Excluded

type_synonym 'v SyncValues = "(string, 'v) fmap"

type_synonym group_id = "SyncResourceId \<times> string option"

record 'v SyncApplication =
  app_effective :: "'v SyncValues"
  app_deferred :: "SyncFieldId list"

definition sorted_keys :: "('k::linorder, 'v) fmap \<Rightarrow> 'k list" where
  "sorted_keys m = sorted_list_of_fset (fmdom m)"

definition group_of :: "(SyncFieldId \<Rightarrow> string) \<Rightarrow> 'v SyncValues \<Rightarrow> 'v SyncValues \<Rightarrow> SyncFieldId \<Rightarrow> group_id" where
  "group_of to_json local desired field =
     (let key = to_json (presence (fld_resource field));
          whole_resource = ((fmlookup local key \<noteq> None) \<noteq> (fmlookup desired key \<noteq> None))
      in (fld_resource field, if whole_resource then None else Some (fld_field field)))"

definition group_push :: "group_id \<Rightarrow> string \<Rightarrow> (group_id, string list) fmap \<Rightarrow> (group_id, string list) fmap" where
  "group_push gid key groups =
     fmupd gid ((case fmlookup groups gid of None \<Rightarrow> [] | Some keys \<Rightarrow> keys) @ [key]) groups"

fun group_loop ::
  "(SyncFieldId \<Rightarrow> string) \<Rightarrow> (string \<Rightarrow> SyncFieldId option) \<Rightarrow> 'v SyncValues \<Rightarrow> 'v SyncValues \<Rightarrow> string list \<Rightarrow>
   (group_id, string list) fmap \<Rightarrow> SyncError + (group_id, string list) fmap" where
  "group_loop to_json from_json local desired [] groups = Inr groups"
| "group_loop to_json from_json local desired (key # keys) groups =
     (if fmlookup local key = fmlookup desired key then group_loop to_json from_json local desired keys groups
      else and_then (ok_or (from_key to_json from_json key) InvalidReplica) (\<lambda>field.
        group_loop to_json from_json local desired keys
          (group_push (group_of to_json local desired field) key groups)))"

definition change_groups ::
  "(SyncFieldId \<Rightarrow> string) \<Rightarrow> (string \<Rightarrow> SyncFieldId option) \<Rightarrow> 'v SyncValues \<Rightarrow> 'v SyncValues \<Rightarrow>
   SyncError + string list list" where
  "change_groups to_json from_json local desired =
     and_then (group_loop to_json from_json local desired (sorted_keys local @ sorted_keys desired) fmempty) (\<lambda>groups.
     Inr (map (\<lambda>gid. remdups_adj (sort (case fmlookup groups gid of None \<Rightarrow> [] | Some keys \<Rightarrow> keys))) (sorted_keys groups)))"

fun apply_keys :: "'v SyncValues \<Rightarrow> string list \<Rightarrow> 'v SyncValues \<Rightarrow> 'v SyncValues" where
  "apply_keys desired [] candidate = candidate"
| "apply_keys desired (key # keys) candidate =
     apply_keys desired keys (case fmlookup desired key of Some v \<Rightarrow> fmupd key v candidate | None \<Rightarrow> fmdrop key candidate)"

function apply_batch ::
  "('v SyncValues \<Rightarrow> bool) \<Rightarrow> 'v SyncValues \<Rightarrow> string list list \<Rightarrow> 'v SyncValues \<Rightarrow> 'v SyncValues \<times> string list list" where
  "apply_batch valid desired groups effective =
     (if groups = [] then (effective, [])
      else let candidate = apply_keys desired (concat groups) effective in
        if valid candidate then (candidate, [])
        else if length groups = 1 then (effective, groups)
        else let middle = length groups div 2;
                 (effective, deferred) = apply_batch valid desired (take middle groups) effective;
                 (effective, more) = apply_batch valid desired (drop middle groups) effective
             in (effective, deferred @ more))"
  by auto
termination
  by (relation "measure (\<lambda>(valid, desired, groups, effective). length groups)")
    (auto simp: Suc_lessI neq_Nil_conv)

declare apply_batch.simps [simp del]

lemma apply_keys_lookup:
  "fmlookup (apply_keys desired keys m) k = (if k \<in> set keys then fmlookup desired k else fmlookup m k)"
  by (induction keys arbitrary: m) (auto split: option.splits)

lemma subseq_set_concat: "subseq xs ys \<Longrightarrow> set (concat xs) \<subseteq> set (concat ys)"
  by (induction rule: list_emb.induct) auto

lemma subseq_distinct_concat: "subseq xs ys \<Longrightarrow> distinct (concat ys) \<Longrightarrow> distinct (concat xs)"
proof (induction rule: list_emb.induct)
  case (list_emb_Cons2 x y xs ys)
  then show ?case using subseq_set_concat [OF list_emb_Cons2(2)] by fastforce
qed auto

lemma apply_batch_subseq:
  "apply_batch valid desired groups effective = (effective', deferred) \<Longrightarrow> subseq deferred groups"
proof (induction valid desired groups effective arbitrary: effective' deferred rule: apply_batch.induct)
  case (1 valid desired groups effective)
  let ?m = "length groups div 2"
  consider "groups = [] \<or> valid (apply_keys desired (concat groups) effective) \<or> length groups = 1"
    | (split) "groups \<noteq> []" "\<not> valid (apply_keys desired (concat groups) effective)" "length groups \<noteq> 1" by blast
  then show ?case
  proof cases
    case 1
    with "1.prems" show ?thesis by (auto simp: apply_batch.simps [of valid desired groups] Let_def split: if_splits)
  next
    case split
    obtain e1 d1 e2 d2 where b: "apply_batch valid desired (take ?m groups) effective = (e1, d1)"
      "apply_batch valid desired (drop ?m groups) e1 = (e2, d2)" "deferred = d1 @ d2"
      using "1.prems" split by (auto simp: apply_batch.simps [of valid desired groups] Let_def split: prod.splits)
    have "subseq (d1 @ d2) (take ?m groups @ drop ?m groups)"
      using "1.IH"(1) [OF split(1) refl split(2,3) refl b(1)] "1.IH"(2) [OF split(1) refl split(2,3) refl b(1) [symmetric] refl b(2)]
      by (rule list_emb_append_mono)
    then show ?thesis using b(3) by simp
  qed
qed

lemma apply_batch_length:
  "apply_batch valid desired groups effective = (effective', deferred) \<Longrightarrow> length deferred \<le> length groups"
  by (drule apply_batch_subseq) (rule list_emb_length)

definition deferred_fields :: "(SyncFieldId \<Rightarrow> string) \<Rightarrow> (string \<Rightarrow> SyncFieldId option) \<Rightarrow> string list list \<Rightarrow> SyncFieldId list" where
  "deferred_fields to_json from_json deferred =
     remdups_adj (sort (List.map_filter (from_key to_json from_json) (concat deferred)))"

function isolate_loop ::
  "(SyncFieldId \<Rightarrow> string) \<Rightarrow> (string \<Rightarrow> SyncFieldId option) \<Rightarrow> ('v SyncValues \<Rightarrow> bool) \<Rightarrow> 'v SyncValues \<Rightarrow>
   string list list \<Rightarrow> 'v SyncValues \<Rightarrow> 'v SyncApplication" where
  "isolate_loop to_json from_json valid desired pending effective =
     (let (effective, deferred) = apply_batch valid desired pending effective in
      if length deferred = length pending then
        \<lparr>app_effective = effective, app_deferred = deferred_fields to_json from_json deferred\<rparr>
      else if deferred = [] then \<lparr>app_effective = effective, app_deferred = []\<rparr>
      else isolate_loop to_json from_json valid desired deferred effective)"
  by auto
termination
  by (relation "measure (\<lambda>(to_json, from_json, valid, desired, pending, effective). length pending)")
    (auto dest: apply_batch_length [OF sym] simp: le_neq_implies_less)

declare isolate_loop.simps [simp del]

definition isolate_changes ::
  "(SyncFieldId \<Rightarrow> string) \<Rightarrow> (string \<Rightarrow> SyncFieldId option) \<Rightarrow> 'v SyncValues \<Rightarrow> 'v SyncValues \<Rightarrow>
   ('v SyncValues \<Rightarrow> bool) \<Rightarrow> SyncError + 'v SyncApplication" where
  "isolate_changes to_json from_json local desired valid =
     (if valid desired then Inr \<lparr>app_effective = desired, app_deferred = []\<rparr>
      else if \<not> valid local then Inl InvalidReplica
      else and_then (change_groups to_json from_json local desired) (\<lambda>groups.
        Inr (isolate_loop to_json from_json valid desired groups local)))"

lemma apply_batch_split:
  assumes "apply_batch valid desired groups effective = (effective', deferred)"
  obtains (empty) "groups = []" "effective' = effective" "deferred = []"
    | (applied) "groups \<noteq> []" "effective' = apply_keys desired (concat groups) effective" "valid effective'" "deferred = []"
    | (single) g where "groups = [g]" "\<not> valid (apply_keys desired g effective)" "effective' = effective" "deferred = groups"
    | (halves) l r e1 d1 d2 where "groups = l @ r" "length l < length groups" "length r < length groups"
        "apply_batch valid desired l effective = (e1, d1)" "apply_batch valid desired r e1 = (effective', d2)"
        "deferred = d1 @ d2"
proof -
  let ?m = "length groups div 2"
  let ?c = "apply_keys desired (concat groups) effective"
  note unf = apply_batch.simps [of valid desired groups effective]
  consider "groups = []" | "groups \<noteq> []" "valid ?c" | "groups \<noteq> []" "\<not> valid ?c" "length groups = 1"
    | "groups \<noteq> []" "\<not> valid ?c" "length groups \<noteq> 1" by blast
  then show thesis
  proof cases
    case 1
    then show ?thesis using assms unf empty by simp
  next
    case 2
    then show ?thesis using assms unf applied by (simp add: Let_def)
  next
    case 3
    then obtain g where "groups = [g]" by (auto simp: length_Suc_conv)
    then show ?thesis using 3 assms unf single [of g] by (simp add: Let_def)
  next
    case 4
    obtain e1 d1 e2 d2 where b: "apply_batch valid desired (take ?m groups) effective = (e1, d1)"
      "apply_batch valid desired (drop ?m groups) e1 = (e2, d2)"
      by (metis surj_pair)
    then have "effective' = e2" "deferred = d1 @ d2" using 4 assms unf by (simp_all add: Let_def)
    moreover have "2 \<le> length groups" using 4 by (cases groups) (auto simp: Suc_le_eq)
    ultimately show ?thesis using b halves [of "take ?m groups" "drop ?m groups" e1 d1 d2] by simp
  qed
qed

lemma overlay_halves:
  assumes "D1 \<subseteq> L" "D2 \<subseteq> R" "L \<inter> R = {}"
    and "x1 = (if k \<in> L - D1 then y else x)" "x2 = (if k \<in> R - D2 then y else x1)"
  shows "x2 = (if k \<in> (L \<union> R) - (D1 \<union> D2) then y else x)"
  unfolding assms(4,5) using assms(1-3) by auto

lemma apply_batch_lookup:
  "apply_batch valid desired groups effective = (effective', deferred) \<Longrightarrow> distinct (concat groups) \<Longrightarrow>
   fmlookup effective' k =
     (if k \<in> set (concat groups) - set (concat deferred) then fmlookup desired k else fmlookup effective k)"
proof (induction "length groups" arbitrary: groups effective effective' deferred rule: less_induct)
  case less
  from less.prems(1) show ?case
  proof (cases rule: apply_batch_split)
    case (halves l r e1 d1 d2)
    have "set (concat d1) \<subseteq> set (concat l)" "set (concat d2) \<subseteq> set (concat r)"
      using subseq_set_concat [OF apply_batch_subseq [OF halves(4)]] subseq_set_concat [OF apply_batch_subseq [OF halves(5)]] by auto
    moreover have "distinct (concat l)" "distinct (concat r)" "set (concat l) \<inter> set (concat r) = {}"
      using less.prems(2) halves(1) by (simp_all del: set_concat)
    moreover have "fmlookup e1 k =
        (if k \<in> set (concat l) - set (concat d1) then fmlookup desired k else fmlookup effective k)"
      using less.hyps [OF halves(2,4)] calculation(3) by blast
    moreover have "fmlookup effective' k =
        (if k \<in> set (concat r) - set (concat d2) then fmlookup desired k else fmlookup e1 k)"
      using less.hyps [OF halves(3,5)] calculation(4) by blast
    moreover have "set (concat groups) = set (concat l) \<union> set (concat r)"
      "set (concat deferred) = set (concat d1) \<union> set (concat d2)" using halves(1,6) by simp_all
    ultimately show ?thesis using overlay_halves by metis
  qed (simp_all only: apply_keys_lookup set_concat, simp_all)
qed

lemma apply_batch_valid:
  "apply_batch valid desired groups effective = (effective', deferred) \<Longrightarrow> valid effective \<Longrightarrow> valid effective'"
proof (induction "length groups" arbitrary: groups effective effective' deferred rule: less_induct)
  case less
  from less.prems(1) show ?case
  proof (cases rule: apply_batch_split)
    case (halves l r e1 d1 d2)
    then show ?thesis using less.hyps less.prems(2) by blast
  qed (use less.prems(2) in simp_all)
qed

lemma apply_batch_stuck:
  "apply_batch valid desired groups effective = (effective', deferred) \<Longrightarrow> length deferred = length groups \<Longrightarrow>
   effective' = effective \<and> deferred = groups \<and> (\<forall>g\<in>set groups. \<not> valid (apply_keys desired g effective))"
proof (induction "length groups" arbitrary: groups effective effective' deferred rule: less_induct)
  case less
  from less.prems(1) show ?case
  proof (cases rule: apply_batch_split)
    case (halves l r e1 d1 d2)
    have len: "length d1 = length l" "length d2 = length r"
      using apply_batch_length [OF halves(4)] apply_batch_length [OF halves(5)] less.prems(2) halves(1,6) by simp_all
    show ?thesis
      using less.hyps [OF halves(2,4) len(1)] less.hyps [OF halves(3,5) len(2)] halves(1,6) by auto
  qed (use less.prems(2) in simp_all)
qed

definition withheld_ok ::
  "('v SyncValues \<Rightarrow> bool) \<Rightarrow> 'v SyncValues \<Rightarrow> 'v SyncValues \<Rightarrow> 'v SyncValues \<Rightarrow> string list list \<Rightarrow> bool" where
  "withheld_ok valid local desired effective withheld \<longleftrightarrow>
     valid effective \<and>
     (\<forall>k. fmlookup effective k = (if k \<in> set (concat withheld) then fmlookup local k else fmlookup desired k))"

lemma isolate_loop_spec:
  assumes "withheld_ok valid local desired effective pending" "distinct (concat pending)"
  shows "\<exists>withheld. subseq withheld pending \<and>
    withheld_ok valid local desired (app_effective (isolate_loop to_json from_json valid desired pending effective)) withheld \<and>
    (\<forall>g\<in>set withheld. \<not> valid (apply_keys desired g
       (app_effective (isolate_loop to_json from_json valid desired pending effective)))) \<and>
    app_deferred (isolate_loop to_json from_json valid desired pending effective) = deferred_fields to_json from_json withheld"
  using assms
proof (induction "length pending" arbitrary: pending effective rule: less_induct)
  case less
  obtain e d where b: "apply_batch valid desired pending effective = (e, d)" by fastforce
  note unf = isolate_loop.simps [of to_json from_json valid desired pending effective]
  have sub: "subseq d pending" by (rule apply_batch_subseq [OF b])
  then have "set (concat d) \<subseteq> set (concat pending)" by (rule subseq_set_concat)
  then have ok: "withheld_ok valid local desired e d"
    using less.prems(1) apply_batch_valid [OF b] apply_batch_lookup [OF b less.prems(2)]
    unfolding withheld_ok_def by (auto simp del: set_concat)
  have dist: "distinct (concat d)" by (rule subseq_distinct_concat [OF sub less.prems(2)])
  consider "length d = length pending" | "length d \<noteq> length pending" "d = []" | "length d < length pending" "d \<noteq> []"
    using apply_batch_length [OF b] by linarith
  then show ?case
  proof cases
    case 1
    then show ?thesis using unf b ok apply_batch_stuck [OF b 1] by (intro exI [of _ d]) simp
  next
    case 2
    then show ?thesis using unf b ok by (intro exI [of _ "[]"]) (simp add: deferred_fields_def)
  next
    case 3
    then have "isolate_loop to_json from_json valid desired pending effective =
      isolate_loop to_json from_json valid desired d e" using unf b by simp
    then show ?thesis using less.hyps [OF 3(1) ok dist] sub by (metis subseq_order.order_trans)
  qed
qed

text \<open>The group of a changed key, and the changed keys of a group.\<close>

definition in_group ::
  "(SyncFieldId \<Rightarrow> string) \<Rightarrow> (string \<Rightarrow> SyncFieldId option) \<Rightarrow> 'v SyncValues \<Rightarrow> 'v SyncValues \<Rightarrow> group_id \<Rightarrow> string \<Rightarrow> bool" where
  "in_group to_json from_json local desired gid k \<longleftrightarrow> fmlookup local k \<noteq> fmlookup desired k \<and>
     map_option (group_of to_json local desired) (from_key to_json from_json k) = Some gid"

lemma group_loop_ok:
  "group_loop to_json from_json local desired keys groups = Inr groups' \<Longrightarrow>
   fmlookup groups' gid =
     (case (fmlookup groups gid, filter (in_group to_json from_json local desired gid) keys) of
        (None, []) \<Rightarrow> None | (None, new) \<Rightarrow> Some new | (Some old, new) \<Rightarrow> Some (old @ new))"
proof (induction keys arbitrary: groups)
  case Nil
  then show ?case by (simp split: option.splits)
next
  case (Cons key keys)
  show ?case
  proof (cases "fmlookup local key = fmlookup desired key")
    case True
    with Cons show ?thesis by (simp add: in_group_def)
  next
    case False
    then obtain f where f: "from_key to_json from_json key = Some f"
      using Cons.prems by (cases "from_key to_json from_json key") auto
    with Cons.prems False have "group_loop to_json from_json local desired keys
      (group_push (group_of to_json local desired f) key groups) = Inr groups'" by simp
    note IH = Cons.IH [OF this]
    show ?thesis
    proof (cases "group_of to_json local desired f = gid")
      case True
      then have "in_group to_json from_json local desired gid key" using f False by (simp add: in_group_def)
      then show ?thesis unfolding IH using True by (simp add: group_push_def split: option.splits)
    next
      case neq: False
      then have "\<not> in_group to_json from_json local desired gid key" using f by (simp add: in_group_def)
      then show ?thesis unfolding IH using neq by (simp add: group_push_def)
    qed
  qed
qed

lemma group_loop_error:
  "group_loop to_json from_json local desired keys groups = Inl e \<Longrightarrow>
   e = InvalidReplica \<and> (\<exists>k. fmlookup local k \<noteq> fmlookup desired k \<and> from_key to_json from_json k = None)"
proof (induction keys arbitrary: groups)
  case (Cons key keys)
  then show ?case
    by (cases "from_key to_json from_json key") (auto split: if_splits)
qed simp

lemma group_loop_total:
  "group_loop to_json from_json local desired keys groups = Inr groups' \<Longrightarrow> k \<in> set keys \<Longrightarrow>
   fmlookup local k \<noteq> fmlookup desired k \<Longrightarrow> from_key to_json from_json k \<noteq> None"
proof (induction keys arbitrary: groups)
  case (Cons key keys)
  then show ?case
    by (cases "from_key to_json from_json key") (auto split: if_splits)
qed simp

lemma sorted_keys_props [simp]:
  "set (sorted_keys m) = fset (fmdom m)" "distinct (sorted_keys m)" "sorted (sorted_keys m)"
  by (simp_all add: sorted_keys_def sorted_list_of_fset.rep_eq)

lemma distinct_dedup: "sorted xs \<Longrightarrow> distinct (remdups_adj xs)"
  by (induction xs rule: remdups_adj.induct) auto

lemma sort_dedup_props [simp]:
  "set (remdups_adj (sort xs)) = set xs" "distinct (remdups_adj (sort xs))" "sorted (remdups_adj (sort xs))"
  by (simp_all add: distinct_dedup)

lemma changed_in_keys:
  "fmlookup local k \<noteq> fmlookup desired k \<Longrightarrow> k \<in> set (sorted_keys local @ sorted_keys desired)"
  by (cases "fmlookup local k"; cases "fmlookup desired k") (auto dest: fmdomI)

lemma distinct_concat_map:
  "distinct xs \<Longrightarrow> (\<And>x. distinct (f x)) \<Longrightarrow> (\<And>x y. x \<noteq> y \<Longrightarrow> set (f x) \<inter> set (f y) = {}) \<Longrightarrow>
   distinct (concat (map f xs))"
proof (induction xs)
  case (Cons x xs)
  have "set (f x) \<inter> set (f y) = {}" if "y \<in> set xs" for y using that Cons.prems(1) by (intro Cons.prems(3)) auto
  then show ?case using Cons by auto
qed simp

lemma change_groups_ok:
  assumes "change_groups to_json from_json local desired = Inr groups"
  shows "\<forall>g\<in>set groups. \<exists>gid. set g = {k. in_group to_json from_json local desired gid k}"
    and "distinct (concat groups)"
    and "\<forall>k. k \<in> set (concat groups) \<longleftrightarrow> fmlookup local k \<noteq> fmlookup desired k"
proof -
  let ?keys = "sorted_keys local @ sorted_keys desired"
  let ?in = "in_group to_json from_json local desired"
  obtain gm where gm: "group_loop to_json from_json local desired ?keys fmempty = Inr gm"
    and groups: "groups = map (\<lambda>gid. remdups_adj (sort (case fmlookup gm gid of None \<Rightarrow> [] | Some keys \<Rightarrow> keys))) (sorted_keys gm)"
    using assms unfolding change_groups_def
    by (cases "group_loop to_json from_json local desired ?keys fmempty") auto
  have look: "fmlookup gm gid = (case filter (?in gid) ?keys of [] \<Rightarrow> None | new \<Rightarrow> Some new)" for gid
    unfolding group_loop_ok [OF gm] by simp
  let ?of = "\<lambda>gid. remdups_adj (sort (case fmlookup gm gid of None \<Rightarrow> [] | Some keys \<Rightarrow> keys))"
  have "set (filter (?in gid) ?keys) = {k. ?in gid k}" for gid
    using changed_in_keys by (fastforce simp: in_group_def)
  moreover have "(case fmlookup gm gid of None \<Rightarrow> [] | Some keys \<Rightarrow> keys) = filter (?in gid) ?keys" for gid
    unfolding look by (simp split: list.split)
  ultimately have set_of: "set (?of gid) = {k. ?in gid k}" for gid
    by (simp only: sort_dedup_props)
  show "\<forall>g\<in>set groups. \<exists>gid. set g = {k. ?in gid k}" unfolding groups using set_of by auto
  have uniq: "?in gid k \<Longrightarrow> ?in gid' k \<Longrightarrow> gid = gid'" for gid gid' k by (auto simp: in_group_def)
  have "gid \<noteq> gid' \<Longrightarrow> set (?of gid) \<inter> set (?of gid') = {}" for gid gid'
    unfolding set_of using uniq by blast
  then show "distinct (concat groups)" unfolding groups
    by (intro distinct_concat_map sorted_keys_props sort_dedup_props)
  show "\<forall>k. k \<in> set (concat groups) \<longleftrightarrow> fmlookup local k \<noteq> fmlookup desired k"
  proof (intro allI iffI)
    fix k assume "k \<in> set (concat groups)"
    then obtain gid where "k \<in> set (?of gid)" unfolding groups by auto
    then show "fmlookup local k \<noteq> fmlookup desired k" unfolding set_of by (simp add: in_group_def)
  next
    fix k assume k: "fmlookup local k \<noteq> fmlookup desired k"
    then obtain f where "from_key to_json from_json k = Some f"
      using group_loop_total [OF gm changed_in_keys [OF k] k] by auto
    with k have m: "?in (group_of to_json local desired f) k" by (simp add: in_group_def)
    then have "filter (?in (group_of to_json local desired f)) ?keys \<noteq> []"
      using changed_in_keys [OF k] by (metis filter_empty_conv)
    then have "group_of to_json local desired f \<in> set (sorted_keys gm)"
      using look [of "group_of to_json local desired f"] by (auto intro!: fmdomI split: list.splits)
    then show "k \<in> set (concat groups)" unfolding groups using m set_of by fastforce
  qed
qed

lemma change_groups_error:
  "change_groups to_json from_json local desired = Inl e \<Longrightarrow>
   e = InvalidReplica \<and> (\<exists>k. fmlookup local k \<noteq> fmlookup desired k \<and> from_key to_json from_json k = None)"
  unfolding change_groups_def using group_loop_error
  by (cases "group_loop to_json from_json local desired (sorted_keys local @ sorted_keys desired) fmempty") fastforce+

lemma deferred_fields_props:
  "set (deferred_fields to_json from_json withheld) = {f. \<exists>k\<in>set (concat withheld). from_key to_json from_json k = Some f}"
  "distinct (deferred_fields to_json from_json withheld)"
  by (auto simp: deferred_fields_def List.map_filter_def intro!: rev_image_eqI) (force intro!: bexI)

lemma isolate_changes_cases:
  assumes "isolate_changes to_json from_json local desired valid = Inr app" "\<not> valid desired"
  obtains groups where "valid local" "change_groups to_json from_json local desired = Inr groups"
    "app = isolate_loop to_json from_json valid desired groups local"
  using assms by (cases "change_groups to_json from_json local desired") (auto simp: isolate_changes_def split: if_splits)


text \<open>C3. Isolation. When the values a synchronisation wants are not acceptable as a whole,
  \<open>isolate_changes\<close> returns a catalog that is acceptable and a list of withheld groups such that every
  key of a withheld group keeps its local value and every other key has the wanted one; each withheld group is
  one whole business group of changed keys (the resource for a creation or deletion, otherwise the field);
  no withheld group could be applied on top of the result; something is withheld; and the reported
  fields are those of the withheld keys, without repetition. When the wanted values are acceptable they are
  taken as they are.\<close>

theorem sync_isolate:
  assumes "isolate_changes to_json from_json local desired valid = Inr app"
  shows "if valid desired then app_effective app = desired \<and> app_deferred app = []
    else \<exists>withheld. withheld \<noteq> [] \<and> valid (app_effective app) \<and>
      (\<forall>k. fmlookup (app_effective app) k =
         (if k \<in> set (concat withheld) then fmlookup local k else fmlookup desired k)) \<and>
      (\<forall>g\<in>set withheld. \<not> valid (apply_keys desired g (app_effective app)) \<and>
         (\<exists>gid. set g = {k. in_group to_json from_json local desired gid k})) \<and>
      set (app_deferred app) = {f. \<exists>k\<in>set (concat withheld). from_key to_json from_json k = Some f} \<and>
      distinct (app_deferred app)"
proof (cases "valid desired")
  case True
  then show ?thesis using assms by (auto simp: isolate_changes_def)
next
  case False
  obtain groups where groups: "valid local" "change_groups to_json from_json local desired = Inr groups"
    and app: "app = isolate_loop to_json from_json valid desired groups local"
    by (rule isolate_changes_cases [OF assms False])
  note ok = change_groups_ok [OF groups(2)]
  have "withheld_ok valid local desired local groups" using groups(1) ok(3) by (auto simp: withheld_ok_def)
  then obtain withheld where w: "subseq withheld groups" "withheld_ok valid local desired (app_effective app) withheld"
    "\<forall>g\<in>set withheld. \<not> valid (apply_keys desired g (app_effective app))"
    "app_deferred app = deferred_fields to_json from_json withheld"
    using isolate_loop_spec [OF _ ok(2)] app by metis
  have "set withheld \<subseteq> set groups" using w(1) by (auto dest: list_emb_set)
  moreover have "withheld \<noteq> []"
  proof
    assume "withheld = []"
    then have "app_effective app = desired" using w(2) by (auto simp: withheld_ok_def intro: fmap_ext)
    then show False using w(2) False by (simp add: withheld_ok_def)
  qed
  ultimately show ?thesis
    using False w ok(1) deferred_fields_props by (auto simp: withheld_ok_def intro!: exI [of _ withheld])
qed

text \<open>An encoding of identities for concrete inputs: every character of a component is marked,
  and a slash closes the component.\<close>

definition mark :: "string \<Rightarrow> string" where
  "mark s = concat (map (\<lambda>c. [CHR ''.'', c]) s) @ ''/''"

fun unmark :: "string \<Rightarrow> (string \<times> string) option" where
  "unmark (m # rest) =
     (if m = CHR ''/'' then Some ([], rest)
      else case rest of [] \<Rightarrow> None | c # rest \<Rightarrow> map_option (\<lambda>(s, tail). (c # s, tail)) (unmark rest))"
| "unmark [] = None"

definition marked_json :: "SyncFieldId \<Rightarrow> string" where
  "marked_json f = mark (res_kind (fld_resource f)) @ mark (res_id (fld_resource f)) @ mark (fld_field f)"

definition unmarked_json :: "string \<Rightarrow> SyncFieldId option" where
  "unmarked_json key =
     (case unmark key of None \<Rightarrow> None | Some (kind, key) \<Rightarrow>
      (case unmark key of None \<Rightarrow> None | Some (rid, key) \<Rightarrow>
       (case unmark key of None \<Rightarrow> None | Some (field, key) \<Rightarrow> Some (SyncFieldId (SyncResourceId kind rid) field))))"

lemma unmark_mark: "unmark (mark s @ rest) = Some (s, rest)"
  by (induction s) (simp_all add: mark_def)

lemma unmarked_marked: "unmarked_json (marked_json f) = Some f"
proof -
  have "marked_json f = mark (res_kind (fld_resource f)) @ (mark (res_id (fld_resource f)) @ (mark (fld_field f) @ []))"
    by (simp add: marked_json_def)
  then show ?thesis by (simp add: unmarked_json_def unmark_mark del: append_Nil2 append_assoc)
qed

definition note_field :: "string \<Rightarrow> string \<Rightarrow> string" where
  "note_field rid field = marked_json (SyncFieldId (SyncResourceId ''note'' rid) field)"

definition note_values :: "nat \<Rightarrow> nat \<Rightarrow> nat SyncValues" where
  "note_values title markdown = fmap_of_list [(note_field ''1'' ''$present'', 1), (note_field ''1'' ''title'', title),
     (note_field ''1'' ''markdown'', markdown)]"

definition short_title :: "nat SyncValues \<Rightarrow> bool" where
  "short_title m = (case fmlookup m (note_field ''1'' ''title'') of None \<Rightarrow> True | Some n \<Rightarrow> n < 5)"

theorem sync_isolate_witness:
  "isolate_changes marked_json unmarked_json (note_values 1 1) (note_values 9 2) short_title =
     Inr \<lparr>app_effective = note_values 1 2, app_deferred = [SyncFieldId (SyncResourceId ''note'' ''1'') ''title'']\<rparr> \<and>
   (\<exists>withheld. withheld \<noteq> [] \<and> (\<forall>g\<in>set withheld. \<not> short_title (apply_keys (note_values 9 2) g (note_values 1 2))))"
proof -
  have *: "isolate_changes marked_json unmarked_json (note_values 1 1) (note_values 9 2) short_title =
     Inr \<lparr>app_effective = note_values 1 2, app_deferred = [SyncFieldId (SyncResourceId ''note'' ''1'') ''title'']\<rparr>"
    by code_simp
  have "\<not> short_title (note_values 9 2)" by code_simp
  then show ?thesis using sync_isolate [OF *] * by auto
qed


section \<open>Materialising a replica\<close>

record SyncCandidate =
  cand_operation :: string
  cand_value :: string

record SyncConflict =
  conf_field :: SyncFieldId
  conf_candidates :: "SyncCandidate list"

type_synonym field_map = "(string, SyncCandidate list) fmap"

type_synonym Registers = "(SyncResourceId, field_map) fmap"

definition entries :: "('k::linorder, 'v) fmap \<Rightarrow> ('k \<times> 'v) list" where
  "entries m = List.map_filter (\<lambda>k. map_option (Pair k) (fmlookup m k)) (sorted_keys m)"

definition distinct_candidates :: "SyncCandidate list \<Rightarrow> nat" where
  "distinct_candidates candidates = length (remdups (map cand_value candidates))"

definition candidate_value :: "(string, 'v) fmap \<Rightarrow> SyncCandidate \<Rightarrow> SyncError + 'v" where
  "candidate_value values candidate = ok_or (fmlookup values (cand_value candidate)) InvalidReplica"

fun boolean :: "('v \<Rightarrow> bool option) \<Rightarrow> (string, 'v) fmap \<Rightarrow> SyncCandidate list \<Rightarrow> SyncError + bool option" where
  "boolean as_bool values [] = Inr None"
| "boolean as_bool values (candidate # _) =
     and_then (candidate_value values candidate) (\<lambda>v.
     and_then (ok_or (as_bool v) InvalidReplica) (\<lambda>b. Inr (Some b)))"

definition resource_conflicts ::
  "('v \<Rightarrow> bool option) \<Rightarrow> (string, 'v) fmap \<Rightarrow> SyncResourceId \<Rightarrow> field_map \<Rightarrow> SyncError + SyncConflict list" where
  "resource_conflicts as_bool values resource flds =
     and_then (ok_or (fmlookup flds ''$present'') InvalidReplica) (\<lambda>presence.
     and_then (if distinct_candidates presence > 1 then Inr True
               else and_then (boolean as_bool values presence) (\<lambda>b. Inr (b = Some False))) (\<lambda>hidden.
     Inr (map (\<lambda>(name, candidates). \<lparr>conf_field = SyncFieldId resource name, conf_candidates = candidates\<rparr>)
       (filter (\<lambda>(name, candidates). \<not> (name \<noteq> ''$present'' \<and> hidden) \<and> distinct_candidates candidates > 1)
         (entries flds)))))"

fun conflicts_loop ::
  "('v \<Rightarrow> bool option) \<Rightarrow> (string, 'v) fmap \<Rightarrow> (SyncResourceId \<times> field_map) list \<Rightarrow> SyncError + SyncConflict list" where
  "conflicts_loop as_bool values [] = Inr []"
| "conflicts_loop as_bool values ((resource, flds) # rest) =
     and_then (resource_conflicts as_bool values resource flds) (\<lambda>conflicts.
     and_then (conflicts_loop as_bool values rest) (\<lambda>more. Inr (conflicts @ more)))"

definition conflicts_from ::
  "('v \<Rightarrow> bool option) \<Rightarrow> (string, 'v) fmap \<Rightarrow> Registers \<Rightarrow> SyncError + SyncConflict list" where
  "conflicts_from as_bool values registers =
     and_then (conflicts_loop as_bool values (entries registers)) (\<lambda>conflicts. Inr (sort_key conf_field conflicts))"

fun mat_fields ::
  "(SyncFieldId \<Rightarrow> string) \<Rightarrow> (string, 'v) fmap \<Rightarrow> SyncResourceId \<Rightarrow> (string \<times> SyncCandidate list) list \<Rightarrow> 'v SyncValues \<Rightarrow>
   SyncError + 'v SyncValues" where
  "mat_fields to_json values resource [] result = Inr result"
| "mat_fields to_json values resource ((name, candidates) # rest) result =
     (let key = to_json (SyncFieldId resource name) in
      if supports_field (res_kind resource) name \<and> distinct_candidates candidates = 1 then
        if cand_value (hd candidates) = ''deleted'' then mat_fields to_json values resource rest (fmdrop key result)
        else and_then (candidate_value values (hd candidates)) (\<lambda>v.
          mat_fields to_json values resource rest (fmupd key v result))
      else mat_fields to_json values resource rest result)"

definition mat_resource ::
  "(SyncFieldId \<Rightarrow> string) \<Rightarrow> ('v \<Rightarrow> bool option) \<Rightarrow> (string, 'v) fmap \<Rightarrow> SyncScope \<Rightarrow> 'v SyncValues \<Rightarrow> SyncResourceId list \<Rightarrow>
   SyncResourceId \<Rightarrow> field_map \<Rightarrow> 'v SyncValues \<Rightarrow> SyncResourceId list \<Rightarrow> SyncError + 'v SyncValues \<times> SyncResourceId list" where
  "mat_resource to_json as_bool values scope local blocked_new resource flds result deleted =
     (if \<not> scope_includes scope (res_kind resource) then Inr (result, deleted)
      else and_then (ok_or (fmlookup flds ''$present'') InvalidReplica) (\<lambda>candidates.
        if distinct_candidates candidates > 1 then Inr (result, deleted)
        else and_then (boolean as_bool values candidates) (\<lambda>b.
          if b = Some False then Inr (result, resource # deleted)
          else if fmlookup local (to_json (presence resource)) = None \<and> resource \<in> set blocked_new
          then Inr (result, deleted)
          else and_then (mat_fields to_json values resource (entries flds) result) (\<lambda>result. Inr (result, deleted)))))"

fun mat_loop ::
  "(SyncFieldId \<Rightarrow> string) \<Rightarrow> ('v \<Rightarrow> bool option) \<Rightarrow> (string, 'v) fmap \<Rightarrow> SyncScope \<Rightarrow> 'v SyncValues \<Rightarrow> SyncResourceId list \<Rightarrow>
   (SyncResourceId \<times> field_map) list \<Rightarrow> 'v SyncValues \<Rightarrow> SyncResourceId list \<Rightarrow>
   SyncError + 'v SyncValues \<times> SyncResourceId list" where
  "mat_loop to_json as_bool values scope local blocked_new [] result deleted = Inr (result, deleted)"
| "mat_loop to_json as_bool values scope local blocked_new ((resource, flds) # rest) result deleted =
     and_then (mat_resource to_json as_bool values scope local blocked_new resource flds result deleted)
       (\<lambda>(result, deleted). mat_loop to_json as_bool values scope local blocked_new rest result deleted)"

definition materialize_from ::
  "(SyncFieldId \<Rightarrow> string) \<Rightarrow> (string \<Rightarrow> SyncFieldId option) \<Rightarrow> ('v \<Rightarrow> bool option) \<Rightarrow> (string, 'v) fmap \<Rightarrow>
   'v SyncValues \<Rightarrow> SyncScope \<Rightarrow> Registers \<Rightarrow> SyncError + 'v SyncValues" where
  "materialize_from to_json from_json as_bool values local scope resources =
     and_then (conflicts_from as_bool values resources) (\<lambda>conflicts.
     let blocked_new = map (fld_resource \<circ> conf_field)
           (filter (\<lambda>c. supports_field (res_kind (fld_resource (conf_field c))) (fld_field (conf_field c))) conflicts) in
     and_then (mat_loop to_json as_bool values scope local blocked_new (entries resources) local []) (\<lambda>(result, deleted).
     Inr (fmfilter (\<lambda>key. case from_key to_json from_json key of None \<Rightarrow> True
                          | Some field \<Rightarrow> fld_resource field \<notin> set deleted) result)))"

lemma entries_set [simp]: "(k, v) \<in> set (entries m) \<longleftrightarrow> fmlookup m k = Some v"
  by (auto simp: entries_def List.map_filter_def image_iff dest: fmdomI)

lemma entries_distinct: "distinct (map fst (entries m))"
proof -
  have "(\<And>k. k \<in> set ks \<Longrightarrow> k |\<in>| fmdom m) \<Longrightarrow> map fst (List.map_filter (\<lambda>k. map_option (Pair k) (fmlookup m k)) ks) = ks" for ks
    by (induction ks) (force simp: List.map_filter_simps split: option.splits)+
  from this [of "sorted_keys m"] show ?thesis by (simp add: entries_def)
qed

lemma entries_map_of: "map_of (entries m) k = fmlookup m k"
proof (cases "fmlookup m k")
  case None
  then show ?thesis by (metis entries_set map_of_SomeD not_Some_eq option.distinct(1))
next
  case (Some v)
  then show ?thesis by (simp add: map_of_eq_Some_iff [OF entries_distinct])
qed

definition settled_value :: "(string, 'v) fmap \<Rightarrow> SyncCandidate list \<Rightarrow> 'v option \<Rightarrow> 'v option" where
  "settled_value values candidates old =
     (if distinct_candidates candidates = 1
      then if cand_value (hd candidates) = ''deleted'' then None else fmlookup values (cand_value (hd candidates))
      else old)"

lemma candidate_value_ok: "candidate_value values c = Inr v \<longleftrightarrow> fmlookup values (cand_value c) = Some v"
  by (cases "fmlookup values (cand_value c)") (simp_all add: candidate_value_def)

lemma mat_fields_lookup:
  assumes "inj to_json"
  shows "mat_fields to_json values resource es result = Inr result' \<Longrightarrow> distinct (map fst es) \<Longrightarrow>
    fmlookup result' (to_json (SyncFieldId r n)) =
      (case if r = resource then map_of es n else None of
         Some cs \<Rightarrow> if supports_field (res_kind r) n then settled_value values cs (fmlookup result (to_json (SyncFieldId r n)))
                   else fmlookup result (to_json (SyncFieldId r n))
       | None \<Rightarrow> fmlookup result (to_json (SyncFieldId r n)))"
proof (induction es arbitrary: result)
  case (Cons e es)
  obtain name cs where e: "e = (name, cs)" by fastforce
  obtain result1 where step: "mat_fields to_json values resource es result1 = Inr result'"
    and one: "fmlookup result1 (to_json (SyncFieldId r n)) = (if r = resource \<and> n = name \<and> supports_field (res_kind r) n
       then settled_value values cs (fmlookup result (to_json (SyncFieldId r n)))
       else fmlookup result (to_json (SyncFieldId r n)))"
  proof (cases "supports_field (res_kind resource) name \<and> distinct_candidates cs = 1 \<and> cand_value (hd cs) \<noteq> ''deleted''")
    case True
    then obtain v where "candidate_value values (hd cs) = Inr v"
      using Cons.prems(1) e by (cases "candidate_value values (hd cs)") auto
    then show thesis using True Cons.prems(1) e
      by (intro that [of "fmupd (to_json (SyncFieldId resource name)) v result"])
        (auto simp: settled_value_def candidate_value_ok and_then_Inr_iff dest: injD [OF assms])
  next
    case False
    then show thesis using Cons.prems(1) e
      by (intro that [of "if supports_field (res_kind resource) name \<and> distinct_candidates cs = 1
            then fmdrop (to_json (SyncFieldId resource name)) result else result"])
        (auto simp: settled_value_def Let_def dest: injD [OF assms] split: if_splits)
  qed
  have "n = name \<Longrightarrow> map_of es n = None" using Cons.prems(2) e by (simp add: map_of_eq_None_iff)
  then show ?case using Cons.IH [OF step] Cons.prems(2) one e by (auto split: option.splits)
qed simp

lemma mat_resource_other:
  assumes "inj to_json" "mat_resource to_json as_bool values scope local blocked resource flds result deleted = Inr (result', deleted')"
    "r \<noteq> resource"
  shows "fmlookup result' (to_json (SyncFieldId r n)) = fmlookup result (to_json (SyncFieldId r n))"
    "r \<in> set deleted' \<longleftrightarrow> r \<in> set deleted"
  using assms(2,3) mat_fields_lookup [OF assms(1) _ entries_distinct, of "values" resource flds _ _ r n]
  by (auto simp: mat_resource_def and_then_Inr_iff split: if_splits)

lemma mat_loop_other:
  assumes "inj to_json" "mat_loop to_json as_bool values scope local blocked es result deleted = Inr (result', deleted')"
    "r \<notin> fst ` set es"
  shows "fmlookup result' (to_json (SyncFieldId r n)) = fmlookup result (to_json (SyncFieldId r n)) \<and>
    (r \<in> set deleted' \<longleftrightarrow> r \<in> set deleted)"
  using assms(2,3)
proof (induction es arbitrary: result deleted)
  case (Cons e es)
  obtain resource flds where e: "e = (resource, flds)" by fastforce
  obtain result1 deleted1 where step:
    "mat_resource to_json as_bool values scope local blocked resource flds result deleted = Inr (result1, deleted1)"
    "mat_loop to_json as_bool values scope local blocked es result1 deleted1 = Inr (result', deleted')"
    using Cons.prems(1) e by (auto simp: and_then_Inr_iff)
  then show ?case using Cons.IH [OF step(2)] mat_resource_other [OF assms(1) step(1)] Cons.prems(2) e by auto
qed simp

text \<open>The loop handles each resource once, with nothing before or after it touching its fields.\<close>

lemma mat_loop_at:
  assumes "inj to_json" "mat_loop to_json as_bool values scope local blocked es result deleted = Inr (result', deleted')"
    "distinct (map fst es)" "(r, flds) \<in> set es"
  obtains before after deleted1 deleted2 where
    "mat_resource to_json as_bool values scope local blocked r flds before deleted1 = Inr (after, deleted2)"
    "\<And>n. fmlookup before (to_json (SyncFieldId r n)) = fmlookup result (to_json (SyncFieldId r n))"
    "\<And>n. fmlookup result' (to_json (SyncFieldId r n)) = fmlookup after (to_json (SyncFieldId r n))"
    "r \<in> set deleted1 \<longleftrightarrow> r \<in> set deleted" "r \<in> set deleted' \<longleftrightarrow> r \<in> set deleted2"
  using assms(2-4)
proof (induction es arbitrary: result deleted thesis)
  case (Cons e es)
  obtain resource flds' where e: "e = (resource, flds')" by fastforce
  obtain result1 deleted1 where step:
    "mat_resource to_json as_bool values scope local blocked resource flds' result deleted = Inr (result1, deleted1)"
    "mat_loop to_json as_bool values scope local blocked es result1 deleted1 = Inr (result', deleted')"
    using Cons.prems(2) e by (auto simp: and_then_Inr_iff)
  show ?case
  proof (cases "r = resource")
    case True
    then have new: "r \<notin> fst ` set es" using Cons.prems(3) e by simp
    then have "flds' = flds" using Cons.prems(4) e True by force
    then show ?thesis using step(1) mat_loop_other [OF assms(1) step(2) new] True
      by (intro Cons.prems(1) [of result deleted result1 deleted1]) auto
  next
    case False
    note other = mat_resource_other [OF assms(1) step(1) False]
    show ?thesis
    proof (rule Cons.IH [OF _ step(2)])
      fix before after d1 d2
      assume "mat_resource to_json as_bool values scope local blocked r flds before d1 = Inr (after, d2)"
        "\<And>n. fmlookup before (to_json (SyncFieldId r n)) = fmlookup result1 (to_json (SyncFieldId r n))"
        "\<And>n. fmlookup result' (to_json (SyncFieldId r n)) = fmlookup after (to_json (SyncFieldId r n))"
        "(r \<in> set d1) = (r \<in> set deleted1)" "(r \<in> set deleted') = (r \<in> set d2)"
      then show thesis using other by (intro Cons.prems(1) [of before d1 after d2]) simp_all
    qed (use Cons.prems(3,4) e False in auto)
  qed
qed simp

lemma conflicts_loop_set:
  "conflicts_loop as_bool values es = Inr conflicts \<Longrightarrow>
   c \<in> set conflicts \<longleftrightarrow> (\<exists>r flds l. (r, flds) \<in> set es \<and> resource_conflicts as_bool values r flds = Inr l \<and> c \<in> set l)"
proof (induction es arbitrary: conflicts)
  case (Cons e es)
  obtain resource flds where e: "e = (resource, flds)" by fastforce
  then obtain l more where "resource_conflicts as_bool values resource flds = Inr l"
    "conflicts_loop as_bool values es = Inr more" "conflicts = l @ more"
    using Cons.prems by (auto simp: and_then_Inr_iff)
  then show ?case using Cons.IH e by fastforce
qed simp

lemma conflicts_loop_defined:
  "conflicts_loop as_bool values es = Inr conflicts \<Longrightarrow> (r, flds) \<in> set es \<Longrightarrow>
   \<exists>l. resource_conflicts as_bool values r flds = Inr l"
  by (induction es arbitrary: conflicts) (auto simp: and_then_Inr_iff)

text \<open>What the replica promises for one field, read off the registers.\<close>

definition field_outcome ::
  "(SyncFieldId \<Rightarrow> string) \<Rightarrow> ('v \<Rightarrow> bool option) \<Rightarrow> (string, 'v) fmap \<Rightarrow> 'v SyncValues \<Rightarrow> SyncScope \<Rightarrow> Registers \<Rightarrow>
   SyncFieldId \<Rightarrow> 'v option" where
  "field_outcome to_json as_bool values local scope registers f =
     (let r = fld_resource f; old = fmlookup local (to_json f) in
      case fmlookup registers r of
        None \<Rightarrow> old
      | Some flds \<Rightarrow>
          let ps = (case fmlookup flds ''$present'' of None \<Rightarrow> [] | Some ps \<Rightarrow> ps) in
          if \<not> scope_includes scope (res_kind r) \<or> distinct_candidates ps > 1 then old
          else if boolean as_bool values ps = Inr (Some False) then None
          else if fmlookup local (to_json (presence r)) = None \<and>
                  (\<exists>n cs. fmlookup flds n = Some cs \<and> supports_field (res_kind r) n \<and> distinct_candidates cs > 1)
          then old
          else case fmlookup flds (fld_field f) of
                 None \<Rightarrow> old
               | Some cs \<Rightarrow> if supports_field (res_kind r) (fld_field f) then settled_value values cs old else old)"

lemma field_outcome_at:
  assumes "fmlookup registers r = Some flds" "fmlookup flds ''$present'' = Some ps" "scope_includes scope (res_kind r)"
  shows "field_outcome to_json as_bool values local scope registers (SyncFieldId r n) =
    (if distinct_candidates ps > 1 then fmlookup local (to_json (SyncFieldId r n))
     else if boolean as_bool values ps = Inr (Some False) then None
     else if fmlookup local (to_json (presence r)) = None \<and>
             (\<exists>n cs. fmlookup flds n = Some cs \<and> supports_field (res_kind r) n \<and> distinct_candidates cs > 1)
     then fmlookup local (to_json (SyncFieldId r n))
     else case fmlookup flds n of None \<Rightarrow> fmlookup local (to_json (SyncFieldId r n))
       | Some cs \<Rightarrow> if supports_field (res_kind r) n then settled_value values cs (fmlookup local (to_json (SyncFieldId r n)))
                   else fmlookup local (to_json (SyncFieldId r n)))"
  unfolding field_outcome_def Let_def SyncFieldId.sel assms(1) option.case assms(2) using assms(3)
  by (simp only: not_True_eq_False simp_thms)

lemma blocked_new_iff:
  assumes "conflicts_from as_bool values registers = Inr conflicts" "fmlookup registers r = Some flds"
    "fmlookup flds ''$present'' = Some ps" "\<not> distinct_candidates ps > 1" "boolean as_bool values ps \<noteq> Inr (Some False)"
  shows "r \<in> set (map (fld_resource \<circ> conf_field)
      (filter (\<lambda>c. supports_field (res_kind (fld_resource (conf_field c))) (fld_field (conf_field c))) conflicts)) \<longleftrightarrow>
    (\<exists>n cs. fmlookup flds n = Some cs \<and> supports_field (res_kind r) n \<and> distinct_candidates cs > 1)"
proof -
  obtain cs where cs: "conflicts_loop as_bool values (entries registers) = Inr cs" "set conflicts = set cs"
    using assms(1) by (auto simp: conflicts_from_def and_then_Inr_iff)
  obtain l where l: "resource_conflicts as_bool values r flds = Inr l"
    using conflicts_loop_defined [OF cs(1)] assms(2) by auto
  then have set_l: "set l = {\<lparr>conf_field = SyncFieldId r n, conf_candidates = c\<rparr> | n c.
      fmlookup flds n = Some c \<and> distinct_candidates c > 1}"
    using assms(3-5) by (fastforce simp: resource_conflicts_def and_then_Inr_iff)
  have own: "fld_resource (conf_field c) = r'"
    if "resource_conflicts as_bool values r' flds' = Inr l'" "c \<in> set l'" for r' flds' l' c
    using that by (auto simp: resource_conflicts_def and_then_Inr_iff)
  have "c \<in> set conflicts \<and> fld_resource (conf_field c) = r \<longleftrightarrow> c \<in> set l" for c
    unfolding cs(2) conflicts_loop_set [OF cs(1)] using own l assms(2) by (auto 0 3)
  then have "r \<in> set (map (fld_resource \<circ> conf_field) (filter P conflicts)) \<longleftrightarrow> (\<exists>c\<in>set l. P c)" for P
    by (simp add: image_iff) metis
  moreover have "(\<exists>c\<in>set l. P (conf_field c)) \<longleftrightarrow>
      (\<exists>n cs. fmlookup flds n = Some cs \<and> P (SyncFieldId r n) \<and> distinct_candidates cs > 1)" for P
    unfolding set_l by (simp add: Bex_def) (metis SyncConflict.select_convs(1))
  note this [of "\<lambda>f. supports_field (res_kind (fld_resource f)) (fld_field f)"]
  ultimately show ?thesis by simp
qed

lemma mat_resource_own:
  assumes "inj to_json" "mat_resource to_json as_bool values scope local blocked r flds result deleted = Inr (result', deleted')"
    "r \<notin> set deleted" "scope_includes scope (res_kind r)" "fmlookup flds ''$present'' = Some ps"
  shows "r \<in> set deleted' \<longleftrightarrow> \<not> distinct_candidates ps > 1 \<and> boolean as_bool values ps = Inr (Some False)"
    and "r \<notin> set deleted' \<Longrightarrow> fmlookup result' (to_json (SyncFieldId r n)) =
      (if distinct_candidates ps > 1 \<or> fmlookup local (to_json (presence r)) = None \<and> r \<in> set blocked
       then fmlookup result (to_json (SyncFieldId r n))
       else case fmlookup flds n of None \<Rightarrow> fmlookup result (to_json (SyncFieldId r n))
         | Some cs \<Rightarrow> if supports_field (res_kind r) n then settled_value values cs (fmlookup result (to_json (SyncFieldId r n)))
                     else fmlookup result (to_json (SyncFieldId r n)))"
  using assms(2-5) mat_fields_lookup [OF assms(1) _ entries_distinct, of "values" r flds result result' r n]
  by (auto simp: mat_resource_def and_then_Inr_iff entries_map_of split: if_splits)


text \<open>C6. Materialisation. Whenever \<open>materialize_from\<close> succeeds, every field of the result is the value
  the registers promise for it: a resource outside the scope, without registers or with competing presence values
  keeps the local value; a resource whose presence is false loses its fields; a resource this device does not
  have yet is not created while one of its supported fields has competing values; otherwise a supported field
  with one distinct candidate takes that candidate (or disappears when it is the tombstone) and every other
  field keeps the local value. The hypothesis is the round trip of the JSON encoding of identities.\<close>

theorem sync_materialize:
  assumes "\<And>f. from_json (to_json f) = Some f"
    and "materialize_from to_json from_json as_bool values local scope registers = Inr result"
    and "res_kind (fld_resource f) \<noteq> []" "res_id (fld_resource f) \<noteq> []" "fld_field f \<noteq> []"
  shows "fmlookup result (to_json f) = field_outcome to_json as_bool values local scope registers f"
proof -
  obtain r n where f: "f = SyncFieldId r n" by (cases f)
  have inj: "inj to_json" using assms(1) by (metis injI option.inject)
  have key: "from_key to_json from_json (to_json f) = Some f" using assms(1,3-5) by (simp add: from_key_def)
  obtain conflicts mid deleted where c: "conflicts_from as_bool values registers = Inr conflicts"
    and loop: "mat_loop to_json as_bool values scope local (map (fld_resource \<circ> conf_field)
      (filter (\<lambda>c. supports_field (res_kind (fld_resource (conf_field c))) (fld_field (conf_field c))) conflicts))
      (entries registers) local [] = Inr (mid, deleted)"
    and result: "fmlookup result (to_json f) = (if r \<in> set deleted then None else fmlookup mid (to_json f))"
    using assms(2) key f by (auto simp: materialize_from_def and_then_Inr_iff Let_def)
  show ?thesis
  proof (cases "fmlookup registers r")
    case None
    then have "r \<notin> fst ` set (entries registers)" by force
    then show ?thesis using mat_loop_other [OF inj loop] result None f by (simp add: field_outcome_def)
  next
    case (Some flds)
    then have flds: "(r, flds) \<in> set (entries registers)" by simp
    then obtain ps where ps: "fmlookup flds ''$present'' = Some ps"
      using c by (auto simp: conflicts_from_def and_then_Inr_iff resource_conflicts_def dest!: conflicts_loop_defined)
    obtain pre post d1 d2 where
      at: "mat_resource to_json as_bool values scope local (map (fld_resource \<circ> conf_field)
        (filter (\<lambda>c. supports_field (res_kind (fld_resource (conf_field c))) (fld_field (conf_field c))) conflicts))
        r flds pre d1 = Inr (post, d2)"
      and same: "fmlookup pre (to_json f) = fmlookup local (to_json f)" "fmlookup mid (to_json f) = fmlookup post (to_json f)"
        "r \<notin> set d1" "r \<in> set deleted \<longleftrightarrow> r \<in> set d2"
      by (rule mat_loop_at [OF inj loop entries_distinct flds]) (auto simp: f)
    show ?thesis
    proof (cases "scope_includes scope (res_kind r)")
      case False
      then show ?thesis using at same result Some f by (simp add: mat_resource_def field_outcome_def)
    next
      case True
      note own = mat_resource_own(1) [OF inj at same(3) True ps]
        mat_resource_own(2) [OF inj at same(3) True ps, of n, folded f, unfolded same(1), unfolded f]
      note out = field_outcome_at [OF Some ps True]
      consider "distinct_candidates ps > 1" | "\<not> distinct_candidates ps > 1" "boolean as_bool values ps = Inr (Some False)"
        | "\<not> distinct_candidates ps > 1" "boolean as_bool values ps \<noteq> Inr (Some False)" by blast
      then show ?thesis
      proof cases
        case 3
        then have "r \<notin> set deleted" using own(1) same(4) by blast
        then show ?thesis using own(2) same result 3 blocked_new_iff [OF c Some ps 3]
          unfolding f out by (simp del: set_map)
      qed (use own(1) own(2) same result in \<open>simp_all add: f out\<close>)
    qed
  qed
qed

definition note_bool :: "nat \<Rightarrow> bool option" where
  "note_bool v = (if v = 0 then Some False else if v = 1 then Some True else None)"

definition note_registers :: Registers where
  "note_registers = fmap_of_list [(SyncResourceId ''note'' ''1'', fmap_of_list
     [(''$present'', [\<lparr>cand_operation = ''1@a'', cand_value = ''d1''\<rparr>]),
      (''title'', [\<lparr>cand_operation = ''2@a'', cand_value = ''d7''\<rparr>, \<lparr>cand_operation = ''2@b'', cand_value = ''d7''\<rparr>]),
      (''markdown'', [\<lparr>cand_operation = ''3@a'', cand_value = ''d7''\<rparr>, \<lparr>cand_operation = ''3@b'', cand_value = ''d1''\<rparr>])])]"

definition core_scope :: SyncScope where
  "core_scope = \<lparr>secrets = False, preferences = False, ai = False, keybindings = False, trusted_hosts = False\<rparr>"

theorem sync_materialize_witness:
  "materialize_from marked_json unmarked_json note_bool (fmap_of_list [(''d1'', 1), (''d7'', 7)]) (note_values 2 3)
     core_scope note_registers = Inr (note_values 7 3) \<and>
   field_outcome marked_json note_bool (fmap_of_list [(''d1'', 1), (''d7'', 7)]) (note_values 2 3) core_scope
     note_registers (SyncFieldId (SyncResourceId ''note'' ''1'') ''title'') = Some 7"
proof -
  have *: "materialize_from marked_json unmarked_json note_bool (fmap_of_list [(''d1'', 1), (''d7'', 7)]) (note_values 2 3)
     core_scope note_registers = Inr (note_values 7 3)"
    by code_simp
  have "fmlookup (note_values 7 3) (marked_json (SyncFieldId (SyncResourceId ''note'' ''1'') ''title'')) = Some 7"
    by code_simp
  then show ?thesis
    using sync_materialize [OF unmarked_marked *, of "SyncFieldId (SyncResourceId ''note'' ''1'') ''title''"] * by simp
qed


section \<open>Capturing local edits\<close>

text \<open>The writes \<open>capture\<close> issues to the document, in order: \<open>write\<close> and \<open>delete_field\<close> put a reference under the
  key of the field in the root object of the document.\<close>

record 'v SyncProjection =
  proj_values :: "'v SyncValues"
  proj_complete :: "string list"
  proj_edited :: "SyncFieldId list"

datatype 'v doc_write = Write SyncFieldId 'v | DeleteField SyncFieldId

fun write_field :: "'v doc_write \<Rightarrow> SyncFieldId" where
  "write_field (Write f v) = f"
| "write_field (DeleteField f) = f"

fun removed_loop ::
  "(SyncFieldId \<Rightarrow> string) \<Rightarrow> (string \<Rightarrow> SyncFieldId option) \<Rightarrow> 'v SyncValues \<Rightarrow> 'v SyncProjection \<Rightarrow> SyncScope \<Rightarrow>
   string list \<Rightarrow> SyncError + SyncResourceId list" where
  "removed_loop to_json from_json baseline current scope [] = Inr []"
| "removed_loop to_json from_json baseline current scope (key # keys) =
     and_then (ok_or (from_key to_json from_json key) InvalidReplica) (\<lambda>field.
     and_then (removed_loop to_json from_json baseline current scope keys) (\<lambda>removed.
     Inr (if fld_field field \<noteq> ''$present'' \<or> \<not> scope_includes scope (res_kind (fld_resource field)) \<or>
             res_kind (fld_resource field) \<notin> set (proj_complete current) then removed
          else if fmlookup baseline key \<noteq> None \<and> fmlookup (proj_values current) key = None
          then fld_resource field # removed else removed)))"

fun changed_loop ::
  "(SyncFieldId \<Rightarrow> string) \<Rightarrow> (string \<Rightarrow> SyncFieldId option) \<Rightarrow> 'v SyncValues \<Rightarrow> 'v SyncProjection \<Rightarrow> SyncScope \<Rightarrow>
   SyncResourceId list \<Rightarrow> string list \<Rightarrow> SyncError + 'v doc_write list" where
  "changed_loop to_json from_json baseline current scope removed [] = Inr []"
| "changed_loop to_json from_json baseline current scope removed (key # keys) =
     and_then (ok_or (from_key to_json from_json key) InvalidReplica) (\<lambda>field.
     and_then (changed_loop to_json from_json baseline current scope removed keys) (\<lambda>writes.
     Inr (if \<not> scope_includes scope (res_kind (fld_resource field)) \<or>
             \<not> supports_field (res_kind (fld_resource field)) (fld_field field) \<or>
             (res_kind (fld_resource field) \<notin> set (proj_complete current) \<and> fmlookup (proj_values current) key = None) \<or>
             fld_resource field \<in> set removed \<or>
             (fmlookup baseline key = fmlookup (proj_values current) key \<and> field \<notin> set (proj_edited current))
          then writes
          else (case fmlookup (proj_values current) key of
                  Some value \<Rightarrow> Write field value | None \<Rightarrow> DeleteField field) # writes)))"

definition capture ::
  "(SyncFieldId \<Rightarrow> string) \<Rightarrow> (string \<Rightarrow> SyncFieldId option) \<Rightarrow> (bool \<Rightarrow> 'v) \<Rightarrow> 'v SyncValues \<Rightarrow> 'v SyncProjection \<Rightarrow>
   SyncScope \<Rightarrow> SyncError + 'v doc_write list \<times> bool" where
  "capture to_json from_json json_bool baseline current scope =
     (if proj_edited current = [] \<and> baseline = proj_values current then Inr ([], False)
      else let keys = remdups_adj (sort (sorted_keys baseline @ sorted_keys (proj_values current))) in
        and_then (removed_loop to_json from_json baseline current scope keys) (\<lambda>removed.
        and_then (changed_loop to_json from_json baseline current scope removed keys) (\<lambda>writes.
        let changed = remdups_adj (sort (map (fld_resource \<circ> write_field) writes)) in
        Inr (map (\<lambda>r. Write (presence r) (json_bool False)) removed @ writes @
             map (\<lambda>r. Write (presence r) (json_bool True)) changed,
             changed \<noteq> [] \<or> removed \<noteq> []))))"

text \<open>The resources a capture declares deleted, and the fields it records as edited.\<close>

definition gone ::
  "(SyncFieldId \<Rightarrow> string) \<Rightarrow> 'v SyncValues \<Rightarrow> 'v SyncProjection \<Rightarrow> SyncScope \<Rightarrow> SyncResourceId \<Rightarrow> bool" where
  "gone to_json baseline current scope r \<longleftrightarrow>
     scope_includes scope (res_kind r) \<and> res_kind r \<in> set (proj_complete current) \<and>
     fmlookup baseline (to_json (presence r)) \<noteq> None \<and> fmlookup (proj_values current) (to_json (presence r)) = None"

definition edited_field ::
  "(SyncFieldId \<Rightarrow> string) \<Rightarrow> 'v SyncValues \<Rightarrow> 'v SyncProjection \<Rightarrow> SyncScope \<Rightarrow> SyncFieldId \<Rightarrow> bool" where
  "edited_field to_json baseline current scope f \<longleftrightarrow>
     scope_includes scope (res_kind (fld_resource f)) \<and> supports_field (res_kind (fld_resource f)) (fld_field f) \<and>
     \<not> gone to_json baseline current scope (fld_resource f) \<and>
     (fmlookup (proj_values current) (to_json f) \<noteq> None \<or>
      fmlookup baseline (to_json f) \<noteq> None \<and> res_kind (fld_resource f) \<in> set (proj_complete current)) \<and>
     (fmlookup baseline (to_json f) \<noteq> fmlookup (proj_values current) (to_json f) \<or> f \<in> set (proj_edited current))"

lemma from_key_Some: "from_key to_json from_json k = Some f \<Longrightarrow> k = to_json f"
  by (auto simp: from_key_def split: option.splits if_splits)

lemma key_cases:
  "from_key to_json from_json key = Some f \<Longrightarrow>
   from_key to_json from_json (to_json g) = Some g \<and> to_json g \<in> set (key # keys) \<longleftrightarrow>
     g = f \<or> from_key to_json from_json (to_json g) = Some g \<and> to_json g \<in> set keys"
  using from_key_Some [of to_json from_json key f] by auto

lemma mem_if_Cons: "w \<in> set (if P then x # rest else rest) \<longleftrightarrow> P \<and> w = x \<or> w \<in> set rest"
  by simp

lemma removed_loop_set:
  "removed_loop to_json from_json baseline current scope keys = Inr removed \<Longrightarrow>
   r \<in> set removed \<longleftrightarrow> to_json (presence r) \<in> set keys \<and>
     from_key to_json from_json (to_json (presence r)) = Some (presence r) \<and> gone to_json baseline current scope r"
proof (induction keys arbitrary: removed)
  case (Cons key keys)
  obtain f rest where f: "from_key to_json from_json key = Some f"
    and rest: "removed_loop to_json from_json baseline current scope keys = Inr rest"
    using Cons.prems by (auto simp: and_then_Inr_iff)
  have key: "key = to_json f" by (rule from_key_Some [OF f])
  have "fld_field f = ''$present'' \<longleftrightarrow> f = presence (fld_resource f)" by (cases f) (simp add: presence_def)
  then have "removed = (if f = presence (fld_resource f) \<and> gone to_json baseline current scope (fld_resource f)
      then fld_resource f # rest else rest)"
    using Cons.prems f rest key by (auto simp: gone_def split: if_splits)
  moreover have "f = presence (fld_resource f) \<and> r = fld_resource f \<longleftrightarrow> f = presence r"
    by (cases f) (auto simp: presence_def)
  ultimately have "r \<in> set removed \<longleftrightarrow> f = presence r \<and> gone to_json baseline current scope r \<or> r \<in> set rest"
    by auto
  then show ?case unfolding Cons.IH [OF rest] using key_cases [OF f, of "presence r" keys] by blast
qed simp

lemma changed_loop_set:
  "changed_loop to_json from_json baseline current scope removed keys = Inr writes \<Longrightarrow>
   w \<in> set writes \<longleftrightarrow> (\<exists>f. from_key to_json from_json (to_json f) = Some f \<and> to_json f \<in> set keys \<and>
     scope_includes scope (res_kind (fld_resource f)) \<and> supports_field (res_kind (fld_resource f)) (fld_field f) \<and>
     (res_kind (fld_resource f) \<in> set (proj_complete current) \<or> fmlookup (proj_values current) (to_json f) \<noteq> None) \<and>
     fld_resource f \<notin> set removed \<and>
     (fmlookup baseline (to_json f) \<noteq> fmlookup (proj_values current) (to_json f) \<or> f \<in> set (proj_edited current)) \<and>
     w = (case fmlookup (proj_values current) (to_json f) of Some value \<Rightarrow> Write f value | None \<Rightarrow> DeleteField f))"
proof (induction keys arbitrary: writes)
  case (Cons key keys)
  obtain f rest where f: "from_key to_json from_json key = Some f"
    and rest: "changed_loop to_json from_json baseline current scope removed keys = Inr rest"
    using Cons.prems by (auto simp: and_then_Inr_iff)
  have key: "key = to_json f" by (rule from_key_Some [OF f])
  let ?P = "\<lambda>f. scope_includes scope (res_kind (fld_resource f)) \<and> supports_field (res_kind (fld_resource f)) (fld_field f) \<and>
     (res_kind (fld_resource f) \<in> set (proj_complete current) \<or> fmlookup (proj_values current) (to_json f) \<noteq> None) \<and>
     fld_resource f \<notin> set removed \<and>
     (fmlookup baseline (to_json f) \<noteq> fmlookup (proj_values current) (to_json f) \<or> f \<in> set (proj_edited current))"
  let ?w = "\<lambda>f. case fmlookup (proj_values current) (to_json f) of Some value \<Rightarrow> Write f value | None \<Rightarrow> DeleteField f"
  have "writes = (if ?P f then ?w f # rest else rest)"
    using Cons.prems f rest key by (auto split: if_splits)
  then have "w \<in> set writes \<longleftrightarrow> ?P f \<and> w = ?w f \<or> w \<in> set rest" by (simp only: mem_if_Cons)
  then show ?case unfolding Cons.IH [OF rest] using key_cases [OF f, of _ keys] by (metis (no_types, lifting))
qed simp


lemma sort_Nil_iff: "sort xs = [] \<longleftrightarrow> xs = []"
  by (metis set_empty set_sort)

lemma capture_cases:
  assumes "capture to_json from_json json_bool baseline current scope = Inr (writes, dirty)"
  obtains (same) "proj_edited current = []" "baseline = proj_values current" "writes = []" "\<not> dirty"
    | (captured) keys removed changed where
        "set keys = fset (fmdom baseline) \<union> fset (fmdom (proj_values current))"
        "removed_loop to_json from_json baseline current scope keys = Inr removed"
        "changed_loop to_json from_json baseline current scope removed keys = Inr changed"
        "set writes = (\<lambda>r. Write (presence r) (json_bool False)) ` set removed \<union> set changed \<union>
           (\<lambda>w. Write (presence (fld_resource (write_field w))) (json_bool True)) ` set changed"
        "dirty \<longleftrightarrow> changed \<noteq> [] \<or> removed \<noteq> []"
proof (cases "proj_edited current = [] \<and> baseline = proj_values current")
  case True
  then show thesis using assms same by (simp add: capture_def)
next
  case False
  let ?keys = "remdups_adj (sort (sorted_keys baseline @ sorted_keys (proj_values current)))"
  obtain removed changed where l: "removed_loop to_json from_json baseline current scope ?keys = Inr removed"
    "changed_loop to_json from_json baseline current scope removed ?keys = Inr changed"
    "writes = map (\<lambda>r. Write (presence r) (json_bool False)) removed @ changed @
       map (\<lambda>r. Write (presence r) (json_bool True)) (remdups_adj (sort (map (fld_resource \<circ> write_field) changed)))"
    "dirty \<longleftrightarrow> changed \<noteq> [] \<or> removed \<noteq> []"
    using assms False by (auto simp: capture_def Let_def and_then_Inr_iff sort_Nil_iff)
  show thesis by (rule captured [OF _ l(1,2) _ l(4)]) (simp_all add: l(3) image_image image_Un Un_assoc)
qed


definition current_write :: "(SyncFieldId \<Rightarrow> string) \<Rightarrow> 'v SyncProjection \<Rightarrow> SyncFieldId \<Rightarrow> 'v doc_write" where
  "current_write to_json current f =
     (case fmlookup (proj_values current) (to_json f) of Some value \<Rightarrow> Write f value | None \<Rightarrow> DeleteField f)"

lemma write_field_current [simp]: "write_field (current_write to_json current f) = f"
  by (simp add: current_write_def split: option.splits)

lemma removed_loop_keys:
  "removed_loop to_json from_json baseline current scope keys = Inr removed \<Longrightarrow> k \<in> set keys \<Longrightarrow>
   \<exists>f. from_key to_json from_json k = Some f"
  by (induction keys arbitrary: removed) (auto simp: and_then_Inr_iff)

lemma captured_sets:
  assumes json: "\<And>f. from_json (to_json f) = Some f"
    and keys: "set keys = fset (fmdom baseline) \<union> fset (fmdom (proj_values current))"
    and removed: "removed_loop to_json from_json baseline current scope keys = Inr removed"
    and changed: "changed_loop to_json from_json baseline current scope removed keys = Inr changed"
  shows "r \<in> set removed \<longleftrightarrow> gone to_json baseline current scope r"
    and "w \<in> set changed \<longleftrightarrow> (\<exists>f. edited_field to_json baseline current scope f \<and> w = current_write to_json current f)"
proof -
  have inj: "to_json f = to_json g \<Longrightarrow> f = g" for f g using json by (metis option.inject)
  have known: "to_json f \<in> set keys \<longleftrightarrow>
      fmlookup baseline (to_json f) \<noteq> None \<or> fmlookup (proj_values current) (to_json f) \<noteq> None" for f
    unfolding keys by (auto simp: fmlookup_dom_iff)
  have valid: "from_key to_json from_json (to_json f) = Some f" if "to_json f \<in> set keys" for f
    using removed_loop_keys [OF removed that] from_key_Some inj by metis
  show r: "r \<in> set removed \<longleftrightarrow> gone to_json baseline current scope r" for r
    unfolding removed_loop_set [OF removed] using valid [of "presence r"] known [of "presence r"] by (auto simp: gone_def)
  show "w \<in> set changed \<longleftrightarrow> (\<exists>f. edited_field to_json baseline current scope f \<and> w = current_write to_json current f)"
    unfolding changed_loop_set [OF changed] edited_field_def current_write_def r
  proof (rule iff_exI, goal_cases)
    case (1 f)
    then show ?case using valid [of f] known [of f] by blast
  qed
qed

text \<open>C26. Captured edits. The writes a successful \<open>capture\<close> issues are exactly these: a false presence for
  each resource that is gone; for each edited field its current value, or a tombstone when it has none; and a
  true presence for each resource with an edited field. So a deletion, of a resource or of a field, is
  recorded only for a kind in scope that was read completely and whose key the baseline had; a resource
  that is gone gets no other write; and the result says whether anything was written. The hypothesis is the
  round trip of the JSON encoding of identities.\<close>

theorem sync_capture:
  assumes "\<And>f. from_json (to_json f) = Some f"
    and "capture to_json from_json json_bool baseline current scope = Inr (writes, dirty)"
  shows "(dirty \<longleftrightarrow> writes \<noteq> []) \<and> (w \<in> set writes \<longleftrightarrow> (case w of
      Write f v \<Rightarrow>
        (\<exists>r. f = presence r \<and> v = json_bool False \<and> gone to_json baseline current scope r) \<or>
        edited_field to_json baseline current scope f \<and> fmlookup (proj_values current) (to_json f) = Some v \<or>
        (\<exists>g. f = presence (fld_resource g) \<and> v = json_bool True \<and> edited_field to_json baseline current scope g)
    | DeleteField f \<Rightarrow>
        edited_field to_json baseline current scope f \<and> fmlookup (proj_values current) (to_json f) = None))"
  using assms(2)
proof (cases rule: capture_cases)
  case same
  then have "\<not> gone to_json baseline current scope r" "\<not> edited_field to_json baseline current scope f" for r f
    by (auto simp: gone_def edited_field_def)
  with same show ?thesis by (simp split: doc_write.split)
next
  case (captured keys removed changed)
  note sets = captured_sets [OF assms(1) captured(1-3)]
  have "dirty \<longleftrightarrow> writes \<noteq> []"
    unfolding captured(5) set_empty [symmetric] captured(4) by auto
  moreover have "w \<in> set writes \<longleftrightarrow> (\<exists>r. gone to_json baseline current scope r \<and> w = Write (presence r) (json_bool False)) \<or>
      (\<exists>f. edited_field to_json baseline current scope f \<and>
        (w = current_write to_json current f \<or> w = Write (presence (fld_resource f)) (json_bool True)))"
  proof -
    have "set removed = Collect (gone to_json baseline current scope)"
      "set changed = current_write to_json current ` Collect (edited_field to_json baseline current scope)"
      using sets by auto
    then show ?thesis unfolding captured(4) by (auto simp: image_image)
  qed
  ultimately show ?thesis by (cases w) (auto simp: current_write_def split: option.splits)
qed


theorem sync_capture_witness:
  "capture marked_json unmarked_json (\<lambda>b. if b then 1 else 0)
     (note_values 2 3) \<lparr>proj_values = fmdrop (note_field ''1'' ''markdown'') (note_values 7 3),
       proj_complete = [''note''], proj_edited = []\<rparr> core_scope =
     Inr ([DeleteField (SyncFieldId (SyncResourceId ''note'' ''1'') ''markdown''),
           Write (SyncFieldId (SyncResourceId ''note'' ''1'') ''title'') 7,
           Write (SyncFieldId (SyncResourceId ''note'' ''1'') ''$present'') (1::nat)], True) \<and>
   edited_field marked_json (note_values 2 3) \<lparr>proj_values = fmdrop (note_field ''1'' ''markdown'') (note_values 7 3),
       proj_complete = [''note''], proj_edited = []\<rparr> core_scope (SyncFieldId (SyncResourceId ''note'' ''1'') ''markdown'')"
proof -
  let ?current = "\<lparr>proj_values = fmdrop (note_field ''1'' ''markdown'') (note_values 7 3),
    proj_complete = [''note''], proj_edited = []\<rparr>"
  have *: "capture marked_json unmarked_json (\<lambda>b. if b then 1 else 0) (note_values 2 3) ?current core_scope =
     Inr ([DeleteField (SyncFieldId (SyncResourceId ''note'' ''1'') ''markdown''),
           Write (SyncFieldId (SyncResourceId ''note'' ''1'') ''title'') 7,
           Write (SyncFieldId (SyncResourceId ''note'' ''1'') ''$present'') (1::nat)], True)"
    by code_simp
  show ?thesis
    using sync_capture [OF unmarked_marked *, of "DeleteField (SyncFieldId (SyncResourceId ''note'' ''1'') ''markdown'')"] *
    by simp
qed

end
