(* ===== verification/Text_Offsets.thy ===== *)
theory Text_Offsets
  imports Prelude Cells "HOL-Library.Sublist"
begin

text \<open>
  Byte offsets into text. A string is the list of its Unicode scalar values, and an offset
  counts the bytes of its UTF-8 form: \<open>is_char_boundary\<close>, slicing and \<open>replace_range\<close> as the standard library
  has them, and the loop that moves an offset down to a boundary, which \<open>text_edit.rs\<close>, \<open>document_edit.rs\<close> and
  \<open>output_store.rs\<close> of the core crate each write out.
\<close>

lemma len_utf8_neq_0 [simp]: "len_utf8 c \<noteq> 0"
  by (simp add: len_utf8_def)

lemma len_utf8_le_4: "len_utf8 c \<le> 4"
  by (simp add: len_utf8_def)

lemma utf8_len_eq_0_iff [simp]: "utf8_len xs = 0 \<longleftrightarrow> xs = []"
  by (cases xs) simp_all

lemma utf8_len_pos_iff [simp]: "0 < utf8_len xs \<longleftrightarrow> xs \<noteq> []"
  by (cases xs) simp_all


section \<open>Boundaries\<close>

fun split_bytes :: "uchar list \<Rightarrow> nat \<Rightarrow> (uchar list \<times> uchar list) option" where
  "split_bytes s 0 = Some ([], s)"
| "split_bytes [] (Suc n) = None"
| "split_bytes (c # s) (Suc n) =
     (if len_utf8 c \<le> Suc n then map_option (\<lambda>(a, b). (c # a, b)) (split_bytes s (Suc n - len_utf8 c)) else None)"

lemma split_bytes_Some_iff: "split_bytes s i = Some (a, b) \<longleftrightarrow> s = a @ b \<and> utf8_len a = i"
proof (induction s i arbitrary: a b rule: split_bytes.induct)
  case (3 c s n)
  show ?case
  proof (cases a)
    case Nil
    then show ?thesis by (auto split: if_splits)
  next
    case (Cons c' a')
    then show ?thesis using 3 by (auto split: if_splits)
  qed
qed auto

lemma split_bytes_append [simp]: "split_bytes (a @ b) (utf8_len a) = Some (a, b)"
  by (simp add: split_bytes_Some_iff)

definition is_char_boundary :: "uchar list \<Rightarrow> nat \<Rightarrow> bool" where
  "is_char_boundary s i \<longleftrightarrow> split_bytes s i \<noteq> None"

lemma boundary_iff: "is_char_boundary s i \<longleftrightarrow> (\<exists>a b. s = a @ b \<and> utf8_len a = i)"
  by (cases "split_bytes s i") (use split_bytes_Some_iff in \<open>fastforce simp: is_char_boundary_def\<close>)+

lemma boundary_0 [simp]: "is_char_boundary s 0"
  by (simp add: is_char_boundary_def)

lemma boundary_len [simp]: "is_char_boundary s (utf8_len s)"
  unfolding boundary_iff by (intro exI [of _ s] exI [of _ "[]"]) simp

lemma boundary_append [simp]: "is_char_boundary (a @ b) (utf8_len a)"
  unfolding boundary_iff by blast

lemma boundary_le: "is_char_boundary s i \<Longrightarrow> i \<le> utf8_len s"
  by (auto simp: boundary_iff)

lemma boundaryE:
  assumes "is_char_boundary s i"
  obtains a b where "s = a @ b" "i = utf8_len a"
  using assms by (auto simp: boundary_iff)

text \<open>Two boundaries in order split the text in three.\<close>

lemma utf8_prefix_unique:
  "a @ b = c @ d \<Longrightarrow> utf8_len a \<le> utf8_len c \<Longrightarrow> \<exists>e. c = a @ e \<and> b = e @ d"
  by (auto simp: append_eq_append_conv2)

lemma boundariesE:
  assumes "is_char_boundary s i" "is_char_boundary s j" "i \<le> j"
  obtains a m b where "s = a @ m @ b" "i = utf8_len a" "j = utf8_len a + utf8_len m"
proof -
  obtain a b where a: "s = a @ b" "i = utf8_len a" by (rule boundaryE [OF assms(1)])
  obtain c d where c: "s = c @ d" "j = utf8_len c" by (rule boundaryE [OF assms(2)])
  obtain e where "c = a @ e" "b = e @ d" using utf8_prefix_unique [of a b c d] a c assms(3) by auto
  then show thesis using that a c by auto
qed


section \<open>Slices\<close>

definition str_slice :: "uchar list \<Rightarrow> nat \<Rightarrow> nat \<Rightarrow> panic + uchar list" where
  "str_slice s i j =
     (if j < i then Inl OutOfBounds
      else case (split_bytes s i, split_bytes s j) of
        (Some (_, rest), Some (front, _)) \<Rightarrow> Inr (take (length front + length rest - length s) rest)
      | _ \<Rightarrow> Inl CharBoundary)"

definition str_replace_range :: "uchar list \<Rightarrow> nat \<Rightarrow> nat \<Rightarrow> uchar list \<Rightarrow> panic + uchar list" where
  "str_replace_range s i j new =
     (if j < i then Inl OutOfBounds
      else case (split_bytes s i, split_bytes s j) of
        (Some (pre, _), Some (_, post)) \<Rightarrow> Inr (pre @ new @ post)
      | _ \<Rightarrow> Inl CharBoundary)"

lemma str_slice_ok [simp]: "str_slice (a @ m @ b) (utf8_len a) (utf8_len a + utf8_len m) = Inr m"
proof -
  have "split_bytes (a @ m @ b) (utf8_len a + utf8_len m) = Some (a @ m, b)"
    using split_bytes_append [of "a @ m" b] by simp
  then show ?thesis by (simp add: str_slice_def)
qed

lemma str_replace_range_ok [simp]:
  "str_replace_range (a @ m @ b) (utf8_len a) (utf8_len a + utf8_len m) new = Inr (a @ new @ b)"
proof -
  have "split_bytes (a @ m @ b) (utf8_len a + utf8_len m) = Some (a @ m, b)"
    using split_bytes_append [of "a @ m" b] by simp
  then show ?thesis by (simp add: str_replace_range_def)
qed

lemma str_replace_range_Inr_iff:
  "str_replace_range s i j new = Inr s' \<longleftrightarrow>
   (\<exists>a m b. s = a @ m @ b \<and> i = utf8_len a \<and> j = utf8_len a + utf8_len m \<and> s' = a @ new @ b)"
  (is "?l \<longleftrightarrow> ?r")
proof
  assume ?l
  then have "is_char_boundary s i" "is_char_boundary s j" "i \<le> j"
    by (auto simp: str_replace_range_def is_char_boundary_def split: if_splits option.splits)
  then obtain a m b where "s = a @ m @ b" "i = utf8_len a" "j = utf8_len a + utf8_len m" by (rule boundariesE)
  with \<open>?l\<close> show ?r by auto
qed auto


section \<open>Moving an offset down to a boundary\<close>

fun floor_loop :: "uchar list \<Rightarrow> nat \<Rightarrow> nat" where
  "floor_loop s 0 = 0"
| "floor_loop s (Suc i) = (if is_char_boundary s (Suc i) then Suc i else floor_loop s i)"

definition floor_offset :: "uchar list \<Rightarrow> nat \<Rightarrow> nat" where
  "floor_offset s i = floor_loop s (min i (utf8_len s))"

lemma floor_loop_spec:
  "is_char_boundary s (floor_loop s i)" "floor_loop s i \<le> i"
  "is_char_boundary s j \<Longrightarrow> j \<le> i \<Longrightarrow> j \<le> floor_loop s i"
  by (induction i) (auto simp: le_Suc_eq)

lemma floor_offset_boundary [simp]: "is_char_boundary s (floor_offset s i)"
  by (simp add: floor_offset_def floor_loop_spec)

lemma floor_offset_le: "floor_offset s i \<le> i" "floor_offset s i \<le> utf8_len s"
  using floor_loop_spec(2) [of s "min i (utf8_len s)"] by (simp_all add: floor_offset_def)

lemma floor_offset_greatest: "is_char_boundary s j \<Longrightarrow> j \<le> i \<Longrightarrow> j \<le> floor_offset s i"
  by (simp add: floor_offset_def floor_loop_spec boundary_le)

lemma floor_offset_id [simp]: "is_char_boundary s i \<Longrightarrow> floor_offset s i = i"
  by (intro antisym floor_offset_le floor_offset_greatest) simp_all

lemma floor_offset_mono: "i \<le> j \<Longrightarrow> floor_offset s i \<le> floor_offset s j"
  by (rule floor_offset_greatest) (auto intro: order_trans [OF floor_offset_le(1)])

text \<open>The offset is less than one character above its boundary.\<close>

lemma floor_offset_close: "i \<le> utf8_len s \<Longrightarrow> i < floor_offset s i + 4"
proof -
  assume i: "i \<le> utf8_len s"
  obtain a b where ab: "s = a @ b" "floor_offset s i = utf8_len a" by (rule boundaryE [OF floor_offset_boundary])
  show ?thesis
  proof (cases b)
    case Nil
    then show ?thesis using ab i by simp
  next
    case (Cons c b')
    have "is_char_boundary s (utf8_len (a @ [c]))" using ab Cons by (metis append.assoc append_Cons append_Nil boundary_append)
    then have "\<not> utf8_len (a @ [c]) \<le> i" using floor_offset_greatest [of s "utf8_len (a @ [c])" i] ab by auto
    then show ?thesis using ab len_utf8_le_4 [of c] by simp
  qed
qed

end
