(* ===== verification/Document_Edit.thy ===== *)
theory Document_Edit
  imports Prelude Cells Text_Offsets "HOL-Library.Product_Lexorder" "HOL-Library.Sublist"
begin

text \<open>
  Edit transactions on a text document (\<open>document_edit.rs\<close> of the core crate): a list of
  replacements is checked as a whole and applied back to front, with a bounded undo stack, and selections
  are normalised to disjoint ranges. Offsets count bytes of the UTF-8 form; lengths are below
  \<open>isize::MAX\<close>, so the signed shift is an integer. The search, which is the regex library, is left out.
\<close>


section \<open>Documents\<close>

type_synonym range = "nat \<times> nat"

record TextEdit =
  e_range :: range
  e_text :: "uchar list"

record DocumentSnapshot =
  snap_content :: "uchar list"
  snap_anchor :: nat
  snap_head :: nat
  snap_selections :: "range list"

record TextDocument =
  doc_content :: "uchar list"
  doc_anchor :: nat
  doc_head :: nat
  additional_selections :: "range list"
  undo_stack :: "DocumentSnapshot list"
  redo_stack :: "DocumentSnapshot list"

definition boundary :: "uchar list \<Rightarrow> nat \<Rightarrow> nat" where
  "boundary s offset = floor_offset s offset"

definition document_new :: "uchar list \<Rightarrow> nat \<Rightarrow> TextDocument" where
  "document_new content cursor =
     (let cursor = boundary content cursor in
      \<lparr>doc_content = content, doc_anchor = cursor, doc_head = cursor, additional_selections = [],
       undo_stack = [], redo_stack = []\<rparr>)"

definition snapshot :: "TextDocument \<Rightarrow> DocumentSnapshot" where
  "snapshot d = \<lparr>snap_content = doc_content d, snap_anchor = doc_anchor d, snap_head = doc_head d,
     snap_selections = additional_selections d\<rparr>"

definition checkpoint :: "TextDocument \<Rightarrow> TextDocument" where
  "checkpoint d =
     (let stack = undo_stack d @ [snapshot d] in
      d\<lparr>undo_stack := (if 64 < length stack then drop 1 stack else stack), redo_stack := []\<rparr>)"


section \<open>Selections\<close>

fun merge_ranges :: "range list \<Rightarrow> range list \<Rightarrow> range list" where
  "merge_ranges [] result = result"
| "merge_ranges ((start, stop) # rest) result =
     (if result \<noteq> [] \<and> (start < snd (last result) \<or> (start, stop) = last result \<or>
                         (stop \<le> start \<and> start = snd (last result)))
      then merge_ranges rest (butlast result @ [(fst (last result), max (snd (last result)) stop)])
      else merge_ranges rest (result @ [(start, stop)]))"

definition normalize_selections :: "uchar list \<Rightarrow> range list \<Rightarrow> range list" where
  "normalize_selections content ranges =
     merge_ranges (sort_key (\<lambda>r. (fst r, snd r)) (map (\<lambda>(start, stop).
       (boundary content (min start stop), boundary content (max stop start))) ranges)) []"

definition selections :: "TextDocument \<Rightarrow> range list" where
  "selections d = normalize_selections (doc_content d)
     (additional_selections d @ [(min (doc_anchor d) (doc_head d), max (doc_anchor d) (doc_head d))])"

fun split_inclusive :: "uchar list \<Rightarrow> uchar list list" where
  "split_inclusive [] = []"
| "split_inclusive (c # s) =
     (if c = 10 then [c] # split_inclusive s
      else case split_inclusive s of [] \<Rightarrow> [[c]] | l # ls \<Rightarrow> (c # l) # ls)"

definition line_position :: "uchar list \<Rightarrow> nat \<Rightarrow> nat \<times> nat" where
  "line_position content offset =
     (let before = (case split_bytes content (boundary content offset) of Some (a, _) \<Rightarrow> a | None \<Rightarrow> []) in
      (length (filter (\<lambda>c. c = 10) before), length (takeWhile (\<lambda>c. c \<noteq> 10) (rev before))))"

definition strip_newline :: "uchar list \<Rightarrow> uchar list" where
  "strip_newline l = (if l \<noteq> [] \<and> last l = 10 then butlast l else l)"

definition column_offset :: "uchar list \<Rightarrow> nat \<Rightarrow> nat" where
  "column_offset l col = (if col < length l then fst (char_indices 0 l ! col) else utf8_len l)"

fun rectangle_loop :: "nat \<Rightarrow> nat \<Rightarrow> nat \<Rightarrow> nat \<Rightarrow> nat \<Rightarrow> nat \<Rightarrow> uchar list list \<Rightarrow> range list" where
  "rectangle_loop first_line last_line first_col last_col i offset [] = []"
| "rectangle_loop first_line last_line first_col last_col i offset (l # ls) =
     (let rest = rectangle_loop first_line last_line first_col last_col (i + 1) (offset + utf8_len l) ls in
      if first_line \<le> i \<and> i \<le> last_line
      then (offset + column_offset (strip_newline l) first_col, offset + column_offset (strip_newline l) last_col) # rest
      else rest)"

definition rectangle_selections :: "uchar list \<Rightarrow> nat \<Rightarrow> nat \<Rightarrow> range list" where
  "rectangle_selections content anchor head =
     (let (start_line, start_col) = line_position content anchor; (end_line, end_col) = line_position content head in
      rectangle_loop (min start_line end_line) (max start_line end_line) (min start_col end_col) (max start_col end_col)
        0 0 (split_inclusive content))"


section \<open>Transactions\<close>

datatype edit_error = InvalidRanges

fun check_edits :: "uchar list \<Rightarrow> nat \<Rightarrow> TextEdit list \<Rightarrow> bool" where
  "check_edits content previous_end [] = True"
| "check_edits content previous_end (edit # rest) =
     (let (start, stop) = e_range edit in
      if start < previous_end \<or> stop < start \<or> utf8_len content < stop \<or>
         \<not> is_char_boundary content start \<or> \<not> is_char_boundary content stop
      then False else check_edits content stop rest)"

fun edit_cursors :: "int \<Rightarrow> TextEdit list \<Rightarrow> nat list" where
  "edit_cursors shift [] = []"
| "edit_cursors shift (edit # rest) =
     (let (start, stop) = e_range edit in
      (nat (int start + shift) + utf8_len (e_text edit)) #
      edit_cursors (shift + (int (utf8_len (e_text edit)) - int (stop - start))) rest)"

fun apply_backwards :: "TextEdit list \<Rightarrow> uchar list \<Rightarrow> panic + uchar list" where
  "apply_backwards [] content = Inr content"
| "apply_backwards (edit # rest) content =
     and_then (str_replace_range content (fst (e_range edit)) (snd (e_range edit)) (e_text edit)) (apply_backwards rest)"

definition sort_edits :: "TextEdit list \<Rightarrow> TextEdit list" where
  "sort_edits edits = sort_key e_range edits"

definition apply_edits :: "TextEdit list \<Rightarrow> TextDocument \<Rightarrow> panic + (edit_error + TextDocument)" where
  "apply_edits edits d =
     (let edits = sort_edits edits in
      if \<not> check_edits (doc_content d) 0 edits then Inr (Inl InvalidRanges)
      else if edits = [] then Inr (Inr d)
      else
        let d = checkpoint d; cursors = edit_cursors 0 edits in
        and_then (apply_backwards (rev edits) (doc_content d)) (\<lambda>content.
        Inr (Inr (d\<lparr>doc_content := content, doc_anchor := last cursors, doc_head := last cursors,
                    additional_selections := map (\<lambda>c. (c, c)) (butlast cursors)\<rparr>))))"

definition replace_selections :: "uchar list \<Rightarrow> TextDocument \<Rightarrow> panic + (edit_error + TextDocument)" where
  "replace_selections new d = apply_edits (map (\<lambda>range. \<lparr>e_range = range, e_text = new\<rparr>) (selections d)) d"


section \<open>What a transaction does\<close>

text \<open>A transaction described by the text itself: before each replaced part a kept part, with the edit
  that replaces it, and a kept tail.\<close>

type_synonym segments = "(uchar list \<times> uchar list \<times> TextEdit) list"

definition old_text :: "segments \<Rightarrow> uchar list" where
  "old_text segs = concat (map (\<lambda>(kept, old, edit). kept @ old) segs)"

definition new_text :: "segments \<Rightarrow> uchar list" where
  "new_text segs = concat (map (\<lambda>(kept, old, edit). kept @ e_text edit) segs)"

definition edits_of :: "segments \<Rightarrow> TextEdit list" where
  "edits_of segs = map (\<lambda>(kept, old, edit). edit) segs"

fun segments_at :: "nat \<Rightarrow> segments \<Rightarrow> bool" where
  "segments_at p [] = True"
| "segments_at p ((kept, old, edit) # segs) \<longleftrightarrow>
     e_range edit = (p + utf8_len kept, p + utf8_len kept + utf8_len old) \<and>
     segments_at (p + utf8_len kept + utf8_len old) segs"

lemma old_text_simps [simp]: "old_text [] = []" "old_text ((k, m, e) # segs) = k @ m @ old_text segs"
  and edits_of_simps [simp]: "edits_of [] = []" "edits_of ((k, m, e) # segs) = e # edits_of segs"
  and new_text_simps [simp]: "new_text [] = []" "new_text ((k, m, e) # segs) = k @ e_text e @ new_text segs"
  by (simp_all add: old_text_def new_text_def edits_of_def)

lemma check_edits_segments:
  "check_edits (pre @ rest) (utf8_len pre) edits \<Longrightarrow>
   \<exists>segs tail. rest = old_text segs @ tail \<and> segments_at (utf8_len pre) segs \<and> edits_of segs = edits"
proof (induction edits arbitrary: pre rest)
  case (Cons edit edits)
  obtain start stop where range: "e_range edit = (start, stop)" by fastforce
  with Cons.prems have c: "utf8_len pre \<le> start" "start \<le> stop" "is_char_boundary (pre @ rest) start"
    "is_char_boundary (pre @ rest) stop" "check_edits (pre @ rest) stop edits"
    by (auto simp: Let_def not_less split: if_splits)
  obtain a m b where amb: "pre @ rest = a @ m @ b" "start = utf8_len a" "stop = utf8_len a + utf8_len m"
    by (rule boundariesE [OF c(3,4,2)])
  obtain k where k: "a = pre @ k" "rest = k @ m @ b" using utf8_prefix_unique [of pre rest a "m @ b"] amb c(1) by auto
  have "check_edits ((pre @ k @ m) @ b) (utf8_len (pre @ k @ m)) edits" using c(5) amb k by (simp add: add.assoc)
  from Cons.IH [OF this] obtain segs tail where "b = old_text segs @ tail" "segments_at (utf8_len (pre @ k @ m)) segs"
    "edits_of segs = edits" by blast
  then show ?case using k amb range
    by (intro exI [of _ "(k, m, edit) # segs"] exI [of _ tail]) (simp add: add.assoc)
qed (metis append_Nil edits_of_simps(1) old_text_simps(1) segments_at.simps(1))

lemma segments_check:
  "segments_at (utf8_len pre) segs \<Longrightarrow>
   check_edits (pre @ old_text segs @ tail) (utf8_len pre) (edits_of segs)"
proof (induction segs arbitrary: pre)
  case (Cons seg segs)
  obtain k m e where seg: "seg = (k, m, e)" by (cases seg)
  have "check_edits ((pre @ k @ m) @ old_text segs @ tail) (utf8_len (pre @ k @ m)) (edits_of segs)"
    using Cons seg by (intro Cons.IH) (simp add: add.assoc)
  moreover have "is_char_boundary (pre @ k @ m @ old_text segs @ tail) (utf8_len pre + utf8_len k)"
    "is_char_boundary (pre @ k @ m @ old_text segs @ tail) (utf8_len pre + utf8_len k + utf8_len m)"
    using boundary_append [of "pre @ k" "m @ old_text segs @ tail"] boundary_append [of "pre @ k @ m" "old_text segs @ tail"]
    by (simp_all add: add.assoc)
  ultimately show ?case using Cons.prems seg by (simp add: add.assoc)
qed simp

lemma apply_backwards_append:
  "apply_backwards (xs @ ys) content = and_then (apply_backwards xs content) (apply_backwards ys)"
proof (induction xs arbitrary: content)
  case (Cons x xs)
  then have "apply_backwards (xs @ ys) = (\<lambda>c. and_then (apply_backwards xs c) (apply_backwards ys))" by (rule ext)
  then show ?case by (simp add: and_then_assoc)
qed simp

lemma apply_backwards_segments:
  "segments_at (utf8_len pre) segs \<Longrightarrow>
   apply_backwards (rev (edits_of segs)) (pre @ old_text segs @ tail) = Inr (pre @ new_text segs @ tail)"
proof (induction segs arbitrary: pre)
  case (Cons seg segs)
  obtain k m e where seg: "seg = (k, m, e)" by (cases seg)
  have "apply_backwards (rev (edits_of segs)) ((pre @ k @ m) @ old_text segs @ tail) =
      Inr ((pre @ k @ m) @ new_text segs @ tail)"
    using Cons.prems seg by (intro Cons.IH) (simp add: add.assoc)
  moreover have "str_replace_range ((pre @ k) @ m @ new_text segs @ tail) (utf8_len (pre @ k)) (utf8_len (pre @ k) + utf8_len m) (e_text e) =
      Inr ((pre @ k) @ e_text e @ new_text segs @ tail)"
    by (rule str_replace_range_ok)
  ultimately show ?case using Cons.prems seg by (simp add: apply_backwards_append add.assoc)
qed simp

text \<open>The cursor after the \<open>i\<close>-th edit stands behind its new text.\<close>

lemma edit_cursors_segments:
  "segments_at p segs \<Longrightarrow> int p + shift = int q \<Longrightarrow>
   edit_cursors shift (edits_of segs) = map (\<lambda>i. q + utf8_len (new_text (take (Suc i) segs))) [0..<length segs]"
proof (induction segs arbitrary: p q shift)
  case (Cons seg segs)
  obtain k m e where seg: "seg = (k, m, e)" by (cases seg)
  let ?q = "q + utf8_len k + utf8_len (e_text e)"
  have "edit_cursors (shift + (int (utf8_len (e_text e)) - int (utf8_len m))) (edits_of segs) =
      map (\<lambda>i. ?q + utf8_len (new_text (take (Suc i) segs))) [0..<length segs]"
    using Cons.prems seg by (intro Cons.IH [of "p + utf8_len k + utf8_len m"]) auto
  moreover have "nat (int (p + utf8_len k) + shift) = q + utf8_len k" using Cons.prems(2) by simp
  ultimately show ?case using Cons.prems(1) seg
    by (simp add: map_upt_Suc add.assoc del: upt_Suc)
qed simp

section \<open>What normalising does\<close>

definition ranges_ok :: "uchar list \<Rightarrow> range list \<Rightarrow> bool" where
  "ranges_ok content rs \<longleftrightarrow>
     (\<forall>(a, b)\<in>set rs. a \<le> b \<and> is_char_boundary content a \<and> is_char_boundary content b) \<and>
     successively (\<lambda>r r'. snd r \<le> fst r') rs"

definition covered :: "range list \<Rightarrow> nat set" where
  "covered rs = (\<Union>(a, b)\<in>set rs. {a..<b})"

lemma covered_simps [simp]: "covered [] = {}" "covered ((a, b) # rs) = {a..<b} \<union> covered rs"
  "covered (xs @ ys) = covered xs \<union> covered ys"
  by (auto simp: covered_def)

lemma ranges_ok_last:
  "ranges_ok content (rs @ [(a, b)]) \<longleftrightarrow> ranges_ok content rs \<and> a \<le> b \<and> is_char_boundary content a \<and>
     is_char_boundary content b \<and> (rs \<noteq> [] \<longrightarrow> snd (last rs) \<le> a)"
  by (auto simp: ranges_ok_def successively_append_iff)

lemma merge_ranges_ok:
  assumes "ranges_ok content result" "sorted (map fst rs)"
    and "\<forall>(a, b)\<in>set rs. a \<le> b \<and> is_char_boundary content a \<and> is_char_boundary content b"
    and "result \<noteq> [] \<Longrightarrow> \<forall>r\<in>set rs. fst (last result) \<le> fst r"
  shows "ranges_ok content (merge_ranges rs result) \<and> covered (merge_ranges rs result) = covered result \<union> covered rs"
  using assms
proof (induction rs result rule: merge_ranges.induct)
  case (2 start stop rest result)
  note [simp] = max_def
  show ?case
  proof (cases "result \<noteq> [] \<and> (start < snd (last result) \<or> (start, stop) = last result \<or>
                         (stop \<le> start \<and> start = snd (last result)))")
    case True
    obtain res a b where res: "result = res @ [(a, b)]" using True by (metis append_butlast_last_id surj_pair)
    have ab: "ranges_ok content res" "a \<le> b" "is_char_boundary content a" "is_char_boundary content b"
      "res \<noteq> [] \<longrightarrow> snd (last res) \<le> a" using "2.prems"(1) res by (auto simp: ranges_ok_last)
    have s: "a \<le> start" "start \<le> stop" "is_char_boundary content stop" using "2.prems"(3,4) res by auto
    have "start < b \<or> start = a \<and> stop = b \<or> stop \<le> start \<and> start = b" using True res by auto
    then have cov: "{a..<max b stop} = {a..<b} \<union> {start..<stop}" using s ab(2) by auto
    have "ranges_ok content (merge_ranges rest (res @ [(a, max b stop)])) \<and>
      covered (merge_ranges rest (res @ [(a, max b stop)])) = covered (res @ [(a, max b stop)]) \<union> covered rest"
      using "2.IH"(1) [OF True] "2.prems" res ab s by (auto simp: ranges_ok_last)
    then show ?thesis using True res cov by auto
  next
    case False
    have "ranges_ok content (result @ [(start, stop)])"
      using "2.prems"(1,3) False unfolding ranges_ok_last by auto
    then have "ranges_ok content (merge_ranges rest (result @ [(start, stop)])) \<and>
      covered (merge_ranges rest (result @ [(start, stop)])) = covered (result @ [(start, stop)]) \<union> covered rest"
      using "2.IH"(2) [OF False] "2.prems" by auto
    then show ?thesis using False by auto
  qed
qed simp

definition floor_range :: "uchar list \<Rightarrow> range \<Rightarrow> range" where
  "floor_range content r = (boundary content (min (fst r) (snd r)), boundary content (max (fst r) (snd r)))"

lemma normalize_selections_ok:
  "ranges_ok content (normalize_selections content ranges)"
  "covered (normalize_selections content ranges) = covered (map (floor_range content) ranges)"
proof -
  let ?rs = "sort_key (\<lambda>r. (fst r, snd r)) (map (floor_range content) ranges)"
  have "sorted (map (\<lambda>r. (fst r, snd r)) ?rs)" by (rule sorted_sort_key)
  then have "sorted (map fst ?rs)"
    by (simp only: sorted_map) (auto simp: less_eq_prod_def elim!: sorted_wrt_mono_rel [rotated])
  moreover have "\<forall>(a, b)\<in>set ?rs. a \<le> b \<and> is_char_boundary content a \<and> is_char_boundary content b"
    by (auto simp: floor_range_def boundary_def intro!: floor_offset_mono)
  ultimately have "ranges_ok content (merge_ranges ?rs []) \<and> covered (merge_ranges ?rs []) = covered [] \<union> covered ?rs"
    by (intro merge_ranges_ok) (simp_all add: ranges_ok_def)
  moreover have "(\<lambda>(start, stop). (boundary content (min start stop), boundary content (max stop start))) = floor_range content"
    by (auto simp: floor_range_def max.commute)
  then have "normalize_selections content ranges = merge_ranges ?rs []" by (simp add: normalize_selections_def)
  moreover have "covered ?rs = covered (map (floor_range content) ranges)" by (simp add: covered_def)
  ultimately show "ranges_ok content (normalize_selections content ranges)"
    "covered (normalize_selections content ranges) = covered (map (floor_range content) ranges)" by simp_all
qed

lemma ranges_ok_check:
  "ranges_ok content rs \<Longrightarrow> (rs \<noteq> [] \<Longrightarrow> p \<le> fst (hd rs)) \<Longrightarrow>
   check_edits content p (map (\<lambda>r. \<lparr>e_range = r, e_text = new\<rparr>) rs)"
proof (induction rs arbitrary: p)
  case (Cons r rs)
  obtain a b where r: "r = (a, b)" by fastforce
  have "ranges_ok content rs" "rs \<noteq> [] \<Longrightarrow> b \<le> fst (hd rs)" "a \<le> b" "is_char_boundary content a" "is_char_boundary content b"
    using Cons.prems(1) r by (auto simp: ranges_ok_def successively_Cons)
  then show ?case using Cons.IH [of b] Cons.prems(2) r boundary_le [of content b] by simp
qed simp

lemma ranges_ok_sorted: "ranges_ok content rs \<Longrightarrow> sorted rs"
proof (induction rs)
  case (Cons r rs)
  have ok: "ranges_ok content rs" "fst r \<le> snd r" using Cons.prems by (auto simp: ranges_ok_def successively_Cons)
  have "r \<le> hd rs" if "rs \<noteq> []"
  proof -
    have "snd r \<le> fst (hd rs)" "fst (hd rs) \<le> snd (hd rs)"
      using Cons.prems that by (auto simp: ranges_ok_def successively_Cons dest!: bspec [of _ _ "hd rs"])
    then show ?thesis using ok(2) by (auto simp: less_eq_prod_def)
  qed
  moreover have "sorted rs" using Cons.IH ok(1) by simp
  ultimately show ?case by (cases rs) (auto intro: order_trans simp del: less_eq_prod_simp)
qed simp

lemma sort_edits_ok:
  "ranges_ok content rs \<Longrightarrow> sort_edits (map (\<lambda>r. \<lparr>e_range = r, e_text = new\<rparr>) rs) = map (\<lambda>r. \<lparr>e_range = r, e_text = new\<rparr>) rs"
  unfolding sort_edits_def by (rule sort_key_id_if_sorted) (simp add: o_def ranges_ok_sorted)


text \<open>A rectangular selection is a list of disjoint ranges between characters, in order: one for each
  line from the first to the last, so replacing it always succeeds too.\<close>

lemma split_inclusive_concat: "concat (split_inclusive s) = s"
  by (induction s) (auto split: list.splits)

lemma char_indices_nth: "i < length s \<Longrightarrow> fst (char_indices p s ! i) = p + utf8_len (take i s)"
proof (induction s arbitrary: p i)
  case (Cons c s)
  then show ?case by (cases i) auto
qed simp

lemma column_offset_take: "column_offset l col = utf8_len (take col l)"
  by (simp add: column_offset_def char_indices_nth)

lemma strip_newline_prefix: "\<exists>tail. l = strip_newline l @ tail"
proof (cases "l \<noteq> [] \<and> last l = 10")
  case True
  then have "l = strip_newline l @ [last l]"
    using append_butlast_last_id [of l, symmetric] by (simp only: strip_newline_def if_True simp_thms)
  then show ?thesis by blast
qed (auto simp: strip_newline_def)

lemma rectangle_loop_ok:
  assumes "first_col \<le> last_col"
  shows "ranges_ok (pre @ concat ls) (rectangle_loop first_line last_line first_col last_col i (utf8_len pre) ls) \<and>
    (\<forall>r\<in>set (rectangle_loop first_line last_line first_col last_col i (utf8_len pre) ls). utf8_len pre \<le> fst r)"
proof (induction ls arbitrary: pre i)
  case Nil
  show ?case by (simp add: ranges_ok_def)
next
  case (Cons l ls)
  obtain tail where l: "l = strip_newline l @ tail" using strip_newline_prefix by blast
  let ?a = "take first_col (strip_newline l)" and ?b = "take last_col (strip_newline l)"
  let ?rest = "rectangle_loop first_line last_line first_col last_col (i + 1) (utf8_len (pre @ l)) ls"
  have IH: "ranges_ok (pre @ l @ concat ls) ?rest" "\<forall>r\<in>set ?rest. utf8_len pre + utf8_len l \<le> fst r"
    using Cons.IH [of "pre @ l" "i + 1"] by simp_all
  have bnd: "is_char_boundary (pre @ l @ concat ls) (utf8_len pre + utf8_len (take c (strip_newline l)))" for c
    using boundary_append [of "pre @ take c (strip_newline l)" "drop c (strip_newline l) @ tail @ concat ls"] l
    by (metis append.assoc append_take_drop_id utf8_len_simps(3))
  have "?b = ?a @ take (last_col - first_col) (drop first_col (strip_newline l))"
    using assms by (metis le_add_diff_inverse take_add)
  then have ab: "utf8_len ?a \<le> utf8_len ?b" by (metis le_add1 utf8_len_simps(3))
  have "utf8_len ?b \<le> utf8_len l" by (metis append.assoc append_take_drop_id l le_add1 utf8_len_simps(3))
  then have "\<forall>r\<in>set ?rest. utf8_len pre + utf8_len ?b \<le> fst r" using IH(2) by fastforce
  then have "?rest \<noteq> [] \<longrightarrow> utf8_len pre + utf8_len ?b \<le> fst (hd ?rest)" using hd_in_set by blast
  then have "ranges_ok (pre @ l @ concat ls) ((utf8_len pre + utf8_len ?a, utf8_len pre + utf8_len ?b) # ?rest)"
    using IH(1) bnd ab by (auto simp: ranges_ok_def successively_Cons)
  then show ?case using IH by (auto simp: Let_def column_offset_take)
qed

lemma rectangle_selections_ok: "ranges_ok content (rectangle_selections content anchor head)"
  using rectangle_loop_ok [where pre = "[]" and ls = "split_inclusive content"]
  by (auto simp: rectangle_selections_def split_inclusive_concat split: prod.split)


section \<open>Properties\<close>

definition last_n :: "nat \<Rightarrow> 'a list \<Rightarrow> 'a list" where
  "last_n n xs = drop (length xs - n) xs"

text \<open>C12. Transactions. A list of edits either cannot be laid out in the document in the order of their
  ranges without overlapping, and then \<open>apply\<close> reports an error; or the document is a sequence of kept and
  replaced parts at exactly the ranges of the edits, and then \<open>apply\<close> succeeds, the new content is the same
  sequence with the replaced parts exchanged, each cursor stands behind the text of its edit, and one
  undo step with the old document is added to at most 64 of them. It never panics.\<close>

theorem document_apply:
  assumes "length (undo_stack d) \<le> 64"
  shows "(\<nexists>segs tail. doc_content d = old_text segs @ tail \<and> segments_at 0 segs \<and> edits_of segs = sort_edits edits) \<and>
      apply_edits edits d = Inr (Inl InvalidRanges) \<or>
    (\<exists>segs tail d'. doc_content d = old_text segs @ tail \<and> segments_at 0 segs \<and> edits_of segs = sort_edits edits \<and>
      apply_edits edits d = Inr (Inr d') \<and> doc_content d' = new_text segs @ tail \<and>
      (if edits = [] then d' = d
       else map fst (additional_selections d') @ [doc_anchor d'] =
              map (\<lambda>i. utf8_len (new_text (take (Suc i) segs))) [0..<length segs] \<and>
            map snd (additional_selections d') @ [doc_head d'] =
              map (\<lambda>i. utf8_len (new_text (take (Suc i) segs))) [0..<length segs] \<and>
            undo_stack d' = last_n 64 (undo_stack d @ [snapshot d]) \<and> redo_stack d' = []))"
proof (cases "check_edits (doc_content d) 0 (sort_edits edits)")
  case False
  then have "\<nexists>segs tail. doc_content d = old_text segs @ tail \<and> segments_at 0 segs \<and> edits_of segs = sort_edits edits"
    using segments_check [of "[]"] by (metis append_Nil utf8_len_simps(1))
  then show ?thesis using False by (simp add: apply_edits_def)
next
  case True
  then obtain segs tail where segs: "doc_content d = old_text segs @ tail" "segments_at 0 segs" "edits_of segs = sort_edits edits"
    using check_edits_segments [of "[]", simplified] by blast
  have Nil: "sort_edits edits = [] \<longleftrightarrow> edits = []" by (simp add: sort_edits_def) (metis length_0_conv length_sort)
  show ?thesis
  proof (cases "edits = []")
    case True
    then have "segs = []" using segs(3) Nil by (cases segs) (auto simp: edits_of_def)
    then show ?thesis using True segs Nil by (intro disjI2 exI [of _ segs] exI [of _ tail] exI [of _ d])
      (simp add: apply_edits_def sort_edits_def)
  next
    case False
    let ?cursors = "map (\<lambda>i. utf8_len (new_text (take (Suc i) segs))) [0..<length segs]"
    let ?d = "(checkpoint d)\<lparr>doc_content := new_text segs @ tail, doc_anchor := last ?cursors, doc_head := last ?cursors,
      additional_selections := map (\<lambda>c. (c, c)) (butlast ?cursors)\<rparr>"
    have cursors: "edit_cursors 0 (sort_edits edits) = ?cursors"
      using edit_cursors_segments [OF segs(2), of 0 0] segs(3) by simp
    have "segs \<noteq> []" using segs(3) Nil False by (auto simp: edits_of_def)
    then have ne: "?cursors \<noteq> []" by simp
    have "apply_backwards (rev (sort_edits edits)) (doc_content (checkpoint d)) = Inr (new_text segs @ tail)"
      using apply_backwards_segments [of "[]" segs tail] segs by (simp add: checkpoint_def Let_def)
    then have "apply_edits edits d = Inr (Inr ?d)"
      using True False Nil cursors by (simp add: apply_edits_def Let_def)
    moreover have "undo_stack ?d = last_n 64 (undo_stack d @ [snapshot d])" "redo_stack ?d = []"
      using assms by (cases "length (undo_stack d) = 64") (auto simp: checkpoint_def last_n_def Let_def)
    moreover have "map fst (additional_selections ?d) @ [doc_anchor ?d] = ?cursors"
      "map snd (additional_selections ?d) @ [doc_head ?d] = ?cursors"
      using ne by (simp_all add: o_def append_butlast_last_id)
    ultimately show ?thesis using False segs by (intro disjI2 exI [of _ segs] exI [of _ tail] exI [of _ ?d]) simp
  qed
qed

theorem document_apply_witness:
  "\<exists>d'. apply_edits [\<lparr>e_range = (1, 3), e_text = [0x58]\<rparr>] (document_new [0x61, 0xe9, 0x62] 2) = Inr (Inr d') \<and>
     doc_content d' = [0x61, 0x58, 0x62] \<and> doc_anchor d' = 2 \<and>
     undo_stack d' = [snapshot (document_new [0x61, 0xe9, 0x62] 2)]"
proof -
  let ?d = "document_new [0x61, 0xe9, 0x62] 2" and ?edits = "[\<lparr>e_range = (1, 3), e_text = [0x58]\<rparr>]"
  have content: "apply_edits ?edits ?d = Inr (Inr ((checkpoint ?d)\<lparr>doc_content := [0x61, 0x58, 0x62], doc_anchor := 2,
      doc_head := 2, additional_selections := []\<rparr>))"
    by code_simp
  have stack: "undo_stack ?d = []" by (simp add: document_new_def Let_def)
  then show ?thesis using document_apply [of ?d ?edits] content by (auto simp: last_n_def)
qed

text \<open>C30. Selections. Whatever the stored selections are, the normalised ones are disjoint ranges between
  characters, in order, that cover the same bytes as the stored ones moved to characters; replacing them
  always succeeds and puts the text in place of each.\<close>

theorem document_replace_selections:
  "ranges_ok (doc_content d) (selections d) \<and>
   covered (selections d) = covered (map (floor_range (doc_content d)) (additional_selections d @ [(doc_anchor d, doc_head d)])) \<and>
   (\<exists>segs tail d'. doc_content d = old_text segs @ tail \<and> segments_at 0 segs \<and>
      edits_of segs = map (\<lambda>r. \<lparr>e_range = r, e_text = new\<rparr>) (selections d) \<and>
      replace_selections new d = Inr (Inr d') \<and> doc_content d' = new_text segs @ tail)"
proof -
  have ok: "ranges_ok (doc_content d) (selections d)" by (simp add: selections_def normalize_selections_ok)
  have cov: "covered (selections d) = covered (map (floor_range (doc_content d)) (additional_selections d @ [(doc_anchor d, doc_head d)]))"
    by (simp add: selections_def normalize_selections_ok) (simp add: floor_range_def)
  let ?edits = "map (\<lambda>r. \<lparr>e_range = r, e_text = new\<rparr>) (selections d)"
  have check: "check_edits (doc_content d) 0 ?edits" by (rule ranges_ok_check [OF ok]) simp
  then obtain segs tail where segs: "doc_content d = old_text segs @ tail" "segments_at 0 segs" "edits_of segs = ?edits"
    using check_edits_segments [of "[]", simplified] by blast
  have backwards: "apply_backwards (rev ?edits) (doc_content d) = Inr (new_text segs @ tail)"
    using apply_backwards_segments [of "[]" segs tail] segs by simp
  then have "\<exists>d'. replace_selections new d = Inr (Inr d') \<and> doc_content d' = new_text segs @ tail"
    using check segs by (auto simp: replace_selections_def apply_edits_def sort_edits_ok [OF ok] checkpoint_def Let_def)
  then show ?thesis using ok cov segs by blast
qed

end
