(* ===== verification/Text_Edit.thy ===== *)
theory Text_Edit
  imports Prelude Cells Text_Offsets
begin

text \<open>
  The single-line text field (\<open>text_edit.rs\<close> of the core crate): a text with a caret and the fixed end of
  a selection, both byte offsets that must stay between characters. A slice at any other offset and
  a replacement of such a range are panics. The tables of whitespace and of letters and digits of the
  standard library are the parameters \<open>ws\<close> and \<open>alnum\<close>.
\<close>


section \<open>Characters and boundaries\<close>

datatype CursorMotion = Left | Right | WordLeft | WordRight | Start | End

datatype CharClass = Space | Word | Punctuation

record TextEdit =
  content :: "uchar list"
  cursor :: nat
  anchor :: "nat option"

definition char_class :: "(uchar \<Rightarrow> bool) \<Rightarrow> (uchar \<Rightarrow> bool) \<Rightarrow> uchar \<Rightarrow> CharClass" where
  "char_class ws alnum c = (if ws c then Space else if alnum c \<or> c = 0x5f then Word else Punctuation)"

text \<open>\<open>content[i..].chars().next()\<close>\<close>

definition chars_next :: "uchar list \<Rightarrow> nat \<Rightarrow> panic + uchar option" where
  "chars_next s i =
     (case split_bytes s i of None \<Rightarrow> Inl CharBoundary | Some (_, rest) \<Rightarrow> Inr (case rest of [] \<Rightarrow> None | c # _ \<Rightarrow> Some c))"

definition floor_boundary :: "nat \<Rightarrow> TextEdit \<Rightarrow> nat" where
  "floor_boundary offset e = floor_offset (content e) offset"

text \<open>Both slice at an offset that was moved down to a boundary (\<open>floor_offset_boundary\<close>), so the slices do not
panic.\<close>

definition previous_boundary :: "uchar list \<Rightarrow> nat \<Rightarrow> nat" where
  "previous_boundary s offset =
     (case split_bytes s (floor_offset s offset) of
        None \<Rightarrow> 0
      | Some (front, _) \<Rightarrow> if front = [] then 0 else fst (last (char_indices 0 front)))"

definition next_boundary :: "uchar list \<Rightarrow> nat \<Rightarrow> nat" where
  "next_boundary s offset =
     (let offset = floor_offset s offset in
      case chars_next s offset of Inr (Some c) \<Rightarrow> offset + len_utf8 c | _ \<Rightarrow> offset)"

lemma previous_boundary_at [simp]: "previous_boundary (a @ b) (utf8_len a) = utf8_len (butlast a)"
proof -
  have "fst (last (char_indices 0 a)) = utf8_len (butlast a)" if "a \<noteq> []"
    using that by (cases a rule: rev_cases) (simp_all add: char_indices_append)
  then show ?thesis by (simp add: previous_boundary_def)
qed

lemma chars_next_at [simp]: "chars_next (a @ b) (utf8_len a) = Inr (case b of [] \<Rightarrow> None | c # _ \<Rightarrow> Some c)"
  by (simp add: chars_next_def)

lemma at_end [simp]: "chars_next a (utf8_len a) = Inr None" "previous_boundary a (utf8_len a) = utf8_len (butlast a)"
  using chars_next_at [of a "[]"] previous_boundary_at [of a "[]"] by simp_all

lemma next_boundary_at [simp]: "next_boundary (a @ b) (utf8_len a) = utf8_len (a @ take 1 b)"
  by (cases b) (simp_all add: next_boundary_def Let_def)

lemma previous_boundary_less: "0 < i \<Longrightarrow> previous_boundary s i < i"
proof -
  assume i: "0 < i"
  obtain a b where ab: "s = a @ b" "floor_offset s i = utf8_len a" by (rule boundaryE [OF floor_offset_boundary])
  have "previous_boundary s i = previous_boundary s (floor_offset s i)" by (simp add: previous_boundary_def)
  also have "\<dots> = utf8_len (butlast a)" unfolding ab(2) unfolding ab(1) by (rule previous_boundary_at)
  finally have p: "previous_boundary s i = utf8_len (butlast a)" .
  show ?thesis
  proof (cases a rule: rev_cases)
    case Nil
    then show ?thesis using p i by simp
  next
    case (snoc a' c)
    then have "utf8_len (butlast a) < utf8_len a" by simp
    then show ?thesis using p floor_offset_le(1) [of s i] ab by simp
  qed
qed


section \<open>Words\<close>

function skip_back :: "(uchar \<Rightarrow> bool) \<Rightarrow> uchar list \<Rightarrow> nat \<Rightarrow> panic + nat" where
  "skip_back P s index =
     (if 0 < index then
        and_then (chars_next s (previous_boundary s index)) (\<lambda>next_char.
        case next_char of
          Some c \<Rightarrow> if P c then skip_back P s (previous_boundary s index) else Inr index
        | None \<Rightarrow> Inr index)
      else Inr index)"
  by auto
termination by (relation "measure (\<lambda>(P, s, index). index)") (auto simp: previous_boundary_less)

function skip_forward :: "(uchar \<Rightarrow> bool) \<Rightarrow> uchar list \<Rightarrow> nat \<Rightarrow> panic + nat" where
  "skip_forward P s index =
     (if index < utf8_len s then
        and_then (chars_next s index) (\<lambda>next_char.
        case next_char of
          Some c \<Rightarrow> if P c then skip_forward P s (index + len_utf8 c) else Inr index
        | None \<Rightarrow> Inr index)
      else Inr index)"
  by auto
termination
  by (relation "measure (\<lambda>(P, s, index). utf8_len s - index)") (auto intro!: diff_less_mono2)

declare skip_back.simps [simp del] skip_forward.simps [simp del]

definition class_at :: "(uchar \<Rightarrow> bool) \<Rightarrow> (uchar \<Rightarrow> bool) \<Rightarrow> uchar list \<Rightarrow> nat \<Rightarrow> panic + CharClass option" where
  "class_at ws alnum s offset = and_then (chars_next s offset) (\<lambda>c. Inr (map_option (char_class ws alnum) c))"

definition class_before :: "(uchar \<Rightarrow> bool) \<Rightarrow> (uchar \<Rightarrow> bool) \<Rightarrow> uchar list \<Rightarrow> nat \<Rightarrow> panic + CharClass option" where
  "class_before ws alnum s offset =
     (if offset = 0 then Inr None
      else and_then (chars_next s (previous_boundary s offset)) (\<lambda>c. Inr (map_option (char_class ws alnum) c)))"

definition word_boundary_before :: "(uchar \<Rightarrow> bool) \<Rightarrow> (uchar \<Rightarrow> bool) \<Rightarrow> uchar list \<Rightarrow> nat \<Rightarrow> panic + nat" where
  "word_boundary_before ws alnum s offset =
     and_then (skip_back (\<lambda>c. char_class ws alnum c = Space) s (floor_offset s offset)) (\<lambda>index.
     and_then (class_before ws alnum s index) (\<lambda>class.
     case class of None \<Rightarrow> Inr index | Some kind \<Rightarrow> skip_back (\<lambda>c. char_class ws alnum c = kind) s index))"

definition word_boundary_after :: "(uchar \<Rightarrow> bool) \<Rightarrow> (uchar \<Rightarrow> bool) \<Rightarrow> uchar list \<Rightarrow> nat \<Rightarrow> panic + nat" where
  "word_boundary_after ws alnum s offset =
     and_then (skip_forward (\<lambda>c. char_class ws alnum c = Space) s (floor_offset s offset)) (\<lambda>index.
     and_then (class_at ws alnum s index) (\<lambda>class.
     case class of None \<Rightarrow> Inr index | Some kind \<Rightarrow> skip_forward (\<lambda>c. char_class ws alnum c = kind) s index))"

definition word_range_at :: "(uchar \<Rightarrow> bool) \<Rightarrow> (uchar \<Rightarrow> bool) \<Rightarrow> nat \<Rightarrow> TextEdit \<Rightarrow> panic + nat \<times> nat" where
  "word_range_at ws alnum offset e =
     (let s = content e; offset = floor_boundary offset e in
      if s = [] then Inr (0, 0)
      else
        let probe = (if offset = utf8_len s then previous_boundary s offset else offset) in
        and_then (class_at ws alnum s probe) (\<lambda>class.
        case class of
          None \<Rightarrow> Inr (offset, offset)
        | Some kind \<Rightarrow>
            and_then (skip_back (\<lambda>c. char_class ws alnum c = kind) s probe) (\<lambda>start.
            and_then (skip_forward (\<lambda>c. char_class ws alnum c = kind) s probe) (\<lambda>stop. Inr (start, stop)))))"

text \<open>On a text split at the offset the loops cut characters off its two parts.\<close>

definition rtrim :: "(uchar \<Rightarrow> bool) \<Rightarrow> uchar list \<Rightarrow> uchar list" where
  "rtrim P a = rev (dropWhile P (rev a))"

lemma rtrim_snoc: "rtrim P (a @ [c]) = (if P c then rtrim P a else a @ [c])" "rtrim P [] = []"
  by (simp_all add: rtrim_def)

lemma skip_back_at: "skip_back P (a @ b) (utf8_len a) = Inr (utf8_len (rtrim P a))"
proof (induction a arbitrary: b rule: rev_induct)
  case Nil
  show ?case by (simp add: skip_back.simps rtrim_snoc)
next
  case (snoc c a)
  have "previous_boundary (a @ [c] @ b) (utf8_len (a @ [c])) = utf8_len a"
    using previous_boundary_at [of "a @ [c]" b] by simp
  moreover have "chars_next (a @ [c] @ b) (utf8_len a) = Inr (Some c)" by (simp add: chars_next_at)
  ultimately show ?case using snoc.IH [of "c # b"]
    by (subst skip_back.simps) (simp add: rtrim_snoc)
qed

lemma skip_forward_at: "skip_forward P (a @ b) (utf8_len a) = Inr (utf8_len a + utf8_len (takeWhile P b))"
proof (induction b arbitrary: a)
  case Nil
  show ?case by (simp add: skip_forward.simps)
next
  case (Cons c b)
  show ?case using Cons.IH [of "a @ [c]"] by (subst skip_forward.simps) (simp add: add.assoc)
qed

section \<open>Operations\<close>

definition text_edit_new :: "uchar list \<Rightarrow> TextEdit" where
  "text_edit_new s = \<lparr>content = s, cursor = utf8_len s, anchor = None\<rparr>"

definition collapse_empty_selection :: "TextEdit \<Rightarrow> TextEdit" where
  "collapse_empty_selection e = (if anchor e = Some (cursor e) then e\<lparr>anchor := None\<rparr> else e)"

definition set_content :: "uchar list \<Rightarrow> TextEdit \<Rightarrow> TextEdit" where
  "set_content s e =
     (let e = e\<lparr>content := s\<rparr>;
          e = e\<lparr>cursor := floor_boundary (cursor e) e\<rparr>;
          e = e\<lparr>anchor := map_option (\<lambda>a. floor_boundary a e) (anchor e)\<rparr>
      in collapse_empty_selection e)"

definition selection :: "TextEdit \<Rightarrow> nat \<times> nat" where
  "selection e =
     (case anchor e of
        Some a \<Rightarrow> if a \<le> cursor e then (a, cursor e) else (cursor e, a)
      | None \<Rightarrow> (cursor e, cursor e))"

definition has_selection :: "TextEdit \<Rightarrow> bool" where
  "has_selection e \<longleftrightarrow> anchor e \<noteq> None"

definition selection_is_reversed :: "TextEdit \<Rightarrow> bool" where
  "selection_is_reversed e = (case anchor e of None \<Rightarrow> False | Some a \<Rightarrow> cursor e < a)"

definition set_selection :: "nat \<times> nat \<Rightarrow> bool \<Rightarrow> TextEdit \<Rightarrow> TextEdit" where
  "set_selection rng reversed e =
     (let start = floor_boundary (fst rng) e;
          stop = floor_boundary (max (snd rng) (fst rng)) e
      in collapse_empty_selection
           (if reversed then e\<lparr>cursor := start, anchor := Some stop\<rparr> else e\<lparr>cursor := stop, anchor := Some start\<rparr>))"

definition set_cursor :: "nat \<Rightarrow> TextEdit \<Rightarrow> TextEdit" where
  "set_cursor offset e = e\<lparr>cursor := floor_boundary offset e, anchor := None\<rparr>"

definition select_all :: "TextEdit \<Rightarrow> TextEdit" where
  "select_all e = collapse_empty_selection (e\<lparr>anchor := Some 0, cursor := utf8_len (content e)\<rparr>)"

definition replace_text :: "nat \<times> nat \<Rightarrow> uchar list \<Rightarrow> TextEdit \<Rightarrow> panic + TextEdit" where
  "replace_text rng new e =
     (let start = floor_boundary (fst rng) e; stop = max (floor_boundary (snd rng) e) start in
      and_then (str_replace_range (content e) start stop new) (\<lambda>s.
      Inr (e\<lparr>content := s, cursor := start + utf8_len new, anchor := None\<rparr>)))"

definition insert_text :: "uchar list \<Rightarrow> TextEdit \<Rightarrow> panic + TextEdit" where
  "insert_text new e = replace_text (selection e) new e"

definition delete_range :: "nat \<times> nat \<Rightarrow> TextEdit \<Rightarrow> panic + bool \<times> TextEdit" where
  "delete_range rng e =
     (if snd rng \<le> fst rng then Inr (False, e)
      else and_then (replace_text rng [] e) (\<lambda>e. Inr (True, e)))"

definition delete_backward :: "TextEdit \<Rightarrow> panic + bool \<times> TextEdit" where
  "delete_backward e =
     (let rng = selection e in
      delete_range (if snd rng \<le> fst rng then (previous_boundary (content e) (cursor e), cursor e) else rng) e)"

definition delete_forward :: "TextEdit \<Rightarrow> panic + bool \<times> TextEdit" where
  "delete_forward e =
     (let rng = selection e in
      delete_range (if snd rng \<le> fst rng then (cursor e, next_boundary (content e) (cursor e)) else rng) e)"

definition delete_word_backward :: "(uchar \<Rightarrow> bool) \<Rightarrow> (uchar \<Rightarrow> bool) \<Rightarrow> TextEdit \<Rightarrow> panic + bool \<times> TextEdit" where
  "delete_word_backward ws alnum e =
     (let rng = selection e in
      and_then (if snd rng \<le> fst rng
                then and_then (word_boundary_before ws alnum (content e) (cursor e)) (\<lambda>i. Inr (i, cursor e))
                else Inr rng) (\<lambda>rng. delete_range rng e))"

definition motion_target :: "(uchar \<Rightarrow> bool) \<Rightarrow> (uchar \<Rightarrow> bool) \<Rightarrow> CursorMotion \<Rightarrow> TextEdit \<Rightarrow> panic + nat" where
  "motion_target ws alnum motion e =
     (case motion of
        Left \<Rightarrow> Inr (previous_boundary (content e) (cursor e))
      | Right \<Rightarrow> Inr (next_boundary (content e) (cursor e))
      | WordLeft \<Rightarrow> word_boundary_before ws alnum (content e) (cursor e)
      | WordRight \<Rightarrow> word_boundary_after ws alnum (content e) (cursor e)
      | Start \<Rightarrow> Inr 0
      | End \<Rightarrow> Inr (utf8_len (content e)))"

definition move_cursor :: "(uchar \<Rightarrow> bool) \<Rightarrow> (uchar \<Rightarrow> bool) \<Rightarrow> CursorMotion \<Rightarrow> bool \<Rightarrow> TextEdit \<Rightarrow> panic + TextEdit" where
  "move_cursor ws alnum motion extending e =
     (if \<not> extending \<and> has_selection e \<and> (motion = Left \<or> motion = WordLeft) then Inr (set_cursor (fst (selection e)) e)
      else if \<not> extending \<and> has_selection e \<and> (motion = Right \<or> motion = WordRight) then Inr (set_cursor (snd (selection e)) e)
      else and_then (motion_target ws alnum motion e) (\<lambda>target.
        Inr (if extending
             then collapse_empty_selection (e\<lparr>anchor := Some (case anchor e of None \<Rightarrow> cursor e | Some a \<Rightarrow> a), cursor := target\<rparr>)
             else set_cursor target e)))"


section \<open>The field as characters and positions\<close>

text \<open>The reference: a list of characters with a caret and a mark that count characters.\<close>

record Field =
  f_text :: "uchar list"
  f_caret :: nat
  f_mark :: "nat option"

definition field_ok :: "Field \<Rightarrow> bool" where
  "field_ok f \<longleftrightarrow> f_caret f \<le> length (f_text f) \<and> f_mark f \<noteq> Some (f_caret f) \<and>
     (case f_mark f of None \<Rightarrow> True | Some m \<Rightarrow> m \<le> length (f_text f))"

definition bytes_before :: "uchar list \<Rightarrow> nat \<Rightarrow> nat" where
  "bytes_before s i = utf8_len (take i s)"

definition chars_before :: "uchar list \<Rightarrow> nat \<Rightarrow> nat" where
  "chars_before s offset = (case split_bytes s (floor_offset s offset) of None \<Rightarrow> 0 | Some (front, _) \<Rightarrow> length front)"

definition concrete :: "Field \<Rightarrow> TextEdit" where
  "concrete f = \<lparr>content = f_text f, cursor = bytes_before (f_text f) (f_caret f),
     anchor = map_option (bytes_before (f_text f)) (f_mark f)\<rparr>"

definition f_selection :: "Field \<Rightarrow> nat \<times> nat" where
  "f_selection f = (case f_mark f of None \<Rightarrow> (f_caret f, f_caret f) | Some m \<Rightarrow> (min m (f_caret f), max m (f_caret f)))"

definition f_replace :: "nat \<Rightarrow> nat \<Rightarrow> uchar list \<Rightarrow> Field \<Rightarrow> Field" where
  "f_replace i j new f =
     \<lparr>f_text = take i (f_text f) @ new @ drop j (f_text f), f_caret = i + length new, f_mark = None\<rparr>"

definition f_select :: "nat \<Rightarrow> nat \<Rightarrow> Field \<Rightarrow> Field" where
  "f_select m c f = f\<lparr>f_caret := c, f_mark := (if m = c then None else Some m)\<rparr>"

definition word_left :: "(uchar \<Rightarrow> bool) \<Rightarrow> (uchar \<Rightarrow> bool) \<Rightarrow> uchar list \<Rightarrow> nat \<Rightarrow> nat" where
  "word_left ws alnum s p =
     (let a = rtrim (\<lambda>c. char_class ws alnum c = Space) (take p s) in
      if a = [] then 0 else length (rtrim (\<lambda>c. char_class ws alnum c = char_class ws alnum (last a)) a))"

definition word_right :: "(uchar \<Rightarrow> bool) \<Rightarrow> (uchar \<Rightarrow> bool) \<Rightarrow> uchar list \<Rightarrow> nat \<Rightarrow> nat" where
  "word_right ws alnum s p =
     (let q = p + length (takeWhile (\<lambda>c. char_class ws alnum c = Space) (drop p s)) in
      if q < length s
      then q + length (takeWhile (\<lambda>c. char_class ws alnum c = char_class ws alnum (s ! q)) (drop q s)) else q)"

definition f_target :: "(uchar \<Rightarrow> bool) \<Rightarrow> (uchar \<Rightarrow> bool) \<Rightarrow> CursorMotion \<Rightarrow> Field \<Rightarrow> nat" where
  "f_target ws alnum motion f =
     (case motion of
        Left \<Rightarrow> f_caret f - 1
      | Right \<Rightarrow> min (f_caret f + 1) (length (f_text f))
      | WordLeft \<Rightarrow> word_left ws alnum (f_text f) (f_caret f)
      | WordRight \<Rightarrow> word_right ws alnum (f_text f) (f_caret f)
      | Start \<Rightarrow> 0
      | End \<Rightarrow> length (f_text f))"

definition f_delete :: "nat \<times> nat \<Rightarrow> Field \<Rightarrow> Field" where
  "f_delete r f = (if fst r < snd r then f_replace (fst r) (snd r) [] f else f)"

lemma bytes_before_le_iff [simp]:
  "i \<le> length s \<Longrightarrow> j \<le> length s \<Longrightarrow> bytes_before s i \<le> bytes_before s j \<longleftrightarrow> i \<le> j"
proof -
  have less: "utf8_len (take i s) < utf8_len (take j s)" if "i < j" "j \<le> length s" for i j
  proof -
    have "take j s = take i s @ take (j - i) (drop i s)" using that by (metis le_add_diff_inverse less_imp_le take_add)
    moreover have "take (j - i) (drop i s) \<noteq> []" using that by simp
    ultimately show ?thesis by (simp del: take_eq_Nil)
  qed
  show "i \<le> length s \<Longrightarrow> j \<le> length s \<Longrightarrow> bytes_before s i \<le> bytes_before s j \<longleftrightarrow> i \<le> j"
    using less [of i j] less [of j i] unfolding bytes_before_def by (metis le_less not_less)
qed

lemma bytes_before_eq_iff [simp]:
  "i \<le> length s \<Longrightarrow> j \<le> length s \<Longrightarrow> bytes_before s i = bytes_before s j \<longleftrightarrow> i = j"
  by (metis bytes_before_le_iff le_antisym order_refl)

lemma bytes_before_less_iff [simp]:
  "i \<le> length s \<Longrightarrow> j \<le> length s \<Longrightarrow> bytes_before s i < bytes_before s j \<longleftrightarrow> i < j"
  by (metis bytes_before_le_iff not_less)

lemma boundary_bytes_before [simp]: "is_char_boundary s (bytes_before s i)"
  using boundary_append [of "take i s" "drop i s"] by (simp add: bytes_before_def)

lemma bytes_before_simps [simp]: "bytes_before s 0 = 0" "bytes_before s (length s) = utf8_len s"
  by (simp_all add: bytes_before_def)

lemma floor_chars_before: "floor_offset s i = bytes_before s (chars_before s i)" "chars_before s i \<le> length s"
proof -
  obtain a b where ab: "s = a @ b" "floor_offset s i = utf8_len a" by (rule boundaryE [OF floor_offset_boundary])
  then have "split_bytes s (floor_offset s i) = Some (a, b)" by (metis split_bytes_append)
  then show "floor_offset s i = bytes_before s (chars_before s i)" "chars_before s i \<le> length s"
    using ab by (simp_all add: chars_before_def bytes_before_def)
qed

lemma previous_boundary_chars: "i \<le> length s \<Longrightarrow> previous_boundary s (bytes_before s i) = bytes_before s (i - 1)"
  using previous_boundary_at [of "take i s" "drop i s"] by (simp add: bytes_before_def butlast_take)

lemma next_boundary_chars: "i \<le> length s \<Longrightarrow> next_boundary s (bytes_before s i) = bytes_before s (min (i + 1) (length s))"
  using next_boundary_at [of "take i s" "drop i s"] unfolding bytes_before_def append_take_drop_id
  by (simp add: take_add min_def not_le flip: utf8_len_simps(3)) (metis One_nat_def add.commute le_antisym not_less_eq_eq plus_1_eq_Suc take_add take_all)

lemma chars_next_chars:
  "i \<le> length s \<Longrightarrow> chars_next s (bytes_before s i) = Inr (if i < length s then Some (s ! i) else None)"
  using chars_next_at [of "take i s" "drop i s"] unfolding bytes_before_def append_take_drop_id
  by (cases "i < length s") (simp_all add: Cons_nth_drop_Suc [symmetric])

lemma rtrim_prefix: "rtrim P a = take (length (rtrim P a)) a" "length (rtrim P a) \<le> length a"
proof -
  have "a = rtrim P a @ rev (takeWhile P (rev a))"
    by (metis rev_append rev_rev_ident rtrim_def takeWhile_dropWhile_id)
  then show "rtrim P a = take (length (rtrim P a)) a" "length (rtrim P a) \<le> length a"
    by (metis append_eq_conv_conj, metis le_add1 length_append)
qed

lemma rtrim_take: "rtrim P (take p s) = take (length (rtrim P (take p s))) s" "length (rtrim P (take p s)) \<le> min p (length s)"
proof -
  have le: "length (rtrim P (take p s)) \<le> min p (length s)" using rtrim_prefix(2) [of P "take p s"] by simp
  have "rtrim P (take p s) = take (length (rtrim P (take p s))) (take p s)" by (rule rtrim_prefix(1))
  also have "\<dots> = take (length (rtrim P (take p s))) s" using le by (simp add: min_absorb1)
  finally show "rtrim P (take p s) = take (length (rtrim P (take p s))) s" .
  show "length (rtrim P (take p s)) \<le> min p (length s)" by (rule le)
qed

lemma skip_back_chars:
  "i \<le> length s \<Longrightarrow> skip_back P s (bytes_before s i) = Inr (bytes_before s (length (rtrim P (take i s))))"
  using skip_back_at [of P "take i s" "drop i s"] unfolding bytes_before_def append_take_drop_id
  by (simp only: rtrim_take(1) [symmetric])

lemma skip_forward_chars:
  "i \<le> length s \<Longrightarrow> skip_forward P s (bytes_before s i) = Inr (bytes_before s (i + length (takeWhile P (drop i s))))"
  using skip_forward_at [of P "take i s" "drop i s"]
  unfolding bytes_before_def append_take_drop_id by (simp add: take_add takeWhile_eq_take [symmetric])

lemma word_left_le: "word_left ws alnum s p \<le> p" "word_left ws alnum s p \<le> length s"
proof -
  let ?a = "rtrim (\<lambda>c. char_class ws alnum c = Space) (take p s)"
  have "word_left ws alnum s p \<le> length ?a" using rtrim_prefix(2) by (simp add: word_left_def Let_def)
  also have "\<dots> \<le> length (take p s)" by (rule rtrim_prefix)
  finally show "word_left ws alnum s p \<le> p" "word_left ws alnum s p \<le> length s" by simp_all
qed

lemma word_boundary_before_chars:
  assumes "p \<le> length s"
  shows "word_boundary_before ws alnum s (bytes_before s p) = Inr (bytes_before s (word_left ws alnum s p))"
proof -
  define q where "q = length (rtrim (\<lambda>c. char_class ws alnum c = Space) (take p s))"
  have len: "q \<le> length s" using rtrim_take(2) [of _ p s] by (simp add: q_def)
  have a: "rtrim (\<lambda>c. char_class ws alnum c = Space) (take p s) = take q s" unfolding q_def by (rule rtrim_take)
  have left: "word_left ws alnum s p =
      (if q = 0 then 0 else length (rtrim (\<lambda>c. char_class ws alnum c = char_class ws alnum (s ! (q - 1))) (take q s)))"
    using len by (auto simp: word_left_def a Let_def last_conv_nth min_absorb2)
  have skip: "skip_back (\<lambda>c. char_class ws alnum c = Space) s (bytes_before s p) = Inr (bytes_before s q)"
    using assms by (simp add: skip_back_chars q_def)
  show ?thesis
  proof (cases "q = 0")
    case True
    then show ?thesis by (simp add: word_boundary_before_def skip class_before_def left)
  next
    case False
    then have "bytes_before s q \<noteq> 0" using bytes_before_eq_iff [of q s 0] len by simp
    then have "class_before ws alnum s (bytes_before s q) = Inr (Some (char_class ws alnum (s ! (q - 1))))"
      using False len by (simp add: class_before_def previous_boundary_chars chars_next_chars)
    then show ?thesis using False len by (simp add: word_boundary_before_def skip skip_back_chars left)
  qed
qed

lemma word_right_le: "p \<le> length s \<Longrightarrow> word_right ws alnum s p \<le> length s"
proof -
  assume p: "p \<le> length s"
  let ?q = "p + length (takeWhile (\<lambda>c. char_class ws alnum c = Space) (drop p s))"
  have "?q \<le> length s" using p length_takeWhile_le [of "\<lambda>c. char_class ws alnum c = Space" "drop p s"] by simp
  moreover have "?q + length (takeWhile P (drop ?q s)) \<le> length s" for P
    using calculation length_takeWhile_le [of P "drop ?q s"] by simp
  ultimately show ?thesis by (simp only: word_right_def Let_def split: if_split) blast
qed

lemma word_boundary_after_chars:
  assumes "p \<le> length s"
  shows "word_boundary_after ws alnum s (bytes_before s p) = Inr (bytes_before s (word_right ws alnum s p))"
proof -
  let ?q = "p + length (takeWhile (\<lambda>c. char_class ws alnum c = Space) (drop p s))"
  have "?q \<le> length s" using assms length_takeWhile_le [of "\<lambda>c. char_class ws alnum c = Space" "drop p s"] by simp
  then show ?thesis using assms
    by (simp add: word_boundary_after_def skip_forward_chars class_at_def chars_next_chars word_right_def Let_def)
qed

section \<open>The operations on characters\<close>

datatype text_op =
    SetContent "uchar list" | SetSelection "nat \<times> nat" bool | SetCursor nat | SelectAll
  | Replace "nat \<times> nat" "uchar list" | Insert "uchar list" | DeleteBackward | DeleteForward | DeleteWordBackward
  | Move CursorMotion bool

fun text_step :: "(uchar \<Rightarrow> bool) \<Rightarrow> (uchar \<Rightarrow> bool) \<Rightarrow> text_op \<Rightarrow> TextEdit \<Rightarrow> panic + bool \<times> TextEdit" where
  "text_step ws alnum (SetContent s) e = Inr (True, set_content s e)"
| "text_step ws alnum (SetSelection rng reversed) e = Inr (True, set_selection rng reversed e)"
| "text_step ws alnum (SetCursor offset) e = Inr (True, set_cursor offset e)"
| "text_step ws alnum SelectAll e = Inr (True, select_all e)"
| "text_step ws alnum (Replace rng new) e = and_then (replace_text rng new e) (\<lambda>e. Inr (True, e))"
| "text_step ws alnum (Insert new) e = and_then (insert_text new e) (\<lambda>e. Inr (True, e))"
| "text_step ws alnum DeleteBackward e = delete_backward e"
| "text_step ws alnum DeleteForward e = delete_forward e"
| "text_step ws alnum DeleteWordBackward e = delete_word_backward ws alnum e"
| "text_step ws alnum (Move motion extending) e = and_then (move_cursor ws alnum motion extending e) (\<lambda>e. Inr (True, e))"

definition f_delete_from :: "nat \<times> nat \<Rightarrow> Field \<Rightarrow> bool \<times> Field" where
  "f_delete_from otherwise f =
     (let r = (if f_mark f = None then otherwise else f_selection f) in (fst r < snd r, f_delete r f))"

definition f_move :: "(uchar \<Rightarrow> bool) \<Rightarrow> (uchar \<Rightarrow> bool) \<Rightarrow> CursorMotion \<Rightarrow> bool \<Rightarrow> Field \<Rightarrow> Field" where
  "f_move ws alnum motion extending f =
     (let target = f_target ws alnum motion f in
      if extending then f_select (case f_mark f of None \<Rightarrow> f_caret f | Some m \<Rightarrow> m) target f
      else if f_mark f \<noteq> None \<and> (motion = Left \<or> motion = WordLeft) then f\<lparr>f_caret := fst (f_selection f), f_mark := None\<rparr>
      else if f_mark f \<noteq> None \<and> (motion = Right \<or> motion = WordRight) then f\<lparr>f_caret := snd (f_selection f), f_mark := None\<rparr>
      else f\<lparr>f_caret := target, f_mark := None\<rparr>)"

fun field_step :: "(uchar \<Rightarrow> bool) \<Rightarrow> (uchar \<Rightarrow> bool) \<Rightarrow> text_op \<Rightarrow> Field \<Rightarrow> bool \<times> Field" where
  "field_step ws alnum (SetContent s) f =
     (let at = \<lambda>i. chars_before s (bytes_before (f_text f) i) in
      (True, case f_mark f of
               None \<Rightarrow> \<lparr>f_text = s, f_caret = at (f_caret f), f_mark = None\<rparr>
             | Some m \<Rightarrow> f_select (at m) (at (f_caret f)) \<lparr>f_text = s, f_caret = 0, f_mark = None\<rparr>))"
| "field_step ws alnum (SetSelection rng reversed) f =
     (let start = chars_before (f_text f) (fst rng); stop = chars_before (f_text f) (max (snd rng) (fst rng)) in
      (True, if reversed then f_select stop start f else f_select start stop f))"
| "field_step ws alnum (SetCursor offset) f = (True, f\<lparr>f_caret := chars_before (f_text f) offset, f_mark := None\<rparr>)"
| "field_step ws alnum SelectAll f = (True, f_select 0 (length (f_text f)) f)"
| "field_step ws alnum (Replace rng new) f =
     (let start = chars_before (f_text f) (fst rng) in
      (True, f_replace start (max (chars_before (f_text f) (snd rng)) start) new f))"
| "field_step ws alnum (Insert new) f = (True, f_replace (fst (f_selection f)) (snd (f_selection f)) new f)"
| "field_step ws alnum DeleteBackward f = f_delete_from (f_caret f - 1, f_caret f) f"
| "field_step ws alnum DeleteForward f = f_delete_from (f_caret f, min (f_caret f + 1) (length (f_text f))) f"
| "field_step ws alnum DeleteWordBackward f = f_delete_from (word_left ws alnum (f_text f) (f_caret f), f_caret f) f"
| "field_step ws alnum (Move motion extending) f = (True, f_move ws alnum motion extending f)"

lemma concrete_simps [simp]:
  "content (concrete f) = f_text f" "cursor (concrete f) = bytes_before (f_text f) (f_caret f)"
  "anchor (concrete f) = map_option (bytes_before (f_text f)) (f_mark f)"
  by (simp_all add: concrete_def)

lemma f_selection_le: "field_ok f \<Longrightarrow> fst (f_selection f) \<le> snd (f_selection f) \<and> snd (f_selection f) \<le> length (f_text f)"
  by (auto simp: field_ok_def f_selection_def split: option.splits)

lemma f_selection_mark: "field_ok f \<Longrightarrow> fst (f_selection f) < snd (f_selection f) \<longleftrightarrow> f_mark f \<noteq> None"
  by (auto simp: field_ok_def f_selection_def split: option.splits)

lemma selection_concrete:
  "field_ok f \<Longrightarrow> selection (concrete f) =
     (bytes_before (f_text f) (fst (f_selection f)), bytes_before (f_text f) (snd (f_selection f)))"
  by (auto simp: field_ok_def f_selection_def selection_def min_def max_def split: option.splits)

lemma floor_concrete [simp]:
  "floor_boundary offset (concrete f) = bytes_before (f_text f) (chars_before (f_text f) offset)"
  by (simp add: floor_boundary_def floor_chars_before)

lemma chars_bytes [simp]: "i \<le> length s \<Longrightarrow> chars_before s (bytes_before s i) = i"
  using floor_chars_before [of s "bytes_before s i"] by simp

lemma chars_before_mono: "i \<le> j \<Longrightarrow> chars_before s i \<le> chars_before s j"
  using floor_offset_mono [of i j s] floor_chars_before [of s] by (metis bytes_before_le_iff)

lemma replace_concrete:
  assumes "i \<le> j" "j \<le> length (f_text f)"
  shows "and_then (str_replace_range (f_text f) (bytes_before (f_text f) i) (bytes_before (f_text f) j) new) (\<lambda>s.
      Inr ((concrete f)\<lparr>content := s, cursor := bytes_before (f_text f) i + utf8_len new, anchor := None\<rparr>)) =
    Inr (concrete (f_replace i j new f))"
proof -
  let ?s = "f_text f"
  have s: "?s = take i ?s @ take (j - i) (drop i ?s) @ drop j ?s"
    using assms by (metis append.assoc append_take_drop_id le_add_diff_inverse take_add)
  have "bytes_before ?s j = utf8_len (take i ?s) + utf8_len (take (j - i) (drop i ?s))"
    unfolding bytes_before_def using assms by (metis le_add_diff_inverse take_add utf8_len_simps(3))
  then have "str_replace_range ?s (bytes_before ?s i) (bytes_before ?s j) new = Inr (take i ?s @ new @ drop j ?s)"
    using str_replace_range_ok [of "take i ?s" "take (j - i) (drop i ?s)" "drop j ?s" new] s
    by (simp add: bytes_before_def)
  then show ?thesis using assms by (simp add: f_replace_def concrete_def bytes_before_def)
qed

lemma max_bytes_before:
  "i \<le> length s \<Longrightarrow> j \<le> length s \<Longrightarrow> max (bytes_before s i) (bytes_before s j) = bytes_before s (max i j)"
  by (simp add: max_def)

lemma replace_text_concrete:
  "replace_text rng new (concrete f) =
     (let start = chars_before (f_text f) (fst rng) in
      Inr (concrete (f_replace start (max (chars_before (f_text f) (snd rng)) start) new f)))"
  using replace_concrete [of "chars_before (f_text f) (fst rng)"
      "max (chars_before (f_text f) (snd rng)) (chars_before (f_text f) (fst rng))" f new]
  by (simp add: replace_text_def Let_def max_bytes_before floor_chars_before)

lemma delete_concrete:
  "i \<le> length (f_text f) \<Longrightarrow> j \<le> length (f_text f) \<Longrightarrow>
   delete_range (bytes_before (f_text f) i, bytes_before (f_text f) j) (concrete f) = Inr (i < j, concrete (f_delete (i, j) f))"
  by (auto simp: delete_range_def f_delete_def replace_text_concrete Let_def not_le max_def)

lemma collapse_concrete:
  assumes "m \<le> length (f_text f)" "c \<le> length (f_text f)"
  shows "collapse_empty_selection \<lparr>content = f_text f, cursor = bytes_before (f_text f) c, anchor = Some (bytes_before (f_text f) m)\<rparr>
    = concrete (f_select m c f)"
  using assms by (auto simp: collapse_empty_selection_def f_select_def concrete_def)

lemma concrete_update:
  "(concrete f)\<lparr>cursor := bytes_before (f_text f) c, anchor := Some (bytes_before (f_text f) m)\<rparr> =
     \<lparr>content = f_text f, cursor = bytes_before (f_text f) c, anchor = Some (bytes_before (f_text f) m)\<rparr>"
  "(concrete f)\<lparr>cursor := bytes_before (f_text f) c, anchor := None\<rparr> = concrete (f\<lparr>f_caret := c, f_mark := None\<rparr>)"
  by (simp_all add: concrete_def)

lemma f_target_le: "field_ok f \<Longrightarrow> f_target ws alnum motion f \<le> length (f_text f)"
  by (cases motion) (auto simp: f_target_def field_ok_def word_left_le word_right_le)

lemma motion_target_concrete:
  "field_ok f \<Longrightarrow> motion_target ws alnum motion (concrete f) = Inr (bytes_before (f_text f) (f_target ws alnum motion f))"
  by (cases motion) (auto simp: motion_target_def f_target_def field_ok_def previous_boundary_chars next_boundary_chars
      word_boundary_before_chars word_boundary_after_chars)

lemma move_concrete:
  assumes "field_ok f"
  shows "move_cursor ws alnum motion extending (concrete f) = Inr (concrete (f_move ws alnum motion extending f))"
proof -
  let ?t = "f_target ws alnum motion f"
  have t: "?t \<le> length (f_text f)" by (rule f_target_le [OF assms])
  have c: "f_caret f \<le> length (f_text f)" using assms by (simp add: field_ok_def)
  have m: "m \<le> length (f_text f)" if "f_mark f = Some m" for m using assms that by (simp add: field_ok_def)
  have extend: "collapse_empty_selection ((concrete f)\<lparr>anchor := Some (case anchor (concrete f) of None \<Rightarrow> cursor (concrete f) | Some a \<Rightarrow> a),
      cursor := bytes_before (f_text f) ?t\<rparr>) = concrete (f_select (case f_mark f of None \<Rightarrow> f_caret f | Some m \<Rightarrow> m) ?t f)"
    using collapse_concrete [OF _ t, of "case f_mark f of None \<Rightarrow> f_caret f | Some m \<Rightarrow> m"] c m
    by (cases "f_mark f") (simp_all add: concrete_def)
  have set: "i \<le> length (f_text f) \<Longrightarrow> set_cursor (bytes_before (f_text f) i) (concrete f) = concrete (f\<lparr>f_caret := i, f_mark := None\<rparr>)" for i
    by (simp add: set_cursor_def concrete_update)
  have sel: "fst (f_selection f) \<le> length (f_text f)" "snd (f_selection f) \<le> length (f_text f)"
    using f_selection_le [OF assms] by auto
  have has: "has_selection (concrete f) \<longleftrightarrow> f_mark f \<noteq> None" by (simp add: has_selection_def)
  show ?thesis
    using extend set [OF t] set [OF sel(1)] set [OF sel(2)]
    by (simp add: move_cursor_def f_move_def motion_target_concrete [OF assms] selection_concrete [OF assms] has Let_def
        del: concrete_simps)
qed

lemma field_ok_select: "m \<le> length (f_text f) \<Longrightarrow> c \<le> length (f_text f) \<Longrightarrow> field_ok (f_select m c f)"
  by (simp add: field_ok_def f_select_def)

lemma field_ok_replace: "i \<le> length (f_text f) \<Longrightarrow> field_ok (f_replace i j new f)"
  by (simp add: field_ok_def f_replace_def)

lemma field_ok_caret: "c \<le> length (f_text f) \<Longrightarrow> field_ok (f\<lparr>f_caret := c, f_mark := None\<rparr>)"
  by (simp add: field_ok_def)

lemma field_ok_delete_from:
  "field_ok f \<Longrightarrow> fst r \<le> length (f_text f) \<Longrightarrow> field_ok (snd (f_delete_from r f))"
  using f_selection_le [of f] by (auto simp: f_delete_from_def f_delete_def Let_def intro!: field_ok_replace)

lemma delete_from_concrete:
  assumes "field_ok f" "i \<le> length (f_text f)" "j \<le> length (f_text f)"
  shows "delete_range (if snd (selection (concrete f)) \<le> fst (selection (concrete f))
      then (bytes_before (f_text f) i, bytes_before (f_text f) j) else selection (concrete f)) (concrete f) =
    Inr (fst (f_delete_from (i, j) f), concrete (snd (f_delete_from (i, j) f)))"
proof -
  have "snd (selection (concrete f)) \<le> fst (selection (concrete f)) \<longleftrightarrow> f_mark f = None"
    using f_selection_mark [OF assms(1)] f_selection_le [OF assms(1)] by (auto simp: selection_concrete [OF assms(1)])
  then show ?thesis
    using f_selection_le [OF assms(1)] delete_concrete assms
    by (auto simp: selection_concrete [OF assms(1)] f_delete_from_def Let_def)
qed

lemma field_ok_move: assumes "field_ok f" shows "field_ok (f_move ws alnum motion extending f)"
proof -
  have sel: "fst (f_selection f) \<le> length (f_text f)" "snd (f_selection f) \<le> length (f_text f)"
    using f_selection_le [OF assms] by auto
  have "(case f_mark f of None \<Rightarrow> f_caret f | Some m \<Rightarrow> m) \<le> length (f_text f)"
    using assms by (simp add: field_ok_def split: option.splits)
  then show ?thesis using f_target_le [OF assms, of ws alnum motion] sel
    by (simp add: f_move_def Let_def field_ok_select field_ok_caret)
qed

lemma text_step_refines:
  assumes "field_ok f"
  shows "text_step ws alnum op (concrete f) =
      Inr (fst (field_step ws alnum op f), concrete (snd (field_step ws alnum op f))) \<and>
    field_ok (snd (field_step ws alnum op f))"
proof -
  have caret: "f_caret f \<le> length (f_text f)" using assms by (simp add: field_ok_def)
  show ?thesis
  proof (cases op)
  case (SetContent s)
  let ?at = "\<lambda>i. chars_before s (bytes_before (f_text f) i)"
  have le: "?at i \<le> length s" for i by (rule floor_chars_before)
  have "floor_offset s (bytes_before (f_text f) i) = bytes_before s (?at i)" for i by (rule floor_chars_before)
  then show ?thesis
    using SetContent le
    by (cases "f_mark f") (simp_all add: set_content_def floor_boundary_def Let_def collapse_empty_selection_def concrete_def
        field_ok_def f_select_def)
next
  case (SetSelection rng reversed)
  then show ?thesis
    by (simp add: set_selection_def Let_def concrete_update collapse_concrete floor_chars_before field_ok_select)
next
  case (SetCursor offset)
  then show ?thesis by (simp add: set_cursor_def concrete_update floor_chars_before field_ok_caret)
next
  case SelectAll
  then show ?thesis
    using collapse_concrete [of 0 f "length (f_text f)"] by (simp add: select_all_def field_ok_select) (simp add: concrete_def)
next
  case (Replace rng new)
  then show ?thesis by (simp add: replace_text_concrete Let_def field_ok_replace floor_chars_before)
next
  case (Insert new)
  have "max (snd (f_selection f)) (fst (f_selection f)) = snd (f_selection f)" "fst (f_selection f) \<le> length (f_text f)"
    using f_selection_le [OF assms] by auto
  then show ?thesis using Insert f_selection_le [OF assms]
    by (simp add: insert_text_def replace_text_concrete selection_concrete [OF assms] Let_def field_ok_replace)
next
  case DeleteBackward
  have "f_caret f - 1 \<le> length (f_text f)" using caret by simp
  then show ?thesis
    using delete_from_concrete [OF assms _ caret, of "f_caret f - 1"] field_ok_delete_from [OF assms, of "(f_caret f - 1, f_caret f)"]
    unfolding DeleteBackward text_step.simps field_step.simps delete_backward_def Let_def concrete_simps
      previous_boundary_chars [OF caret] by (simp split del: if_split)
next
  case DeleteForward
  show ?thesis
    using delete_from_concrete [OF assms caret, of "min (f_caret f + 1) (length (f_text f))"] caret
      field_ok_delete_from [OF assms, of "(f_caret f, min (f_caret f + 1) (length (f_text f)))"]
    unfolding DeleteForward text_step.simps field_step.simps delete_forward_def Let_def concrete_simps
      next_boundary_chars [OF caret] by (simp split del: if_split)
next
  case DeleteWordBackward
  let ?w = "word_left ws alnum (f_text f) (f_caret f)"
  have w: "?w \<le> length (f_text f)" by (rule word_left_le)
  have "delete_word_backward ws alnum (concrete f) = delete_range (if snd (selection (concrete f)) \<le> fst (selection (concrete f))
      then (bytes_before (f_text f) ?w, bytes_before (f_text f) (f_caret f)) else selection (concrete f)) (concrete f)"
    by (simp add: delete_word_backward_def Let_def word_boundary_before_chars [OF caret])
  then show ?thesis
    using DeleteWordBackward delete_from_concrete [OF assms w caret] w field_ok_delete_from [OF assms, of "(?w, f_caret f)"]
    by (simp split del: if_split)
next
  case (Move motion extending)
  then show ?thesis by (simp add: move_concrete [OF assms] field_ok_move [OF assms])
  qed
qed

text \<open>A double click in a text that is not empty selects the longest run of characters of one class around
  the character under the pointer, or around the last one when the pointer is behind the text.\<close>

lemma word_range_at_chars:
  assumes "f_text f \<noteq> []"
    and p_def: "p = min (chars_before (f_text f) offset) (length (f_text f) - 1)"
  shows "word_range_at ws alnum offset (concrete f) =
    (let same = (\<lambda>c. char_class ws alnum c = char_class ws alnum (f_text f ! p)) in
     Inr (bytes_before (f_text f) (length (rtrim same (take p (f_text f)))),
          bytes_before (f_text f) (p + length (takeWhile same (drop p (f_text f))))))"
proof -
  let ?s = "f_text f" and ?o = "chars_before (f_text f) offset"
  have o: "?o \<le> length ?s" by (rule floor_chars_before)
  have "bytes_before ?s ?o = utf8_len ?s \<longleftrightarrow> ?o = length ?s"
    using bytes_before_eq_iff [OF o order_refl] by simp
  then have probe: "(if bytes_before ?s ?o = utf8_len ?s then previous_boundary ?s (bytes_before ?s ?o) else bytes_before ?s ?o) =
      bytes_before ?s p"
    using o assms(1) unfolding previous_boundary_chars [OF o] by (cases "?o = length ?s") (simp_all add: p_def)
  have "p < length ?s" using assms(1) by (simp add: p_def min_less_iff_disj)
  then show ?thesis using assms(1)
    by (simp add: word_range_at_def Let_def probe class_at_def chars_next_chars skip_back_chars skip_forward_chars
        del: if_split)
qed


section \<open>Properties\<close>

fun text_run :: "(uchar \<Rightarrow> bool) \<Rightarrow> (uchar \<Rightarrow> bool) \<Rightarrow> text_op list \<Rightarrow> TextEdit \<Rightarrow> panic + bool list \<times> TextEdit" where
  "text_run ws alnum [] e = Inr ([], e)"
| "text_run ws alnum (op # ops) e =
     and_then (text_step ws alnum op e) (\<lambda>(r, e). and_then (text_run ws alnum ops e) (\<lambda>(rs, e). Inr (r # rs, e)))"

fun field_run :: "(uchar \<Rightarrow> bool) \<Rightarrow> (uchar \<Rightarrow> bool) \<Rightarrow> text_op list \<Rightarrow> Field \<Rightarrow> bool list \<times> Field" where
  "field_run ws alnum [] f = ([], f)"
| "field_run ws alnum (op # ops) f =
     (let (r, f) = field_step ws alnum op f; (rs, f) = field_run ws alnum ops f in (r # rs, f))"

lemma text_run_refines:
  "field_ok f \<Longrightarrow> text_run ws alnum ops (concrete f) =
      Inr (fst (field_run ws alnum ops f), concrete (snd (field_run ws alnum ops f))) \<and>
    field_ok (snd (field_run ws alnum ops f))"
proof (induction ops arbitrary: f)
  case (Cons op ops)
  then show ?case using text_step_refines [OF Cons.prems, of ws alnum op] by (simp add: case_prod_beta Let_def)
qed simp

text \<open>C11. The text field. Every sequence of operations on a new field, with any byte offsets from hit
  testing or an input method, runs without a panic and gives the results and the final state of the reference
  that edits a list of characters with a caret and a mark counting characters: the caret and
  the fixed end of the selection stay between characters and inside the text, and a selection is
  never empty.\<close>

theorem text_edit_refines:
  "(let (rs, f) = field_run ws alnum ops \<lparr>f_text = s, f_caret = length s, f_mark = None\<rparr> in
    text_run ws alnum ops (text_edit_new s) = Inr (rs, concrete f) \<and> field_ok f)"
proof -
  have "concrete \<lparr>f_text = s, f_caret = length s, f_mark = None\<rparr> = text_edit_new s"
    by (simp add: concrete_def text_edit_new_def)
  then show ?thesis
    using text_run_refines [of "\<lparr>f_text = s, f_caret = length s, f_mark = None\<rparr>" ws alnum ops]
    by (simp add: field_ok_def case_prod_beta Let_def)
qed

end
