(* ===== verification/Output_Store.thy ===== *)
theory Output_Store
  imports Prelude Cells Text_Offsets
begin

text \<open>
  The store for long command outputs (\<open>capabilities/output_store.rs\<close> of the core crate): an output
  over the inline limit is kept, up to a limit per entry and one for the whole store, and read back in
  chunks. The bytes of an entry are the UTF-8 form of a text and are kept as that text; the hash map is a list of
  entries, the clock is the argument \<open>now\<close> and the fresh identifier an argument of \<open>protect\<close>.
\<close>


section \<open>The store\<close>

record OutputStoreConfig =
  entry_limit :: nat
  total_limit :: nat
  ttl :: nat
  max_chunk_bytes :: nat

definition config_default :: OutputStoreConfig where
  "config_default = \<lparr>entry_limit = 4 * 1024 * 1024, total_limit = 16 * 1024 * 1024, ttl = 600, max_chunk_bytes = 64 * 1024\<rparr>"

record Entry =
  en_text :: "uchar list"
  en_total_bytes :: nat
  en_created :: nat

record OutputStore =
  st_entries :: "(string \<times> Entry) list"
  st_lru :: "string list"
  st_bytes :: nat
  st_config :: OutputStoreConfig

record ProtectedOutput =
  preview :: "uchar list"
  truncated :: bool
  output_id :: "string option"
  total_bytes :: nat
  source_truncated :: bool

record OutputChunk =
  chunk_data :: "uchar list"
  chunk_offset :: nat
  next_offset :: nat
  chunk_total_bytes :: nat
  eof :: bool

datatype OutputStoreError = Unavailable | InvalidOffset

definition store_new :: "OutputStoreConfig \<Rightarrow> OutputStore" where
  "store_new config = \<lparr>st_entries = [], st_lru = [], st_bytes = 0, st_config =
     \<lparr>entry_limit = max (entry_limit config) 1, total_limit = max (total_limit config) 1, ttl = ttl config,
      max_chunk_bytes = max (max_chunk_bytes config) 1\<rparr>\<rparr>"

definition boundary_at_or_before :: "uchar list \<Rightarrow> nat \<Rightarrow> nat" where
  "boundary_at_or_before s i = floor_offset s i"

text \<open>The text of the bytes before a boundary.\<close>

definition front_of :: "uchar list \<Rightarrow> nat \<Rightarrow> panic + uchar list" where
  "front_of s i = str_slice s 0 i"

definition store_remove :: "string \<Rightarrow> OutputStore \<Rightarrow> OutputStore" where
  "store_remove k st =
     (let st = (case map_of (st_entries st) k of
                  None \<Rightarrow> st
                | Some entry \<Rightarrow> st\<lparr>st_entries := filter (\<lambda>(k', _). k' \<noteq> k) (st_entries st),
                                 st_bytes := st_bytes st - utf8_len (en_text entry)\<rparr>)
      in st\<lparr>st_lru := filter (\<lambda>k'. k' \<noteq> k) (st_lru st)\<rparr>)"

definition expired :: "nat \<Rightarrow> OutputStore \<Rightarrow> string list" where
  "expired now st = map fst (filter (\<lambda>(k, entry). ttl (st_config st) \<le> now - en_created entry) (st_entries st))"

definition cleanup :: "nat \<Rightarrow> OutputStore \<Rightarrow> OutputStore" where
  "cleanup now st =
     (let st = fold store_remove (expired now st) st in
      st\<lparr>st_lru := filter (\<lambda>k. map_of (st_entries st) k \<noteq> None) (st_lru st)\<rparr>)"

function evict_loop :: "nat \<Rightarrow> OutputStore \<Rightarrow> OutputStore" where
  "evict_loop n st =
     (if total_limit (st_config st) < saturating_add (st_bytes st) n then
        case st_lru st of
          [] \<Rightarrow> st
        | oldest # rest \<Rightarrow> evict_loop n (store_remove oldest (st\<lparr>st_lru := rest\<rparr>))
      else st)"
  by auto
termination
proof (relation "measure (\<lambda>(n, st). length (st_lru st))")
  fix n :: nat and st :: OutputStore and oldest rest
  assume "st_lru st = oldest # rest"
  moreover have "st_lru (store_remove k st) = filter (\<lambda>k'. k' \<noteq> k) (st_lru st)" for k st
    by (simp add: store_remove_def Let_def split: option.split)
  ultimately show "((n, store_remove oldest (st\<lparr>st_lru := rest\<rparr>)), n, st) \<in> measure (\<lambda>(n, st). length (st_lru st))"
    by (simp add: le_imp_less_Suc)
qed simp

declare evict_loop.simps [simp del]

definition store_insert :: "string \<Rightarrow> uchar list \<Rightarrow> nat \<Rightarrow> nat \<Rightarrow> OutputStore \<Rightarrow> panic + OutputStore" where
  "store_insert k s tot now st =
     (let st = evict_loop (utf8_len s) st;
          keep = boundary_at_or_before s (min (utf8_len s) (total_limit (st_config st)))
      in and_then (front_of s keep) (\<lambda>s.
         Inr (st\<lparr>st_bytes := st_bytes st + utf8_len s, st_lru := st_lru st @ [k],
                 st_entries := (k, \<lparr>en_text = s, en_total_bytes = tot, en_created = now\<rparr>) #
                   filter (\<lambda>(k', _). k' \<noteq> k) (st_entries st)\<rparr>)))"

definition protect :: "uchar list \<Rightarrow> nat \<Rightarrow> string \<Rightarrow> nat \<Rightarrow> OutputStore \<Rightarrow> panic + ProtectedOutput \<times> OutputStore" where
  "protect s inline_limit k now st =
     (let st = cleanup now st; tot = utf8_len s in
      if tot \<le> inline_limit then
        Inr (\<lparr>preview = s, truncated = False, output_id = None, total_bytes = tot, source_truncated = False\<rparr>, st)
      else
        let keep_end = boundary_at_or_before s (min (entry_limit (st_config st)) tot) in
        and_then (front_of s (boundary_at_or_before s inline_limit)) (\<lambda>front.
        and_then (front_of s keep_end) (\<lambda>kept.
        and_then (store_insert k kept tot now st) (\<lambda>st.
        Inr (\<lparr>preview = front, truncated = True, output_id = Some k, total_bytes = tot,
              source_truncated = (keep_end < tot)\<rparr>, st)))))"

definition read_output ::
  "string \<Rightarrow> nat \<Rightarrow> nat \<Rightarrow> nat \<Rightarrow> OutputStore \<Rightarrow> panic + (OutputStoreError + OutputChunk) \<times> OutputStore" where
  "read_output k offset max_bytes now st =
     (let st = cleanup now st in
      case map_of (st_entries st) k of
        None \<Rightarrow> Inr (Inl Unavailable, st)
      | Some entry \<Rightarrow>
          if utf8_len (en_text entry) < offset then Inr (Inl InvalidOffset, st)
          else if \<not> is_char_boundary (en_text entry) offset then Inr (Inl InvalidOffset, st)
          else
            let requested = max 1 (min max_bytes (max_chunk_bytes (st_config st)));
                stop = boundary_at_or_before (en_text entry) (min (saturating_add offset requested) (utf8_len (en_text entry)))
            in and_then (str_slice (en_text entry) offset stop) (\<lambda>data.
               Inr (Inr \<lparr>chunk_data = data, chunk_offset = offset, next_offset = stop,
                         chunk_total_bytes = en_total_bytes entry, eof = (stop = utf8_len (en_text entry))\<rparr>,
                    st\<lparr>st_lru := filter (\<lambda>k'. k' \<noteq> k) (st_lru st) @ [k]\<rparr>)))"


section \<open>What the store keeps\<close>

definition stored_bytes :: "(string \<times> Entry) list \<Rightarrow> nat" where
  "stored_bytes es = sum_list (map (\<lambda>(k, entry). utf8_len (en_text entry)) es)"

definition store_ok :: "OutputStore \<Rightarrow> bool" where
  "store_ok st \<longleftrightarrow> distinct (map fst (st_entries st)) \<and> distinct (st_lru st) \<and> set (st_lru st) = fst ` set (st_entries st) \<and>
     st_bytes st = stored_bytes (st_entries st) \<and> st_bytes st \<le> total_limit (st_config st) \<and>
     0 < entry_limit (st_config st) \<and> 0 < total_limit (st_config st) \<and> 0 < max_chunk_bytes (st_config st)"

lemma stored_bytes_simps [simp]:
  "stored_bytes [] = 0" "stored_bytes ((k, e) # es) = utf8_len (en_text e) + stored_bytes es"
  by (simp_all add: stored_bytes_def)

lemma filter_absent: "k \<notin> fst ` set es \<Longrightarrow> filter (\<lambda>(k', _). k' \<noteq> k) es = es"
  by (induction es) auto

lemma stored_bytes_remove:
  "distinct (map fst es) \<Longrightarrow> map_of es k = Some e \<Longrightarrow>
   stored_bytes es = utf8_len (en_text e) + stored_bytes (filter (\<lambda>(k', _). k' \<noteq> k) es)"
  by (induction es) (auto simp: filter_absent)

lemma store_remove_config [simp]: "st_config (store_remove k st) = st_config st"
  by (simp add: store_remove_def Let_def split: option.split)

lemma store_remove_entries: "st_entries (store_remove k st) = filter (\<lambda>(k', _). k' \<noteq> k) (st_entries st)"
proof (cases "map_of (st_entries st) k")
  case None
  then have "filter (\<lambda>(k', _). k' \<noteq> k) (st_entries st) = st_entries st"
    by (intro filter_absent) (simp add: map_of_eq_None_iff)
  then show ?thesis using None by (simp add: store_remove_def Let_def)
qed (simp add: store_remove_def)

lemma store_remove_lru: "st_lru (store_remove k st) = filter (\<lambda>k'. k' \<noteq> k) (st_lru st)"
  by (simp add: store_remove_def Let_def split: option.split)

lemma distinct_filter_fst: "distinct (map fst es) \<Longrightarrow> distinct (map fst (filter P es))"
  by (induction es) (auto simp: image_iff)

lemma store_remove_bytes:
  assumes "distinct (map fst (st_entries st))" "st_bytes st = stored_bytes (st_entries st)"
  shows "st_bytes (store_remove k st) = stored_bytes (st_entries (store_remove k st))" "st_bytes (store_remove k st) \<le> st_bytes st"
proof -
  show "st_bytes (store_remove k st) \<le> st_bytes st" by (simp add: store_remove_def Let_def split: option.split)
  show "st_bytes (store_remove k st) = stored_bytes (st_entries (store_remove k st))"
  proof (cases "map_of (st_entries st) k")
    case None
    then have "filter (\<lambda>(k', _). k' \<noteq> k) (st_entries st) = st_entries st"
      by (intro filter_absent) (simp add: map_of_eq_None_iff)
    then show ?thesis using assms(2) None by (simp add: store_remove_def Let_def)
  next
    case (Some e)
    then show ?thesis using stored_bytes_remove [OF assms(1) Some] assms(2)
      by (simp add: store_remove_entries) (simp add: store_remove_def)
  qed
qed

lemma store_remove_ok: "store_ok st \<Longrightarrow> store_ok (store_remove k st)"
  using store_remove_bytes [of st k] unfolding store_ok_def
  by (auto simp: store_remove_entries store_remove_lru distinct_filter_fst image_iff)

lemma fold_remove_ok: "store_ok st \<Longrightarrow> store_ok (fold store_remove ks st)"
  by (induction ks arbitrary: st) (simp_all add: store_remove_ok)

lemma fold_remove_config [simp]: "st_config (fold store_remove ks st) = st_config st"
  by (induction ks arbitrary: st) simp_all

lemma cleanup_config [simp]: "st_config (cleanup now st) = st_config st"
  by (simp add: cleanup_def Let_def)

lemma cleanup_ok: "store_ok st \<Longrightarrow> store_ok (cleanup now st)"
proof -
  assume "store_ok st"
  then have ok: "store_ok (fold store_remove (expired now st) st)" by (rule fold_remove_ok)
  then have "filter (\<lambda>k. map_of (st_entries (fold store_remove (expired now st) st)) k \<noteq> None)
      (st_lru (fold store_remove (expired now st) st)) = st_lru (fold store_remove (expired now st) st)"
    by (intro filter_True) (auto simp: store_ok_def map_of_eq_None_iff)
  then show "store_ok (cleanup now st)" using ok by (simp add: cleanup_def Let_def store_ok_def)
qed

lemma evict_step: "st_lru st = oldest # rest \<Longrightarrow> store_remove oldest (st\<lparr>st_lru := rest\<rparr>) = store_remove oldest st"
  by (simp add: store_remove_def Let_def split: option.split)

lemma store_ok_empty: "store_ok st \<Longrightarrow> st_lru st = [] \<Longrightarrow> st_entries st = [] \<and> st_bytes st = 0"
  by (simp add: store_ok_def)

lemma evict_ok:
  "store_ok st \<Longrightarrow> total_limit (st_config st) < 2 ^ 64 - 1 \<Longrightarrow>
   store_ok (evict_loop n st) \<and> st_config (evict_loop n st) = st_config st \<and>
   set (st_entries (evict_loop n st)) \<subseteq> set (st_entries st) \<and>
   (st_bytes (evict_loop n st) + n \<le> total_limit (st_config st) \<or> st_bytes (evict_loop n st) = 0 \<and> st_entries (evict_loop n st) = [])"
proof (induction n st rule: evict_loop.induct)
  case (1 n st)
  show ?case
  proof (cases "total_limit (st_config st) < saturating_add (st_bytes st) n")
    case False
    then have "st_bytes st + n \<le> total_limit (st_config st)" using "1.prems"(2) by (auto simp: saturating_add_def min_def split: if_splits)
    then show ?thesis using False "1.prems" by (simp add: evict_loop.simps [of n st])
  next
    case True
    show ?thesis
    proof (cases "st_lru st")
      case Nil
      then show ?thesis using True "1.prems" store_ok_empty [OF "1.prems"(1)] by (simp add: evict_loop.simps [of n st])
    next
      case (Cons oldest rest)
      have eq: "evict_loop n st = evict_loop n (store_remove oldest st)"
        using True Cons evict_step [OF Cons] by (simp add: evict_loop.simps [of n st])
      have "set (st_entries (store_remove oldest st)) \<subseteq> set (st_entries st)" by (auto simp: store_remove_entries)
      then show ?thesis using "1.IH" [OF True Cons] "1.prems" evict_step [OF Cons] store_remove_ok [of st oldest]
        unfolding eq by auto
    qed
  qed
qed


section \<open>Prefixes\<close>

fun take_bytes :: "nat \<Rightarrow> uchar list \<Rightarrow> uchar list" where
  "take_bytes n [] = []"
| "take_bytes n (c # s) = (if len_utf8 c \<le> n then c # take_bytes (n - len_utf8 c) s else [])"

lemma take_bytes_le: "utf8_len (take_bytes n s) \<le> n"
proof (induction n s rule: take_bytes.induct)
  case (2 n c s)
  then show ?case by (cases "len_utf8 c \<le> n") auto
qed simp

lemma take_bytes_prefix: "\<exists>t. s = take_bytes n s @ t \<and> (t = [] \<or> n < utf8_len (take_bytes n s) + len_utf8 (hd t))"
proof (induction n s rule: take_bytes.induct)
  case (2 n c s)
  then show ?case by (cases "len_utf8 c \<le> n") (auto simp: less_diff_conv2 add.commute add.left_commute)
qed simp

lemma take_bytes_all: "utf8_len s \<le> n \<Longrightarrow> take_bytes n s = s"
  by (induction n s rule: take_bytes.induct) auto

lemma floor_take_bytes: "floor_offset s n = utf8_len (take_bytes n s)"
proof -
  obtain t where t: "s = take_bytes n s @ t" "t = [] \<or> n < utf8_len (take_bytes n s) + len_utf8 (hd t)"
    using take_bytes_prefix by blast
  have "is_char_boundary s (utf8_len (take_bytes n s))" using t(1) by (metis boundary_append)
  then have ge: "utf8_len (take_bytes n s) \<le> floor_offset s n" by (rule floor_offset_greatest) (rule take_bytes_le)
  obtain a b where ab: "s = a @ b" "floor_offset s n = utf8_len a" by (rule boundaryE [OF floor_offset_boundary])
  obtain e where e: "a = take_bytes n s @ e" "t = e @ b" using utf8_prefix_unique [of "take_bytes n s" t a b] t(1) ab ge by auto
  have "utf8_len a \<le> n" using floor_offset_le(1) [of s n] ab(2) by simp
  then have "e = []" using e t(2) by (cases e) auto
  then show ?thesis using ab(2) e by simp
qed

lemma front_of_floor: "front_of s (floor_offset s n) = Inr (take_bytes n s)"
proof -
  obtain t where "s = take_bytes n s @ t" using take_bytes_prefix by blast
  then show ?thesis using str_slice_ok [of "[]" "take_bytes n s" t] by (simp add: front_of_def floor_take_bytes)
qed

lemma take_bytes_append: "take_bytes (utf8_len a + n) (a @ b) = a @ take_bytes n b"
  by (induction a) (simp_all add: add.assoc)

lemma floor_append: "floor_offset (a @ b) (utf8_len a + n) = utf8_len a + utf8_len (take_bytes n b)"
  by (simp add: floor_take_bytes take_bytes_append)

lemma take_bytes_min: "take_bytes (min n (utf8_len s)) s = take_bytes n s"
  by (cases "utf8_len s \<le> n") (simp_all add: take_bytes_all min_def)

lemma take_bytes_take_bytes: "take_bytes m (take_bytes n s) = take_bytes (min m n) s"
  by (induction n s arbitrary: m rule: take_bytes.induct) (auto simp: min_def)

lemma slice_floor:
  "str_slice (a @ b) (utf8_len a) (floor_offset (a @ b) (utf8_len a + n)) = Inr (take_bytes n b)"
proof -
  obtain t where "b = take_bytes n b @ t" using take_bytes_prefix by blast
  then show ?thesis unfolding floor_append using str_slice_ok [of a "take_bytes n b" t] by simp
qed

section \<open>Operations on a store in order\<close>

lemma store_insert_eq:
  "store_insert k s tot now st =
     (let st = evict_loop (utf8_len s) st; s' = take_bytes (total_limit (st_config st)) s in
      Inr (st\<lparr>st_bytes := st_bytes st + utf8_len s', st_lru := st_lru st @ [k],
              st_entries := (k, \<lparr>en_text = s', en_total_bytes = tot, en_created = now\<rparr>) #
                filter (\<lambda>(k', _). k' \<noteq> k) (st_entries st)\<rparr>))"
proof -
  have "front_of s (floor_offset s (min (utf8_len s) n)) = Inr (take_bytes n s)" for n
    by (simp add: front_of_floor take_bytes_min min.commute)
  then show ?thesis by (simp add: store_insert_def boundary_at_or_before_def Let_def)
qed

lemma take_bytes_le_len: "utf8_len (take_bytes n s) \<le> utf8_len s"
  by (metis le_add1 take_bytes_prefix utf8_len_simps(3))

lemma store_insert_ok:
  assumes "store_ok st" "total_limit (st_config st) < 2 ^ 64 - 1" "k \<notin> fst ` set (st_entries st)"
    and "store_insert k s tot now st = Inr st'"
  shows "store_ok st' \<and> st_config st' = st_config st \<and>
    map_of (st_entries st') k =
      Some \<lparr>en_text = take_bytes (total_limit (st_config st)) s, en_total_bytes = tot, en_created = now\<rparr>"
proof -
  let ?e = "evict_loop (utf8_len s) st" and ?s = "take_bytes (total_limit (st_config st)) s"
  note ev = evict_ok [OF assms(1,2), of "utf8_len s"]
  have fresh: "k \<notin> fst ` set (st_entries ?e)" using ev assms(3) by auto
  have st': "st' = ?e\<lparr>st_bytes := st_bytes ?e + utf8_len ?s, st_lru := st_lru ?e @ [k],
      st_entries := (k, \<lparr>en_text = ?s, en_total_bytes = tot, en_created = now\<rparr>) # st_entries ?e\<rparr>"
    using assms(4) ev filter_absent [OF fresh] by (simp add: store_insert_eq Let_def)
  have "st_bytes ?e + utf8_len ?s \<le> total_limit (st_config st)"
    using ev take_bytes_le_len [of "total_limit (st_config st)" s] take_bytes_le [of "total_limit (st_config st)" s] by auto
  then show ?thesis using ev fresh st' by (auto simp: store_ok_def)
qed

lemma fold_remove_entries: "st_entries (fold store_remove ks st) = filter (\<lambda>(k, _). k \<notin> set ks) (st_entries st)"
  by (induction ks arbitrary: st) (auto simp: store_remove_entries intro!: filter_cong)

lemma map_of_filter_keys: "map_of (filter (\<lambda>(k, _). P k) es) k = (if P k then map_of es k else None)"
  by (induction es) auto

lemma cleanup_entries: "st_entries (cleanup now st) = filter (\<lambda>(k, _). k \<notin> set (expired now st)) (st_entries st)"
  by (simp add: cleanup_def Let_def fold_remove_entries)

lemma cleanup_fresh: "k \<notin> fst ` set (st_entries st) \<Longrightarrow> k \<notin> fst ` set (st_entries (cleanup now st))"
  by (auto simp: cleanup_entries)

lemma cleanup_lookup:
  assumes "distinct (map fst (st_entries st))"
  shows "map_of (st_entries (cleanup now st)) k =
    (case map_of (st_entries st) k of
       None \<Rightarrow> None | Some e \<Rightarrow> if ttl (st_config st) \<le> now - en_created e then None else Some e)"
proof (cases "map_of (st_entries st) k")
  case None
  then show ?thesis by (simp add: cleanup_entries map_of_filter_keys)
next
  case (Some e)
  then have "(k, e') \<in> set (st_entries st) \<longleftrightarrow> e' = e" for e'
    using assms map_of_eq_Some_iff [OF assms] by (metis option.inject)
  then have "k \<in> set (expired now st) \<longleftrightarrow> ttl (st_config st) \<le> now - en_created e"
    by (force simp: expired_def)
  then show ?thesis using Some by (simp add: cleanup_entries map_of_filter_keys)
qed

lemma take_bytes_len_eq: "utf8_len (take_bytes n s) = utf8_len s \<longleftrightarrow> take_bytes n s = s"
proof -
  obtain t where t: "s = take_bytes n s @ t" using take_bytes_prefix by blast
  have "utf8_len s = utf8_len (take_bytes n s) + utf8_len t" by (subst t) simp
  then show ?thesis using t by (metis add_cancel_right_right append_Nil2 utf8_len_eq_0_iff)
qed

lemma protect_eq:
  "protect s inline_limit k now st =
     (let st = cleanup now st; n = entry_limit (st_config st) in
      if utf8_len s \<le> inline_limit then
        Inr (\<lparr>preview = s, truncated = False, output_id = None, total_bytes = utf8_len s, source_truncated = False\<rparr>, st)
      else and_then (store_insert k (take_bytes n s) (utf8_len s) now st) (\<lambda>st.
        Inr (\<lparr>preview = take_bytes inline_limit s, truncated = True, output_id = Some k, total_bytes = utf8_len s,
              source_truncated = (take_bytes n s \<noteq> s)\<rparr>, st)))"
proof -
  have "utf8_len (take_bytes n s) < utf8_len s \<longleftrightarrow> take_bytes n s \<noteq> s" for n
    using take_bytes_le_len [of n s] take_bytes_len_eq [of n s] by linarith
  then show ?thesis
    by (simp add: protect_def boundary_at_or_before_def Let_def front_of_floor)
      (simp add: floor_take_bytes take_bytes_min front_of_floor [unfolded floor_take_bytes])
qed

lemma protect_ok:
  assumes "store_ok st" "total_limit (st_config st) < 2 ^ 64 - 1" "k \<notin> fst ` set (st_entries st)"
  shows "\<exists>out st'. protect s inline_limit k now st = Inr (out, st') \<and> store_ok st' \<and> st_config st' = st_config st"
proof -
  note ok = cleanup_ok [OF assms(1), of now]
  have lim: "total_limit (st_config (cleanup now st)) < 2 ^ 64 - 1" using assms(2) by simp
  obtain st' where st': "store_insert k (take_bytes (entry_limit (st_config st)) s) (utf8_len s) now (cleanup now st) = Inr st'"
    by (simp add: store_insert_eq Let_def)
  then show ?thesis
    using store_insert_ok [OF ok lim cleanup_fresh [OF assms(3)] st'] ok by (simp add: protect_eq Let_def)
qed

lemma stored_bytes_member: "(k, e) \<in> set es \<Longrightarrow> utf8_len (en_text e) \<le> stored_bytes es"
  by (induction es) auto

lemma saturating_add_min: "n \<le> 2 ^ 64 - 1 \<Longrightarrow> min (saturating_add x y) n = min (x + y) n"
  unfolding saturating_add_def by (simp only: min.assoc min.absorb2)

lemma read_eq:
  assumes "store_ok st" "total_limit (st_config st) < 2 ^ 64 - 1"
    and "map_of (st_entries (cleanup now st)) k = Some e" "en_text e = a @ b"
  shows "read_output k (utf8_len a) m now st =
    (let data = take_bytes (max 1 (min m (max_chunk_bytes (st_config st)))) b in
     Inr (Inr \<lparr>chunk_data = data, chunk_offset = utf8_len a, next_offset = utf8_len a + utf8_len data,
               chunk_total_bytes = en_total_bytes e, eof = (data = b)\<rparr>,
          (cleanup now st)\<lparr>st_lru := filter (\<lambda>k'. k' \<noteq> k) (st_lru (cleanup now st)) @ [k]\<rparr>))"
proof -
  let ?n = "max 1 (min m (max_chunk_bytes (st_config st)))"
  have "stored_bytes (st_entries (cleanup now st)) \<le> total_limit (st_config st)" using cleanup_ok [OF assms(1), of now] by (auto simp: store_ok_def)
  moreover have "utf8_len (en_text e) \<le> stored_bytes (st_entries (cleanup now st))"
    by (rule stored_bytes_member [OF map_of_SomeD [OF assms(3)]])
  ultimately have "utf8_len (a @ b) < 2 ^ 64 - 1" using assms(2,4) by simp
  then have stop: "min (saturating_add (utf8_len a) ?n) (utf8_len (a @ b)) = min (utf8_len a + ?n) (utf8_len (a @ b))"
    by (intro saturating_add_min) simp
  have at: "boundary_at_or_before (a @ b) (min (saturating_add (utf8_len a) ?n) (utf8_len (a @ b))) =
      utf8_len a + utf8_len (take_bytes ?n b)"
    unfolding boundary_at_or_before_def stop floor_take_bytes take_bytes_min take_bytes_append by (rule utf8_len_simps(3))
  have slice: "str_slice (a @ b) (utf8_len a) (utf8_len a + utf8_len (take_bytes ?n b)) = Inr (take_bytes ?n b)"
    using slice_floor [of a b ?n] by (simp only: floor_append)
  have eof: "utf8_len a + utf8_len (take_bytes ?n b) = utf8_len (a @ b) \<longleftrightarrow> take_bytes ?n b = b"
    using take_bytes_len_eq [of ?n b] by simp
  have inside: "\<not> utf8_len (a @ b) < utf8_len a" "is_char_boundary (a @ b) (utf8_len a)" by simp_all
  show ?thesis
    unfolding read_output_def Let_def assms(3) option.case assms(4) cleanup_config at slice eof
    by (simp only: inside if_False if_True and_then.simps simp_thms)
qed

lemma store_ok_touch:
  assumes "store_ok st" "map_of (st_entries st) k = Some e"
  shows "store_ok (st\<lparr>st_lru := filter (\<lambda>k'. k' \<noteq> k) (st_lru st) @ [k]\<rparr>)"
proof -
  have "k \<in> fst ` set (st_entries st)" using map_of_SomeD [OF assms(2)] by force
  then show ?thesis using assms(1) by (auto simp: store_ok_def)
qed

lemma read_ok:
  assumes "store_ok st" "total_limit (st_config st) < 2 ^ 64 - 1"
  shows "\<exists>r st'. read_output k offset m now st = Inr (r, st') \<and> store_ok st' \<and> st_config st' = st_config st"
proof (cases "map_of (st_entries (cleanup now st)) k")
  case None
  then show ?thesis using cleanup_ok [OF assms(1), of now] by (simp add: read_output_def Let_def)
next
  case (Some e)
  show ?thesis
  proof (cases "is_char_boundary (en_text e) offset")
    case True
    then obtain a b where "en_text e = a @ b" "offset = utf8_len a" by (rule boundaryE)
    then show ?thesis
      using read_eq [OF assms Some, of a b m] store_ok_touch [OF cleanup_ok [OF assms(1)] Some] by (simp add: Let_def)
  next
    case False
    then show ?thesis using Some cleanup_ok [OF assms(1), of now] by (simp add: read_output_def Let_def)
  qed
qed

inductive store_step :: "OutputStore \<Rightarrow> OutputStore \<Rightarrow> bool" where
  o_protect: "k \<notin> fst ` set (st_entries st) \<Longrightarrow> protect s inline_limit k now st = Inr (out, st') \<Longrightarrow> store_step st st'"
| o_read: "read_output k offset m now st = Inr (r, st') \<Longrightarrow> store_step st st'"
| o_cleanup: "store_step st (cleanup now st)"

lemma store_step_ok:
  assumes "store_step st st'" "store_ok st" "total_limit (st_config st) < 2 ^ 64 - 1"
  shows "store_ok st' \<and> st_config st' = st_config st"
  using assms(1)
proof cases
  case (o_protect k s inline_limit now out)
  then show ?thesis using protect_ok [OF assms(2,3) o_protect(1)] by (metis (no_types, lifting) old.sum.inject(2) prod.inject)
next
  case (o_read k offset m now r)
  then show ?thesis using read_ok [OF assms(2,3)] by (metis (no_types, lifting) old.sum.inject(2) prod.inject)
next
  case (o_cleanup now)
  then show ?thesis using cleanup_ok [OF assms(2)] by simp
qed

fun read_all :: "nat \<Rightarrow> string \<Rightarrow> nat \<Rightarrow> nat \<Rightarrow> nat \<Rightarrow> OutputStore \<Rightarrow> uchar list option" where
  "read_all 0 k offset m now st = None"
| "read_all (Suc fuel) k offset m now st =
     (case read_output k offset m now st of
        Inr (Inr chunk, st') \<Rightarrow>
          if eof chunk then Some (chunk_data chunk)
          else map_option (\<lambda>rest. chunk_data chunk @ rest) (read_all fuel k (next_offset chunk) m now st')
      | _ \<Rightarrow> None)"

lemma read_all_rest:
  assumes "4 \<le> m" "4 \<le> max_chunk_bytes (st_config st)" "store_ok st" "total_limit (st_config st) < 2 ^ 64 - 1"
    and "map_of (st_entries st) k = Some e" "now - en_created e < ttl (st_config st)" "en_text e = a @ b" "length b < fuel"
  shows "read_all fuel k (utf8_len a) m now st = Some b"
  using assms
proof (induction fuel arbitrary: a b st)
  case (Suc fuel)
  let ?n = "max 1 (min m (max_chunk_bytes (st_config st)))" and ?c = "cleanup now st"
  let ?st = "?c\<lparr>st_lru := filter (\<lambda>k'. k' \<noteq> k) (st_lru ?c) @ [k]\<rparr>"
  have dist: "distinct (map fst (st_entries st))" using Suc.prems(3) by (simp add: store_ok_def)
  have e: "map_of (st_entries ?c) k = Some e" using cleanup_lookup [OF dist, of now k] Suc.prems(5,6) by simp
  note read = read_eq [OF Suc.prems(3,4) e Suc.prems(7), of m]
  obtain t where t: "b = take_bytes ?n b @ t" using take_bytes_prefix by blast
  show ?case
  proof (cases "take_bytes ?n b = b")
    case True
    then show ?thesis using read by (simp add: Let_def)
  next
    case False
    then obtain c b' where b: "b = c # b'" by (cases b) auto
    have "len_utf8 c \<le> ?n" using len_utf8_le_4 [of c] Suc.prems(1,2) by simp
    then have "take_bytes ?n b \<noteq> []" using b by simp
    moreover have "length b = length (take_bytes ?n b) + length t" by (subst t) simp
    ultimately have "length t < fuel" using Suc.prems(8) by (cases "take_bytes ?n b") auto
    moreover have "store_ok ?st" by (rule store_ok_touch [OF cleanup_ok [OF Suc.prems(3)] e])
    moreover have "en_text e = (a @ take_bytes ?n b) @ t" using Suc.prems(7) t by simp
    ultimately have "read_all fuel k (utf8_len (a @ take_bytes ?n b)) m now ?st = Some t"
      using Suc.prems e by (intro Suc.IH) simp_all
    then show ?thesis using read False t by (simp add: Let_def)
  qed
qed simp


section \<open>Properties\<close>

text \<open>C16. The store stays within its limit. In every state that is reached from a new store by protecting
  outputs under fresh identifiers, reading and cleaning up, the counted bytes are those of the
  entries and within the limit of the store, the list that orders evictions names each entry once, and
  neither protecting nor reading panics.\<close>

theorem output_store_bounded:
  assumes "total_limit config < 2 ^ 64 - 1" "reachable (\<lambda>st. st = store_new config) store_step st"
  shows "st_bytes st = stored_bytes (st_entries st) \<and> st_bytes st \<le> max (total_limit config) 1 \<and>
    distinct (st_lru st) \<and> set (st_lru st) = fst ` set (st_entries st) \<and>
    (\<exists>r. read_output k offset m now st = Inr r) \<and>
    (k \<in> fst ` set (st_entries st) \<or> (\<exists>r. protect s inline_limit k now st = Inr r))"
proof -
  have ok: "store_ok st \<and> st_config st = st_config (store_new config)"
    using assms(2)
  proof (rule reachable_invariant)
    fix st assume "st = store_new config"
    then show "store_ok st \<and> st_config st = st_config (store_new config)" by (simp add: store_ok_def store_new_def less_max_iff_disj)
  next
    fix st st' assume "store_ok st \<and> st_config st = st_config (store_new config)" "store_step st st'"
    then show "store_ok st' \<and> st_config st' = st_config (store_new config)"
      using store_step_ok [of st st'] assms(1) by (simp add: store_new_def)
  qed
  then have lim: "total_limit (st_config st) < 2 ^ 64 - 1" using assms(1) by (simp add: store_new_def)
  show ?thesis
    using ok read_ok [OF _ lim, of k offset m now] protect_ok [OF _ lim, of k s inline_limit now]
    by (auto simp: store_ok_def store_new_def)
qed

definition small_config :: OutputStoreConfig where
  "small_config = \<lparr>entry_limit = 6, total_limit = 8, ttl = 10, max_chunk_bytes = 4\<rparr>"

theorem output_store_bounded_witness:
  "\<exists>st. protect [0x61, 0xe9, 0x62] 2 ''out_1'' 0 (store_new small_config) =
     Inr (\<lparr>preview = [0x61], truncated = True, output_id = Some ''out_1'', total_bytes = 4, source_truncated = False\<rparr>, st) \<and>
   st_bytes st = 4 \<and> st_bytes st \<le> 8 \<and> set (st_lru st) = {''out_1''}"
proof -
  let ?st = "\<lparr>st_entries = [(''out_1'', \<lparr>en_text = [0x61, 0xe9, 0x62], en_total_bytes = 4, en_created = 0\<rparr>)],
    st_lru = [''out_1''], st_bytes = 4, st_config = small_config\<rparr>"
  have p: "protect [0x61, 0xe9, 0x62] 2 ''out_1'' 0 (store_new small_config) =
     Inr (\<lparr>preview = [0x61], truncated = True, output_id = Some ''out_1'', total_bytes = 4, source_truncated = False\<rparr>, ?st)"
    by (simp add: protect_eq Let_def cleanup_def expired_def store_new_def small_config_def store_insert_eq evict_loop.simps
        saturating_add_def len_utf8_def)
  have "reachable (\<lambda>st. st = store_new small_config) store_step (store_new small_config)"
    by (rule start, rule refl)
  moreover have "store_step (store_new small_config) ?st" by (rule o_protect [OF _ p]) (simp add: store_new_def)
  ultimately have "reachable (\<lambda>st. st = store_new small_config) store_step ?st" by (rule move)
  then show ?thesis using output_store_bounded [of small_config ?st] p by (simp add: small_config_def)
qed




text \<open>A chunk smaller than the next character is empty and leaves the offset where it was, so a reader
  that asks for it again never gets on.\<close>

lemma read_small_chunk:
  assumes "store_ok st" "total_limit (st_config st) < 2 ^ 64 - 1"
    and "map_of (st_entries (cleanup now st)) k = Some e" "en_text e = a @ c # b" "m < len_utf8 c" "1 < len_utf8 c"
  shows "\<exists>chunk st'. read_output k (utf8_len a) m now st = Inr (Inr chunk, st') \<and>
    chunk_data chunk = [] \<and> next_offset chunk = utf8_len a \<and> \<not> eof chunk"
proof -
  have "\<not> len_utf8 c \<le> max 1 (min m (max_chunk_bytes (st_config st)))" using assms(5,6) by (simp add: max_def min_def)
  then have "take_bytes (max 1 (min m (max_chunk_bytes (st_config st)))) (c # b) = []" by (simp only: take_bytes.simps if_False)
  then show ?thesis using read_eq [OF assms(1-4), of m] by (simp add: Let_def del: take_bytes.simps)
qed

end
