(* ===== verification/Hex_Document.thy ===== *)
theory Hex_Document
  imports Prelude
begin

unbundle bit_operations_syntax

text \<open>
  The byte editor (\<open>hex_document.rs\<close> of the core crate): a list of bytes with a cursor on one half of a
  byte, a selection and a half-typed byte, and the formats in which bytes are copied and pasted. A \<open>String\<close> is
  the list of its UTF-8 bytes. Indexing, slicing and draining out of range are panics.
\<close>


section \<open>The document\<close>

datatype HexNibble = High | Low

record HexCursor =
  byte_index :: nat
  nibble :: HexNibble

record HexSelection =
  sel_anchor :: nat
  sel_end :: nat

record HexDocument =
  hex_bytes :: "u8 list"
  hex_cursor :: HexCursor
  hex_selection :: "HexSelection option"
  pending_nibble :: "u8 option"

definition selection_range :: "HexSelection \<Rightarrow> nat \<times> nat" where
  "selection_range s = (min (sel_anchor s) (sel_end s), max (sel_anchor s) (sel_end s))"

definition hex_selected :: "HexDocument \<Rightarrow> (nat \<times> nat) option" where
  "hex_selected d =
     (case hex_selection d of
        None \<Rightarrow> None
      | Some s \<Rightarrow> if fst (selection_range s) < snd (selection_range s) then Some (selection_range s) else None)"

definition selection_anchor :: "HexDocument \<Rightarrow> nat" where
  "selection_anchor d = (case hex_selection d of None \<Rightarrow> byte_index (hex_cursor d) | Some s \<Rightarrow> sel_anchor s)"

definition set_bytes :: "u8 list \<Rightarrow> HexDocument" where
  "set_bytes bytes = \<lparr>hex_bytes = bytes, hex_cursor = \<lparr>byte_index = 0, nibble = High\<rparr>, hex_selection = None,
     pending_nibble = None\<rparr>"

definition move_hex_cursor :: "HexCursor \<Rightarrow> bool \<Rightarrow> HexDocument \<Rightarrow> HexDocument" where
  "move_hex_cursor c extending d =
     (let i = min (byte_index c) (length (hex_bytes d)) in
      d\<lparr>hex_selection := (if extending then Some \<lparr>sel_anchor = selection_anchor d, sel_end = i\<rparr> else None),
        hex_cursor := \<lparr>byte_index = i, nibble = (if i = length (hex_bytes d) then High else nibble c)\<rparr>,
        pending_nibble := None\<rparr>)"

definition select_all_bytes :: "HexDocument \<Rightarrow> HexDocument" where
  "select_all_bytes d = d\<lparr>pending_nibble := None, hex_selection := Some \<lparr>sel_anchor = 0, sel_end = length (hex_bytes d)\<rparr>,
     hex_cursor := \<lparr>byte_index = length (hex_bytes d), nibble = High\<rparr>\<rparr>"

definition cancel_selection :: "HexDocument \<Rightarrow> HexDocument" where
  "cancel_selection d = d\<lparr>hex_selection := None, pending_nibble := None, hex_cursor := (hex_cursor d)\<lparr>nibble := High\<rparr>\<rparr>"

definition delete_selection :: "HexDocument \<Rightarrow> panic + bool \<times> HexDocument" where
  "delete_selection d =
     (case hex_selected d of
        None \<Rightarrow> Inr (False, d)
      | Some (start, stop) \<Rightarrow>
          if length (hex_bytes d) < stop then Inl OutOfBounds
          else Inr (True, d\<lparr>hex_bytes := take start (hex_bytes d) @ drop stop (hex_bytes d),
                 hex_cursor := \<lparr>byte_index = start, nibble = High\<rparr>, hex_selection := None, pending_nibble := None\<rparr>))"

definition type_nibble :: "u8 \<Rightarrow> HexDocument \<Rightarrow> panic + HexDocument" where
  "type_nibble n d =
     (if 15 < n then Inr d
      else and_then (delete_selection d) (\<lambda>(_, d).
        let i = byte_index (hex_cursor d) in
        case nibble (hex_cursor d) of
          High \<Rightarrow> Inr (d\<lparr>pending_nibble := Some n, hex_cursor := (hex_cursor d)\<lparr>nibble := Low\<rparr>\<rparr>)
        | Low \<Rightarrow>
            and_then (case pending_nibble d of
                Some h \<Rightarrow> Inr h
              | None \<Rightarrow> if i < length (hex_bytes d) then Inr (drop_bit 4 (hex_bytes d ! i)) else Inl OutOfBounds) (\<lambda>high.
            let byte = push_bit 4 high OR n; d = d\<lparr>pending_nibble := None\<rparr> in
            and_then (if i = length (hex_bytes d) then Inr (hex_bytes d @ [byte])
                      else if i < length (hex_bytes d) then Inr ((hex_bytes d)[i := byte]) else Inl OutOfBounds) (\<lambda>bytes.
            Inr (d\<lparr>hex_bytes := bytes, hex_cursor := \<lparr>byte_index = i + 1, nibble = High\<rparr>\<rparr>)))))"

definition insert_bytes :: "u8 list \<Rightarrow> HexDocument \<Rightarrow> panic + HexDocument" where
  "insert_bytes new d =
     (if new = [] then Inr d
      else and_then (delete_selection d) (\<lambda>(_, d).
        let i = byte_index (hex_cursor d) in
        if length (hex_bytes d) < i then Inl OutOfBounds
        else Inr (d\<lparr>hex_bytes := take i (hex_bytes d) @ new @ drop i (hex_bytes d),
               hex_cursor := \<lparr>byte_index = i + length new, nibble = High\<rparr>, pending_nibble := None\<rparr>)))"

definition delete_byte :: "bool \<Rightarrow> HexDocument \<Rightarrow> panic + HexDocument" where
  "delete_byte backwards d =
     (if pending_nibble d \<noteq> None then Inr (d\<lparr>pending_nibble := None, hex_cursor := (hex_cursor d)\<lparr>nibble := High\<rparr>\<rparr>)
      else and_then (delete_selection d) (\<lambda>(deleted, d).
        if deleted then Inr d
        else
          let i = byte_index (hex_cursor d) in
          if backwards \<and> 0 < i then
            if i - 1 < length (hex_bytes d)
            then Inr (d\<lparr>hex_bytes := take (i - 1) (hex_bytes d) @ drop i (hex_bytes d),
                        hex_cursor := \<lparr>byte_index = i - 1, nibble = High\<rparr>\<rparr>)
            else Inl OutOfBounds
          else if \<not> backwards \<and> i < length (hex_bytes d) then
            Inr (d\<lparr>hex_bytes := take i (hex_bytes d) @ drop (i + 1) (hex_bytes d),
                   hex_cursor := (hex_cursor d)\<lparr>nibble := High\<rparr>\<rparr>)
          else Inr (d\<lparr>hex_cursor := (hex_cursor d)\<lparr>nibble := High\<rparr>\<rparr>)))"

definition selected_bytes :: "HexDocument \<Rightarrow> panic + u8 list" where
  "selected_bytes d =
     (case hex_selected d of
        None \<Rightarrow> Inr (hex_bytes d)
      | Some (start, stop) \<Rightarrow>
          if length (hex_bytes d) < stop then Inl OutOfBounds else Inr (take (stop - start) (drop start (hex_bytes d))))"


section \<open>Copying and pasting\<close>

datatype HexPasteError = InvalidFormat | IncompleteByte

datatype HexCopyFormat = Hex | Compact | CArray | Escaped | Ascii

definition is_ascii_whitespace :: "u8 \<Rightarrow> bool" where
  "is_ascii_whitespace b \<longleftrightarrow> b = 0x20 \<or> b = 0x09 \<or> b = 0x0a \<or> b = 0x0c \<or> b = 0x0d"

definition hex_digit :: "u8 \<Rightarrow> u8 option" where
  "hex_digit ch =
     (if 0x30 \<le> ch \<and> ch \<le> 0x39 then Some (ch - 0x30)
      else if 0x61 \<le> ch \<and> ch \<le> 0x66 then Some (ch - 0x61 + 10)
      else if 0x41 \<le> ch \<and> ch \<le> 0x46 then Some (ch - 0x41 + 10) else None)"

fun zero_prefixed :: "u8 list \<Rightarrow> bool" where
  "zero_prefixed (a # b # _) = (a = 0x30 \<and> (b = 0x78 \<or> b = 0x58))"
| "zero_prefixed _ = False"

fun prefixed :: "u8 list \<Rightarrow> bool" where
  "prefixed (a # b # _) = ((a = 0x30 \<or> a = 0x5c) \<and> (b = 0x78 \<or> b = 0x58))"
| "prefixed _ = False"

fun paste_loop :: "u8 list \<Rightarrow> u8 list \<Rightarrow> HexPasteError + u8 list" where
  "paste_loop [] digits = Inr digits"
| "paste_loop (ch # rest) digits =
     (if is_ascii_whitespace ch \<or> ch = 0x2c then
        if odd (length digits) then Inl IncompleteByte else paste_loop rest digits
      else if prefixed (ch # rest) then
        if odd (length digits) then Inl IncompleteByte
        else (case rest of
            _ # h # l # rest' \<Rightarrow>
              and_then (ok_or (hex_digit h) InvalidFormat) (\<lambda>h.
              and_then (ok_or (hex_digit l) InvalidFormat) (\<lambda>l.
              if (case rest' of [] \<Rightarrow> False | c # _ \<Rightarrow> hex_digit c \<noteq> None) \<and> \<not> zero_prefixed rest' then Inl InvalidFormat
              else paste_loop rest' (digits @ [h, l])))
          | _ \<Rightarrow> Inl IncompleteByte)
      else and_then (ok_or (hex_digit ch) InvalidFormat) (\<lambda>d. paste_loop rest (digits @ [d])))"

fun pair_bytes :: "u8 list \<Rightarrow> u8 list" where
  "pair_bytes (h # l # rest) = (push_bit 4 h OR l) # pair_bytes rest"
| "pair_bytes _ = []"

definition parse_hex_paste :: "u8 list \<Rightarrow> HexPasteError + u8 list" where
  "parse_hex_paste input =
     and_then (paste_loop input []) (\<lambda>digits.
     if odd (length digits) then Inl IncompleteByte else Inr (pair_bytes digits))"

definition hex_char :: "u8 \<Rightarrow> u8" where
  "hex_char n = (if n < 10 then 0x30 + n else 0x41 + (n - 10))"

definition hex_pair :: "u8 \<Rightarrow> u8 list" where
  "hex_pair b = [hex_char (drop_bit 4 b), hex_char (b AND 0x0f)]"

fun join_bytes :: "u8 list \<Rightarrow> u8 list list \<Rightarrow> u8 list" where
  "join_bytes sep [] = []"
| "join_bytes sep [x] = x"
| "join_bytes sep (x # y # xs) = x @ sep @ join_bytes sep (y # xs)"

definition format_hex :: "u8 list \<Rightarrow> HexCopyFormat \<Rightarrow> u8 list" where
  "format_hex bytes format =
     (case format of
        Ascii \<Rightarrow> concat (map (\<lambda>b. if 0x20 \<le> b \<and> b \<le> 0x7e then [b] else [0xc2, 0xb7]) bytes)
      | Hex \<Rightarrow> join_bytes [0x20] (map hex_pair bytes)
      | Compact \<Rightarrow> join_bytes [] (map hex_pair bytes)
      | CArray \<Rightarrow> join_bytes [0x2c, 0x20] (map (\<lambda>b. [0x30, 0x78] @ hex_pair b) bytes)
      | Escaped \<Rightarrow> join_bytes [] (map (\<lambda>b. [0x5c, 0x78] @ hex_pair b) bytes))"

section \<open>Formats can be pasted back\<close>

lemma nibble_cases:
  fixes n :: u8
  assumes "n < 16"
  shows "n \<in> {0, 1, 2, 3, 4, 5, 6, 7, 8, 9, 10, 11, 12, 13, 14, 15}"
proof -
  have "unat n < 16" using assms by (simp add: word_less_nat_alt)
  moreover have "\<forall>k\<in>{..<16}. (word_of_nat k :: u8) \<in> {0, 1, 2, 3, 4, 5, 6, 7, 8, 9, 10, 11, 12, 13, 14, 15}"
    by (simp add: lessThan_nat_numeral lessThan_Suc)
  ultimately have "word_of_nat (unat n) \<in> {0, 1, 2, 3, 4, 5, 6, 7, 8, 9, 10, 11, 12, 13, 14, 15 :: u8}" by blast
  then show ?thesis by simp
qed

lemma hex_digit_char: "n < 16 \<Longrightarrow> hex_digit (hex_char n) = Some n"
  by (drule nibble_cases) (elim insertE; simp add: hex_digit_def hex_char_def)

lemma hex_char_plain:
  "n < 16 \<Longrightarrow> \<not> is_ascii_whitespace (hex_char n) \<and> hex_char n \<noteq> 0x2c \<and> hex_char n \<noteq> 0x78 \<and> hex_char n \<noteq> 0x58 \<and> hex_char n \<noteq> 0x5c"
  by (drule nibble_cases) (elim insertE; simp add: is_ascii_whitespace_def hex_char_def)

lemma high_nibble: "drop_bit 4 (b :: u8) < 16"
proof -
  have "unat (drop_bit 4 b) = unat b div 16" by (simp only: unat_drop_bit_eq) (simp add: drop_bit_eq_div)
  moreover have "unat b < 256" using unsigned_less [of b] by simp
  ultimately show ?thesis by (simp add: word_less_nat_alt)
qed

lemma low_nibble: "(b :: u8) AND 0x0f < 16"
proof -
  have "b AND 0x0f \<le> 0x0f" by (rule word_and_le1)
  then show ?thesis by (rule le_less_trans) simp
qed

lemma nibbles_byte: "push_bit 4 (drop_bit 4 b) OR (b AND 0x0f) = (b :: u8)"
proof -
  have "(0x0f :: u8) = mask 4" by (simp add: mask_eq_exp_minus_1)
  then show ?thesis by (simp only:) (auto intro!: bit_word_eqI simp only: bit_simps, auto)
qed

definition nibbles :: "u8 \<Rightarrow> u8 list" where
  "nibbles b = [drop_bit 4 b, b AND 0x0f]"

lemma paste_pair:
  assumes "rest = [] \<or> hd rest \<noteq> 0x78 \<and> hd rest \<noteq> 0x58"
  shows "paste_loop (hex_pair b @ rest) digits = paste_loop rest (digits @ nibbles b)"
proof -
  have "\<not> prefixed (hex_char (b AND 0x0f) # rest)" using assms by (cases rest) auto
  then show ?thesis
    using hex_char_plain [OF high_nibble, of b] hex_char_plain [OF low_nibble, of b]
    by (simp add: hex_pair_def nibbles_def hex_digit_char high_nibble low_nibble)
qed

lemma paste_prefixed:
  assumes "p = 0x30 \<or> p = 0x5c" "even (length digits)"
    and "rest = [] \<or> hex_digit (hd rest) = None \<or> zero_prefixed rest"
  shows "paste_loop (p # 0x78 # hex_pair b @ rest) digits = paste_loop rest (digits @ nibbles b)"
proof -
  have "\<not> is_ascii_whitespace p" "p \<noteq> 0x2c" using assms(1) by (auto simp: is_ascii_whitespace_def)
  moreover have "\<not> ((case rest of [] \<Rightarrow> False | c # _ \<Rightarrow> hex_digit c \<noteq> None) \<and> \<not> zero_prefixed rest)"
    using assms(3) by (cases rest) auto
  ultimately show ?thesis using assms(1,2)
    by (auto simp: hex_pair_def nibbles_def hex_digit_char high_nibble low_nibble)
qed

lemma paste_separator [simp]:
  "even (length digits) \<Longrightarrow> paste_loop (0x20 # rest) digits = paste_loop rest digits"
  "even (length digits) \<Longrightarrow> paste_loop (0x2c # rest) digits = paste_loop rest digits"
  by (simp_all add: is_ascii_whitespace_def)

declare paste_loop.simps(2) [simp del]

lemma paste_last [simp]:
  "paste_loop (hex_pair b) digits = Inr (digits @ nibbles b)"
  "even (length digits) \<Longrightarrow> paste_loop (0x30 # 0x78 # hex_pair b) digits = Inr (digits @ nibbles b)"
  "even (length digits) \<Longrightarrow> paste_loop (0x5c # 0x78 # hex_pair b) digits = Inr (digits @ nibbles b)"
  using paste_pair [of "[]" b digits] paste_prefixed [of _ digits "[]" b] by simp_all

lemma length_nibbles [simp]: "length (nibbles b) = 2"
  by (simp add: nibbles_def)

lemma paste_join:
  assumes item: "\<And>b rest digits. even (length digits) \<Longrightarrow> rest = [] \<or> (\<exists>b' r. rest = sep @ item b' @ r) \<Longrightarrow>
      paste_loop (item b @ rest) digits = paste_loop (drop (length sep) rest) (digits @ nibbles b)"
  shows "even (length digits) \<Longrightarrow>
    paste_loop (join_bytes sep (map item bs)) digits = Inr (digits @ concat (map nibbles bs))"
proof (induction bs arbitrary: digits)
  case (Cons b bs)
  have ev: "even (length (digits @ nibbles b))" using Cons.prems by (simp add: nibbles_def)
  show ?case
  proof (cases bs)
    case Nil
    then show ?thesis using item [of digits "[]" b] Cons.prems by simp
  next
    case (Cons b' bs')
    have "\<exists>r. join_bytes sep (map item bs) = item b' @ r" using Cons by (cases bs') auto
    then have "paste_loop (item b @ sep @ join_bytes sep (map item bs)) digits = paste_loop (join_bytes sep (map item bs)) (digits @ nibbles b)"
      using item [of digits "sep @ join_bytes sep (map item bs)" b] Cons.prems by auto
    then show ?thesis using Cons.IH [OF ev] Cons by simp
  qed
qed simp

lemma pair_nibbles: "pair_bytes (concat (map nibbles bs)) = bs"
  by (induction bs) (simp_all add: nibbles_def nibbles_byte)

lemma even_nibbles: "even (length (concat (map nibbles bs)))"
  by (induction bs) (simp_all add: nibbles_def)

lemma hex_pair_hd: "hd (hex_pair b @ r) = hex_char (drop_bit 4 b)"
  by (simp add: hex_pair_def)

lemma paste_format:
  assumes "format \<noteq> Ascii"
  shows "paste_loop (format_hex bs format) [] = Inr (concat (map nibbles bs))"
proof (cases format)
  case Hex
  have "paste_loop (join_bytes [0x20] (map hex_pair bs)) [] = Inr ([] @ concat (map nibbles bs))"
    by (rule paste_join) (auto simp: paste_pair is_ascii_whitespace_def)
  then show ?thesis using Hex by (simp add: format_hex_def)
next
  case Compact
  have "paste_loop (join_bytes [] (map hex_pair bs)) [] = Inr ([] @ concat (map nibbles bs))"
    using hex_char_plain [OF high_nibble] by (intro paste_join) (auto simp: paste_pair hex_pair_hd)
  then show ?thesis using Compact by (simp add: format_hex_def)
next
  case CArray
  have none: "hex_digit 0x2c = None" by (simp add: hex_digit_def)
  have "paste_loop (join_bytes [0x2c, 0x20] (map (\<lambda>b. [0x30, 0x78] @ hex_pair b) bs)) [] = Inr ([] @ concat (map nibbles bs))"
    by (rule paste_join) (auto simp: paste_prefixed none is_ascii_whitespace_def)
  then show ?thesis using CArray by (simp add: format_hex_def)
next
  case Escaped
  have none: "hex_digit 0x5c = None" by (simp add: hex_digit_def)
  have "paste_loop (join_bytes [] (map (\<lambda>b. [0x5c, 0x78] @ hex_pair b) bs)) [] = Inr ([] @ concat (map nibbles bs))"
    by (rule paste_join) (auto simp: paste_prefixed none)
  then show ?thesis using Escaped by (simp add: format_hex_def)
qed (use assms in simp)

section \<open>When an operation panics\<close>

definition hex_ok :: "HexDocument \<Rightarrow> bool" where
  "hex_ok d \<longleftrightarrow> byte_index (hex_cursor d) \<le> length (hex_bytes d) \<and>
     (nibble (hex_cursor d) = Low \<longrightarrow> pending_nibble d \<noteq> None \<or> byte_index (hex_cursor d) < length (hex_bytes d)) \<and>
     (pending_nibble d \<noteq> None \<longrightarrow> nibble (hex_cursor d) = Low)"

text \<open>A selection that reaches past the bytes.\<close>

definition stale :: "HexDocument \<Rightarrow> bool" where
  "stale d = (case hex_selected d of None \<Rightarrow> False | Some (start, stop) \<Rightarrow> length (hex_bytes d) < stop)"

inductive hex_step :: "HexDocument \<Rightarrow> HexDocument \<Rightarrow> bool" where
  h_move: "hex_step d (move_hex_cursor c extending d)"
| h_all: "hex_step d (select_all_bytes d)"
| h_cancel: "hex_step d (cancel_selection d)"
| h_type: "type_nibble n d = Inr d' \<Longrightarrow> hex_step d d'"
| h_insert: "insert_bytes new d = Inr d' \<Longrightarrow> hex_step d d'"
| h_delete: "delete_byte backwards d = Inr d' \<Longrightarrow> hex_step d d'"

lemma delete_selection_cases:
  assumes "hex_ok d"
  obtains (stale) "stale d" "delete_selection d = Inl OutOfBounds"
    | (none) "\<not> stale d" "delete_selection d = Inr (False, d)"
    | (deleted) d' where "\<not> stale d" "delete_selection d = Inr (True, d')" "hex_ok d'" "nibble (hex_cursor d') = High"
        "pending_nibble d' = None" "hex_selection d' = None"
proof (cases "hex_selected d")
  case None
  then show thesis using none by (simp add: stale_def delete_selection_def)
next
  case (Some r)
  obtain a b where r: "r = (a, b)" by fastforce
  then have "a < b" using Some by (auto simp: hex_selected_def selection_range_def split: option.splits if_splits)
  then show thesis using Some r stale deleted
    by (cases "length (hex_bytes d) < b") (auto simp: stale_def delete_selection_def hex_ok_def)
qed

lemma type_nibble_panics:
  assumes "hex_ok d"
  shows "type_nibble n d = Inl p \<longleftrightarrow> n \<le> 15 \<and> stale d \<and> p = OutOfBounds"
  using assms
proof (cases rule: delete_selection_cases)
  case none
  have "byte_index (hex_cursor d) = length (hex_bytes d) \<or> byte_index (hex_cursor d) < length (hex_bytes d)"
    using assms by (auto simp: hex_ok_def)
  then show ?thesis using none assms
    by (cases "nibble (hex_cursor d)"; cases "pending_nibble d") (auto simp: type_nibble_def hex_ok_def Let_def)
qed (auto simp: type_nibble_def Let_def not_less)

lemma insert_bytes_panics:
  assumes "hex_ok d"
  shows "insert_bytes new d = Inl p \<longleftrightarrow> new \<noteq> [] \<and> stale d \<and> p = OutOfBounds"
  using assms by (cases rule: delete_selection_cases [OF assms]) (auto simp: insert_bytes_def hex_ok_def Let_def)

lemma delete_byte_panics:
  assumes "hex_ok d"
  shows "delete_byte backwards d = Inl p \<longleftrightarrow> pending_nibble d = None \<and> stale d \<and> p = OutOfBounds"
  using assms by (cases rule: delete_selection_cases [OF assms]) (auto simp: delete_byte_def hex_ok_def Let_def)

lemma selected_bytes_panics: "selected_bytes d = Inl p \<longleftrightarrow> stale d \<and> p = OutOfBounds"
  by (auto simp: selected_bytes_def stale_def split: option.splits)

lemma type_nibble_ok: assumes "hex_ok d" "type_nibble n d = Inr d'" shows "hex_ok d'"
  using assms
  by (cases rule: delete_selection_cases [OF assms(1)])
    (auto simp: type_nibble_def hex_ok_def Let_def split: if_splits HexNibble.splits option.splits)

lemma insert_bytes_ok: assumes "hex_ok d" "insert_bytes new d = Inr d'" shows "hex_ok d'"
  using assms
  by (cases rule: delete_selection_cases [OF assms(1)]) (auto simp: insert_bytes_def hex_ok_def Let_def split: if_splits)

lemma delete_byte_ok: assumes "hex_ok d" "delete_byte backwards d = Inr d'" shows "hex_ok d'"
  using assms
  by (cases rule: delete_selection_cases [OF assms(1)]) (auto simp: delete_byte_def hex_ok_def Let_def split: if_splits)

lemma moves_ok [simp]:
  "hex_ok (move_hex_cursor c extending d)" "hex_ok (select_all_bytes d)"
  "hex_ok d \<Longrightarrow> hex_ok (cancel_selection d)"
  by (auto simp: hex_ok_def move_hex_cursor_def select_all_bytes_def cancel_selection_def Let_def)

lemma hex_step_ok:
  assumes "hex_step d d'" "hex_ok d"
  shows "hex_ok d'"
  using assms
proof cases
  case (h_type n)
  then show ?thesis using type_nibble_ok assms(2) by blast
next
  case (h_insert new)
  then show ?thesis using insert_bytes_ok assms(2) by blast
next
  case (h_delete backwards)
  then show ?thesis using delete_byte_ok assms(2) by blast
qed (use assms(2) in simp_all)


section \<open>Typing\<close>

fun type_all :: "u8 list \<Rightarrow> HexDocument \<Rightarrow> panic + HexDocument" where
  "type_all [] d = Inr d"
| "type_all (n # ns) d = and_then (type_nibble n d) (type_all ns)"

definition overwrite :: "nat \<Rightarrow> u8 list \<Rightarrow> u8 list \<Rightarrow> u8 list" where
  "overwrite i new bs = take i bs @ new @ drop (i + length new) bs"

lemma nibble_le_15 [simp]: "\<not> 15 < drop_bit 4 (b :: u8)" "\<not> 15 < (b :: u8) AND 0x0f"
  using high_nibble [of b] low_nibble [of b] by (simp_all add: word_less_nat_alt word_le_nat_alt not_less)

lemma type_byte:
  assumes "hex_ok d" "nibble (hex_cursor d) = High" "hex_selected d = None"
  shows "type_all (nibbles b) d = Inr (d\<lparr>hex_bytes := overwrite (byte_index (hex_cursor d)) [b] (hex_bytes d),
    hex_cursor := \<lparr>byte_index = byte_index (hex_cursor d) + 1, nibble = High\<rparr>\<rparr>)"
proof -
  have le: "byte_index (hex_cursor d) \<le> length (hex_bytes d)" and none: "pending_nibble d = None"
    using assms by (auto simp: hex_ok_def)
  let ?d = "d\<lparr>pending_nibble := Some (drop_bit 4 b), hex_cursor := (hex_cursor d)\<lparr>nibble := Low\<rparr>\<rparr>"
  have first: "type_nibble (drop_bit 4 b) d = Inr ?d"
    using assms by (simp add: type_nibble_def delete_selection_def Let_def)
  have sel: "delete_selection ?d = Inr (False, ?d)"
    using assms(3) by (simp add: delete_selection_def hex_selected_def split: option.splits if_splits)
  have "type_nibble (b AND 0x0f) ?d = Inr (d\<lparr>hex_bytes := overwrite (byte_index (hex_cursor d)) [b] (hex_bytes d),
    hex_cursor := \<lparr>byte_index = byte_index (hex_cursor d) + 1, nibble = High\<rparr>\<rparr>)"
    using le none unfolding type_nibble_def sel
    by (cases d) (auto simp: Let_def nibbles_byte overwrite_def upd_conv_take_nth_drop)
  then show ?thesis using first by (simp add: nibbles_def)
qed

lemma overwrite_overwrite: "i \<le> length bs \<Longrightarrow> overwrite (i + 1) new (overwrite i [b] bs) = overwrite i (b # new) bs"
  by (simp add: overwrite_def add.commute)

lemma type_all_append: "type_all (ms @ ns) d = and_then (type_all ms d) (type_all ns)"
proof (induction ms arbitrary: d)
  case (Cons m ms)
  then show ?case by (cases "type_nibble m d") simp_all
qed simp

lemma type_bytes:
  assumes "hex_ok d" "nibble (hex_cursor d) = High" "hex_selected d = None"
  shows "type_all (concat (map nibbles new)) d = Inr (d\<lparr>hex_bytes := overwrite (byte_index (hex_cursor d)) new (hex_bytes d),
    hex_cursor := \<lparr>byte_index = byte_index (hex_cursor d) + length new, nibble = High\<rparr>\<rparr>)"
  using assms
proof (induction new arbitrary: d)
  case Nil
  then show ?case by (cases d; cases "hex_cursor d") (simp add: overwrite_def)
next
  case (Cons b new)
  let ?d = "d\<lparr>hex_bytes := overwrite (byte_index (hex_cursor d)) [b] (hex_bytes d),
    hex_cursor := \<lparr>byte_index = byte_index (hex_cursor d) + 1, nibble = High\<rparr>\<rparr>"
  have le: "byte_index (hex_cursor d) \<le> length (hex_bytes d)" using Cons.prems by (simp add: hex_ok_def)
  have "hex_ok ?d" using Cons.prems by (auto simp: hex_ok_def overwrite_def)
  moreover have "hex_selected ?d = None" using Cons.prems(3) by (simp add: hex_selected_def)
  ultimately have "type_all (concat (map nibbles new)) ?d = Inr (?d\<lparr>hex_bytes := overwrite (byte_index (hex_cursor ?d)) new (hex_bytes ?d),
    hex_cursor := \<lparr>byte_index = byte_index (hex_cursor ?d) + length new, nibble = High\<rparr>\<rparr>)"
    by (intro Cons.IH) simp_all
  then show ?case using Cons.prems le overwrite_overwrite [OF le, of new b] by (simp add: type_all_append type_byte)
qed


section \<open>Properties\<close>

text \<open>C32. Copy and paste of bytes. Bytes copied in any of the hexadecimal formats are pasted back as the
  same bytes.\<close>

theorem hex_paste_roundtrip:
  assumes "format \<noteq> Ascii"
  shows "parse_hex_paste (format_hex bs format) = Inr bs"
  using paste_format [OF assms, of bs] by (simp add: parse_hex_paste_def even_nibbles pair_nibbles)

theorem hex_paste_roundtrip_witness:
  "format_hex [0x00, 0x0a, 0xff] CArray = map (of_nat \<circ> of_char) ''0x00, 0x0A, 0xFF'' \<and>
   parse_hex_paste (map (of_nat \<circ> of_char) ''0x00, 0x0A, 0xFF'') = Inr [0x00, 0x0a, 0xff]"
proof -
  have "format_hex [0x00, 0x0a, 0xff] CArray = map (of_nat \<circ> of_char) ''0x00, 0x0A, 0xFF''"
    by code_simp
  then show ?thesis using hex_paste_roundtrip [of CArray "[0x00, 0x0a, 0xff]"] by simp
qed

text \<open>C23. The byte editor. In every state that is reached from a loaded file the cursor is within the
  bytes and a half-typed byte has its cursor on the second half; typing, inserting, deleting and copying
  panic exactly when the stored selection is not empty and reaches past the bytes, and typing the digits of
  bytes at the first half of a byte with nothing selected overwrites from there on.\<close>

theorem hex_document_sound:
  assumes "reachable (\<lambda>d. \<exists>bs. d = set_bytes bs) hex_step d"
  shows "hex_ok d \<and>
    (type_nibble n d = Inl p \<longleftrightarrow> n \<le> 15 \<and> stale d \<and> p = OutOfBounds) \<and>
    (insert_bytes new d = Inl p \<longleftrightarrow> new \<noteq> [] \<and> stale d \<and> p = OutOfBounds) \<and>
    (delete_byte backwards d = Inl p \<longleftrightarrow> pending_nibble d = None \<and> stale d \<and> p = OutOfBounds) \<and>
    (selected_bytes d = Inl p \<longleftrightarrow> stale d \<and> p = OutOfBounds) \<and>
    (nibble (hex_cursor d) = High \<and> hex_selected d = None \<longrightarrow>
      type_all (concat (map nibbles new)) d = Inr (d\<lparr>hex_bytes := overwrite (byte_index (hex_cursor d)) new (hex_bytes d),
        hex_cursor := \<lparr>byte_index = byte_index (hex_cursor d) + length new, nibble = High\<rparr>\<rparr>))"
proof -
  have "hex_ok d" using assms
  proof (rule reachable_invariant)
    fix d assume "\<exists>bs. d = set_bytes bs"
    then show "hex_ok d" by (auto simp: set_bytes_def hex_ok_def)
  next
    fix d d' assume "hex_ok d" "hex_step d d'"
    then show "hex_ok d'" using hex_step_ok by blast
  qed
  then show ?thesis
    by (simp add: type_nibble_panics insert_bytes_panics delete_byte_panics selected_bytes_panics type_bytes)
qed

theorem hex_document_sound_witness:
  "type_all [0x4, 0x1, 0x4, 0x2] (move_hex_cursor \<lparr>byte_index = 1, nibble = High\<rparr> False (set_bytes [0, 0])) =
     Inr \<lparr>hex_bytes = [0, 0x41, 0x42], hex_cursor = \<lparr>byte_index = 3, nibble = High\<rparr>, hex_selection = None, pending_nibble = None\<rparr>"
proof -
  let ?d = "move_hex_cursor \<lparr>byte_index = 1, nibble = High\<rparr> False (set_bytes [0, 0])"
  have d: "?d = \<lparr>hex_bytes = [0, 0], hex_cursor = \<lparr>byte_index = 1, nibble = High\<rparr>, hex_selection = None, pending_nibble = None\<rparr>"
    by (simp add: move_hex_cursor_def set_bytes_def)
  have "reachable (\<lambda>d. \<exists>bs. d = set_bytes bs) hex_step (set_bytes [0, 0])" by (rule start) blast
  then have "reachable (\<lambda>d. \<exists>bs. d = set_bytes bs) hex_step ?d" by (rule move) (rule h_move)
  moreover have "concat (map nibbles [0x41, 0x42]) = [0x4, 0x1, 0x4, 0x2]" by code_simp
  ultimately show ?thesis using hex_document_sound [of ?d _ _ "[0x41, 0x42]"]
    unfolding d by (simp add: hex_selected_def overwrite_def del: type_all.simps)
qed

text \<open>A selection outlives the byte it stands on. Extending the selection at the last position leaves an
  empty selection there; deleting backwards keeps it, and extending from it to the start selects one byte more
  than there are, so that copying and deleting panic.\<close>

theorem hex_document_stale:
  assumes "bs \<noteq> []" "c = \<lparr>byte_index = length bs, nibble = half\<rparr>"
  shows "\<exists>d. delete_byte True (move_hex_cursor c True (move_hex_cursor c False (set_bytes bs))) = Inr d \<and>
    hex_bytes d = butlast bs \<and>
    delete_byte backwards (move_hex_cursor \<lparr>byte_index = 0, nibble = half\<rparr> True d) = Inl OutOfBounds \<and>
    selected_bytes (move_hex_cursor \<lparr>byte_index = 0, nibble = half\<rparr> True d) = Inl OutOfBounds"
proof -
  let ?n = "length bs"
  have moved: "move_hex_cursor c True (move_hex_cursor c False (set_bytes bs)) =
      \<lparr>hex_bytes = bs, hex_cursor = \<lparr>byte_index = ?n, nibble = High\<rparr>,
       hex_selection = Some \<lparr>sel_anchor = ?n, sel_end = ?n\<rparr>, pending_nibble = None\<rparr>"
    using assms by (simp add: move_hex_cursor_def set_bytes_def selection_anchor_def Let_def)
  let ?d = "\<lparr>hex_bytes = butlast bs, hex_cursor = \<lparr>byte_index = ?n - 1, nibble = High\<rparr>,
       hex_selection = Some \<lparr>sel_anchor = ?n, sel_end = ?n\<rparr>, pending_nibble = None\<rparr>"
  have deleted: "delete_byte True (move_hex_cursor c True (move_hex_cursor c False (set_bytes bs))) = Inr ?d"
    using assms(1) unfolding moved
    by (simp add: delete_byte_def delete_selection_def hex_selected_def selection_range_def Let_def butlast_conv_take)
  let ?d' = "move_hex_cursor \<lparr>byte_index = 0, nibble = half\<rparr> True ?d"
  have "hex_selected ?d' = Some (0, ?n)" "hex_bytes ?d' = butlast bs" "pending_nibble ?d' = None"
    using assms(1) by (simp_all add: move_hex_cursor_def hex_selected_def selection_range_def selection_anchor_def Let_def)
  then have "stale ?d'" "pending_nibble ?d' = None" using assms(1) by (simp_all add: stale_def)
  then show ?thesis using deleted by (simp add: delete_byte_panics selected_bytes_panics)
qed

theorem hex_document_stale_witness:
  "\<exists>d. delete_byte True (move_hex_cursor \<lparr>byte_index = 2, nibble = High\<rparr> True
       (move_hex_cursor \<lparr>byte_index = 2, nibble = High\<rparr> False (set_bytes [1, 2]))) = Inr d \<and>
     selected_bytes (move_hex_cursor \<lparr>byte_index = 0, nibble = High\<rparr> True d) = Inl OutOfBounds"
  using hex_document_stale [of "[1, 2]" "\<lparr>byte_index = 2, nibble = High\<rparr>" High True] by auto

end
