(* ===== verification/Tmux_Control.thy ===== *)
theory Tmux_Control
  imports Prelude "HOL-Library.Monad_Syntax"
begin

text \<open>
  The line protocol of tmux in control mode (\<open>tmux/control.rs\<close> of the transport crate): the buffer that cuts the
  byte stream into lines, the octal escaping of pane output, the layout strings and the parser of one line. A
  \<open>str\<close> is its UTF-8 bytes as a \<open>string\<close>; unsigned integers are naturals, with the limit of their type where
  text is parsed.
\<close>


section \<open>Text\<close>

text \<open>\<open>String::from_utf8_lossy\<close>: the first character, or the longest prefix of one that is not continued, with
  whether it is a character.\<close>

definition cont_at :: "nat \<Rightarrow> u8 list \<Rightarrow> bool" where
  "cont_at i bs \<longleftrightarrow> i < length bs \<and> utf8_cont (bs ! i)"

definition second_ok :: "u8 \<Rightarrow> u8 list \<Rightarrow> bool" where
  "second_ok b bs \<longleftrightarrow> cont_at 0 bs \<and> (b = 0xE0 \<longrightarrow> 0xA0 \<le> bs ! 0) \<and> (b = 0xED \<longrightarrow> bs ! 0 \<le> 0x9F) \<and>
     (b = 0xF0 \<longrightarrow> 0x90 \<le> bs ! 0) \<and> (b = 0xF4 \<longrightarrow> bs ! 0 \<le> 0x8F)"

definition utf8_head :: "u8 \<Rightarrow> u8 list \<Rightarrow> nat \<times> bool" where
  "utf8_head b bs =
     (if b < 0x80 then (1, True)
      else if 0xC2 \<le> b \<and> b \<le> 0xDF then if cont_at 0 bs then (2, True) else (1, False)
      else if 0xE0 \<le> b \<and> b \<le> 0xEF then
        if second_ok b bs then if cont_at 1 bs then (3, True) else (2, False) else (1, False)
      else if 0xF0 \<le> b \<and> b \<le> 0xF4 then
        if second_ok b bs then
          if cont_at 1 bs then if cont_at 2 bs then (4, True) else (3, False) else (2, False)
        else (1, False)
      else (1, False))"

function from_utf8_lossy :: "u8 list \<Rightarrow> u8 list" where
  "from_utf8_lossy [] = []"
| "from_utf8_lossy (b # bs) =
     (if snd (utf8_head b bs) then take (fst (utf8_head b bs)) (b # bs) else [0xEF, 0xBF, 0xBD])
     @ from_utf8_lossy (drop (fst (utf8_head b bs)) (b # bs))"
  by pat_completeness auto
termination by (relation "measure length") (auto simp: utf8_head_def)

text \<open>Length in bytes of the white space character that a text starts with, 0 when it starts with none. The
  walks below may go byte by byte: no byte after the first of a character starts a white space character.\<close>

definition ws_len :: "string \<Rightarrow> nat" where
  "ws_len s =
     (let at = (\<lambda>i. if i < length s then of_char (s ! i) else (0 :: nat)) in
      if 0x09 \<le> at 0 \<and> at 0 \<le> 0x0d \<or> at 0 = 0x20 then 1
      else if at 0 = 0xc2 \<and> (at 1 = 0x85 \<or> at 1 = 0xa0) then 2
      else if at 0 = 0xe1 \<and> at 1 = 0x9a \<and> at 2 = 0x80
        \<or> at 0 = 0xe2 \<and> at 1 = 0x80 \<and> (0x80 \<le> at 2 \<and> at 2 \<le> 0x8a \<or> at 2 = 0xa8 \<or> at 2 = 0xa9 \<or> at 2 = 0xaf)
        \<or> at 0 = 0xe2 \<and> at 1 = 0x81 \<and> at 2 = 0x9f
        \<or> at 0 = 0xe3 \<and> at 1 = 0x80 \<and> at 2 = 0x80 then 3
      else 0)"

lemma ws_len_le: "ws_len s \<le> length s"
  by (cases s; cases "tl s") (auto simp: ws_len_def Let_def not_less Suc_le_eq split: if_splits)

function trim_start :: "string \<Rightarrow> string" where
  "trim_start s = (if ws_len s = 0 then s else trim_start (drop (ws_len s) s))"
  by auto
termination
proof (relation "measure length")
  fix s :: string
  assume "ws_len s \<noteq> 0"
  then show "(drop (ws_len s) s, s) \<in> measure length" using ws_len_le [of s] by simp
qed simp

declare trim_start.simps [simp del]

function split_whitespace :: "string \<Rightarrow> string \<Rightarrow> string list" where
  "split_whitespace word [] = (if word = [] then [] else [word])"
| "split_whitespace word (c # s) =
     (if ws_len (c # s) = 0 then split_whitespace (word @ [c]) s
      else (if word = [] then [] else [word]) @ split_whitespace [] (drop (ws_len (c # s)) (c # s)))"
  by pat_completeness auto
termination
proof (relation "measure (\<lambda>(_, s). length s)")
  fix word s and c :: char
  assume "ws_len (c # s) \<noteq> 0"
  then show "(([], drop (ws_len (c # s)) (c # s)), word, c # s) \<in> measure (\<lambda>(_, s). length s)" by simp
qed simp_all

declare split_whitespace.simps(2) [simp del]

abbreviation words :: "string \<Rightarrow> string list" where
  "words s \<equiv> split_whitespace [] s"

definition part :: "nat \<Rightarrow> 'a list \<Rightarrow> 'a option" where
  "part i xs = (if i < length xs then Some (xs ! i) else None)"

definition parse_u64 :: "string \<Rightarrow> nat option" where
  "parse_u64 s = (case from_str_radix 10 (2 ^ 64 - 1) s of Inl _ \<Rightarrow> None | Inr n \<Rightarrow> Some n)"


section \<open>Lines\<close>

record ControlParser =
  cp_bytes :: "u8 list"
  consumed :: nat

definition control_new :: ControlParser where
  "control_new = \<lparr>cp_bytes = [], consumed = 0\<rparr>"

definition push_bytes :: "u8 list \<Rightarrow> ControlParser \<Rightarrow> panic + ControlParser" where
  "push_bytes data p =
     (if 0 < consumed p
      then if length (cp_bytes p) < consumed p then Inl OutOfBounds
           else Inr (p\<lparr>cp_bytes := drop (consumed p) (cp_bytes p) @ data, consumed := 0\<rparr>)
      else Inr (p\<lparr>cp_bytes := cp_bytes p @ data\<rparr>))"

definition strip_cr :: "u8 list \<Rightarrow> u8 list" where
  "strip_cr line = (if line \<noteq> [] \<and> last line = 0x0d then butlast line else line)"

definition next_line :: "ControlParser \<Rightarrow> panic + u8 list option \<times> ControlParser" where
  "next_line p =
     (if length (cp_bytes p) < consumed p then Inl OutOfBounds
      else case split_once 0x0a (drop (consumed p) (cp_bytes p)) of
          None \<Rightarrow> Inr (None, p)
        | Some (front, _) \<Rightarrow> Inr (Some (strip_cr front), p\<lparr>consumed := consumed p + length front + 1\<rparr>))"

definition take_pending :: "ControlParser \<Rightarrow> panic + u8 list \<times> ControlParser" where
  "take_pending p =
     (if length (cp_bytes p) < consumed p then Inl OutOfBounds
      else Inr (drop (consumed p) (cp_bytes p), \<lparr>cp_bytes = [], consumed = 0\<rparr>))"


section \<open>Pane output\<close>

fun unescape_octal :: "u8 list \<Rightarrow> u8 list" where
  "unescape_octal (b # a1 # a2 # a3 # rest) =
     (if b = 0x5c \<and> 0x30 \<le> a1 \<and> a1 \<le> 0x33 \<and> 0x30 \<le> a2 \<and> a2 \<le> 0x37 \<and> 0x30 \<le> a3 \<and> a3 \<le> 0x37
      then word_of_nat (unat (a1 - 0x30) * 64 + unat (a2 - 0x30) * 8 + unat (a3 - 0x30)) # unescape_octal rest
      else b # unescape_octal (a1 # a2 # a3 # rest))"
| "unescape_octal (b # rest) = b # unescape_octal rest"
| "unescape_octal [] = []"


section \<open>Layouts\<close>

datatype LayoutCell =
  LayoutCell (cell_width: nat) (cell_height: nat) (cell_x: nat) (cell_y: nat) (cell_pane: "nat option") (columns: bool)
    (children: "LayoutCell list")

definition is_leaf :: "LayoutCell \<Rightarrow> bool" where
  "is_leaf cell \<longleftrightarrow> children cell = []"

fun pane_ids :: "LayoutCell \<Rightarrow> nat list" where
  "pane_ids (LayoutCell w h x y pane cols cs) =
     (case pane of Some p \<Rightarrow> [p] | None \<Rightarrow> concat (map pane_ids cs))"

lemma find_map_cong [fundef_cong]:
  "xs = ys \<Longrightarrow> (\<And>x. x \<in> set ys \<Longrightarrow> f x = g x) \<Longrightarrow> find_map f xs = find_map g ys"
  by (induction ys arbitrary: xs) (auto split: option.splits)

fun find_pane :: "nat \<Rightarrow> LayoutCell \<Rightarrow> LayoutCell option" where
  "find_pane p (LayoutCell w h x y pane cols cs) =
     (if pane = Some p then Some (LayoutCell w h x y pane cols cs) else find_map (find_pane p) cs)"

definition is_ascii_digit :: "u8 \<Rightarrow> bool" where
  "is_ascii_digit b \<longleftrightarrow> 0x30 \<le> b \<and> b \<le> 0x39"

definition is_ascii_hexdigit :: "u8 \<Rightarrow> bool" where
  "is_ascii_hexdigit b \<longleftrightarrow> is_ascii_digit b \<or> 0x41 \<le> b \<and> b \<le> 0x46 \<or> 0x61 \<le> b \<and> b \<le> 0x66"

function u32_loop :: "u8 list \<Rightarrow> nat \<Rightarrow> nat \<Rightarrow> bool \<Rightarrow> nat \<times> nat \<times> bool" where
  "u32_loop input i val seen =
     (if i < length input \<and> is_ascii_digit (input ! i)
      then u32_loop input (i + 1) (min (2 ^ 32 - 1) (min (2 ^ 32 - 1) (val * 10) + unat (input ! i - 0x30))) True
      else (val, i, seen))"
  by auto
termination by (relation "measure (\<lambda>(input, i, _). length input - i)") auto

declare u32_loop.simps [simp del]

definition parse_u32 :: "u8 list \<Rightarrow> nat \<Rightarrow> (nat \<times> nat) option" where
  "parse_u32 input pos = (let (val, i, seen) = u32_loop input pos 0 False in if seen then Some (val, i) else None)"

definition expect :: "u8 \<Rightarrow> u8 list \<Rightarrow> nat \<Rightarrow> unit option" where
  "expect b input i = (if i < length input \<and> input ! i = b then Some () else None)"

definition cell_head :: "u8 list \<Rightarrow> nat \<Rightarrow> (nat \<times> nat \<times> nat \<times> nat \<times> nat) option" where
  "cell_head input pos = do {
     (w, i) \<leftarrow> parse_u32 input pos;
     expect 0x78 input i;
     (h, i) \<leftarrow> parse_u32 input (i + 1);
     expect 0x2c input i;
     (x, i) \<leftarrow> parse_u32 input (i + 1);
     expect 0x2c input i;
     (y, i) \<leftarrow> parse_u32 input (i + 1);
     Some (w, h, x, y, i)
   }"

lemma u32_loop_le: "u32_loop input i val seen = (v, j, s) \<Longrightarrow> i \<le> j \<and> (s \<and> \<not> seen \<longrightarrow> i < j)"
proof (induction input i val seen rule: u32_loop.induct)
  case (1 input i val seen)
  then show ?case by (subst (asm) (2) u32_loop.simps) (force split: if_splits)
qed

lemma parse_u32_less: "parse_u32 input i = Some (v, j) \<Longrightarrow> i < j"
  using u32_loop_le by (fastforce simp: parse_u32_def split: if_splits prod.splits)

lemma cell_head_less: "cell_head input pos = Some (w, h, x, y, i) \<Longrightarrow> pos < i"
  by (auto simp: cell_head_def expect_def split: bind_splits if_splits dest!: parse_u32_less)

function parse_cell :: "u8 list \<Rightarrow> nat \<Rightarrow> (LayoutCell \<times> nat) option"
  and children_loop :: "u8 list \<Rightarrow> u8 \<Rightarrow> nat \<Rightarrow> LayoutCell list \<Rightarrow> (LayoutCell list \<times> nat) option" where
  "parse_cell input pos =
     (case cell_head input pos of
        None \<Rightarrow> None
      | Some (w, h, x, y, i) \<Rightarrow>
          (case part i input of
             None \<Rightarrow> Some (LayoutCell w h x y None False [], i)
           | Some b \<Rightarrow>
               if b = 0x7b \<or> b = 0x5b then
                 (case children_loop input (if b = 0x7b then 0x7d else 0x5d) (i + 1) [] of
                    None \<Rightarrow> None
                  | Some (cs, j) \<Rightarrow> Some (LayoutCell w h x y None (b = 0x7b) cs, j))
               else if b = 0x2c then
                 (case parse_u32 input (i + 1) of
                    None \<Rightarrow> Some (LayoutCell w h x y None False [], i + 1)
                  | Some (pane, j) \<Rightarrow> Some (LayoutCell w h x y (Some pane) False [], j))
               else Some (LayoutCell w h x y None False [], i)))"
| "children_loop input closer i cs =
     (case parse_cell input i of
        None \<Rightarrow> None
      | Some (child, j) \<Rightarrow>
          (case part j input of
             None \<Rightarrow> Some (cs @ [child], j)
           | Some b \<Rightarrow>
               if b = 0x2c then children_loop input closer (j + 1) (cs @ [child])
               else if b = closer then Some (cs @ [child], j + 1)
               else Some (cs @ [child], j)))"
  by pat_completeness auto

lemma parse_cell_grows:
  "parse_cell_children_loop_dom (Inl (input, pos)) \<Longrightarrow> parse_cell input pos = Some (c, j) \<Longrightarrow> pos < j"
  "parse_cell_children_loop_dom (Inr (input, closer, pos, cs)) \<Longrightarrow> children_loop input closer pos cs = Some (cs', j) \<Longrightarrow> pos < j"
proof (induction arbitrary: c j and cs' j rule: parse_cell_children_loop.pinduct)
  case (1 input pos)
  note eq = "1.prems" [unfolded parse_cell.psimps [OF "1.hyps"]]
  obtain w h x y i where head: "cell_head input pos = Some (w, h, x, y, i)"
    using eq by (cases "cell_head input pos") auto
  note less = cell_head_less [OF head]
  show ?case
  proof (cases "part i input")
    case None
    then show ?thesis using eq head less by simp
  next
    case (Some b)
    show ?thesis
    proof (cases "b = 0x7b \<or> b = 0x5b")
      case True
      then obtain cs where "children_loop input (if b = 0x7b then 0x7d else 0x5d) (i + 1) [] = Some (cs, j)"
        using eq head Some by (auto split: option.splits)
      then have "i + 1 < j" using "1.IH" [OF head refl refl refl refl Some True] by blast
      then show ?thesis using less by simp
    next
      case False
      then show ?thesis using eq head Some less parse_u32_less [of input "i + 1"]
        by (fastforce split: option.splits if_splits)
    qed
  qed
next
  case (2 input closer i cs)
  note eq = "2.prems" [unfolded children_loop.psimps [OF "2.hyps"]]
  obtain child k where child: "parse_cell input i = Some (child, k)" using eq by (cases "parse_cell input i") auto
  have "i < k" by (rule "2.IH"(1) [OF child])
  moreover have "k + 1 < j" if "part k input = Some 0x2c" "children_loop input closer (k + 1) (cs @ [child]) = Some (cs', j)"
    by (rule "2.IH"(2) [OF child refl that(1) refl that(2)])
  ultimately show ?case using eq child by (fastforce split: option.splits if_splits)
qed

termination parse_cell
proof (relation "measure (\<lambda>a. case a of Inl (input, pos) \<Rightarrow> 2 * (length input - pos)
    | Inr (input, closer, i, cs) \<Rightarrow> 2 * (length input - i) + 1)", goal_cases)
  case (2 input pos r w r1 h r2 x r3 y i b)
  then have "pos < i" "i < length input" using cell_head_less [of input pos w h x y i] by (auto simp: part_def split: if_splits)
  then show ?case by simp
next
  case (4 input closer i cs r child j b)
  then have "i < j" "j < length input" using parse_cell_grows(1) [of input i child j] by (auto simp: part_def split: if_splits)
  then show ?case by simp
qed simp_all

declare parse_cell.simps [simp del] children_loop.simps [simp del]

definition parse_layout :: "u8 list \<Rightarrow> (LayoutCell \<times> nat) option" where
  "parse_layout input =
     (let i = length (takeWhile is_ascii_hexdigit input) in
      do { expect 0x2c input i; parse_cell input (i + 1) })"


section \<open>Messages\<close>

record BlockId =
  block_time :: nat
  block_number :: nat
  block_flags :: nat

datatype ControlMessage =
    Begin BlockId
  | End BlockId
  | Error BlockId
  | Output string "u8 list"
  | ExtendedOutput string nat "u8 list"
  | LayoutChange string LayoutCell LayoutCell string
  | WindowAdd string
  | WindowClose string
  | WindowRenamed string string
  | WindowPaneChanged string string
  | PaneExited string
  | PaneModeChanged string
  | SessionChanged string
  | SessionWindowChanged string
  | SessionRenamed string
  | SessionsChanged
  | ClientSessionChanged
  | ClientDetached string
  | Pause string
  | Continue string
  | Exit "string option"
  | ConfigError string
  | Message string
  | Ignored

definition parse_block_id :: "string \<Rightarrow> BlockId option" where
  "parse_block_id line =
     (let parts = drop 1 (words line) in
      do {
        time \<leftarrow> Option.bind (part 0 parts) parse_u64;
        number \<leftarrow> Option.bind (part 1 parts) parse_u64;
        flags \<leftarrow> Option.bind (part 2 parts) parse_u64;
        if length parts = 3 then Some \<lparr>block_time = time, block_number = number, block_flags = flags\<rparr> else None
      })"

definition id_arg :: "string \<Rightarrow> string option" where
  "id_arg token =
     (if 1 < length token \<and> (hd token = CHR ''%'' \<or> hd token = CHR ''@'' \<or> hd token = CHR ''$'') then Some token else None)"

definition rest_after_keyword :: "string \<Rightarrow> string \<Rightarrow> string option" where
  "rest_after_keyword line keyword = map_option trim_start (strip_prefix keyword line)"

definition args_id :: "string \<Rightarrow> string \<Rightarrow> string option" where
  "args_id line keyword = do { args \<leftarrow> rest_after_keyword line keyword; token \<leftarrow> part 0 (words args); id_arg token }"

definition or_else :: "'a option \<Rightarrow> 'a option \<Rightarrow> 'a option" where
  "or_else a b = (case a of None \<Rightarrow> b | Some x \<Rightarrow> Some x)"

fun split_marker :: "u8 list \<Rightarrow> u8 list \<Rightarrow> (u8 list \<times> u8 list) option" where
  "split_marker m [] = (if m = [] then Some ([], []) else None)"
| "split_marker m (b # s) =
     (case strip_prefix m (b # s) of
        Some rest \<Rightarrow> Some ([], rest)
      | None \<Rightarrow> map_option (\<lambda>(front, rest). (b # front, rest)) (split_marker m s))"

definition parse_output :: "u8 list \<Rightarrow> ControlMessage option" where
  "parse_output args = do {
     (pane, data) \<leftarrow> split_once 0x20 args;
     if utf8_valid pane then Some (Output (of_bytes pane) (unescape_octal data)) else None
   }"

definition parse_extended_output :: "u8 list \<Rightarrow> ControlMessage option" where
  "parse_extended_output args = do {
     (front, data) \<leftarrow> split_marker [0x20, 0x3a, 0x20] args;
     if utf8_valid front
     then do {
       pane \<leftarrow> part 0 (words (of_bytes front));
       age \<leftarrow> Option.bind (part 1 (words (of_bytes front))) parse_u64;
       Some (ExtendedOutput pane age (unescape_octal data))
     }
     else None
   }"

definition parse_layout_change :: "string \<Rightarrow> ControlMessage option" where
  "parse_layout_change line = do {
     args \<leftarrow> rest_after_keyword line ''%layout-change'';
     window \<leftarrow> part 0 (words args);
     token \<leftarrow> part 1 (words args);
     (layout, _) \<leftarrow> parse_layout (as_bytes token);
     let visible = (case Option.bind (part 2 (words args)) (\<lambda>t. parse_layout (as_bytes t)) of
         None \<Rightarrow> layout | Some (cell, _) \<Rightarrow> cell);
     let flags = (case part 3 (words args) of None \<Rightarrow> '''' | Some f \<Rightarrow> f);
     Some (LayoutChange window layout visible flags)
   }"

definition keyword_char :: "char \<Rightarrow> bool" where
  "keyword_char c \<longleftrightarrow>
     (let n = of_char c :: nat in 48 \<le> n \<and> n \<le> 57 \<or> 65 \<le> n \<and> n \<le> 90 \<or> 97 \<le> n \<and> n \<le> 122 \<or> n = 45)"

definition parse_text :: "string \<Rightarrow> ControlMessage option" where
  "parse_text line = do {
     rest \<leftarrow> strip_prefix ''%'' line;
     let keyword = takeWhile keyword_char rest;
     if keyword = ''begin'' then map_option Begin (parse_block_id line)
     else if keyword = ''end'' then map_option End (parse_block_id line)
     else if keyword = ''error'' then map_option Error (parse_block_id line)
     else if keyword = ''layout-change'' then parse_layout_change line
     else if keyword = ''window-add'' \<or> keyword = ''unlinked-window-add'' then
       map_option WindowAdd (or_else (args_id line ''%window-add'') (args_id line ''%unlinked-window-add''))
     else if keyword = ''window-close'' \<or> keyword = ''unlinked-window-close'' then
       map_option WindowClose (or_else (args_id line ''%window-close'') (args_id line ''%unlinked-window-close''))
     else if keyword = ''window-renamed'' then do {
       args \<leftarrow> rest_after_keyword line ''%window-renamed'';
       (window, name) \<leftarrow> split_once (CHR '' '') args;
       Some (WindowRenamed window name)
     }
     else if keyword = ''window-pane-changed'' then do {
       args \<leftarrow> rest_after_keyword line ''%window-pane-changed'';
       window \<leftarrow> part 0 (words args);
       pane \<leftarrow> part 1 (words args);
       Some (WindowPaneChanged window pane)
     }
     else if keyword = ''pane-exited'' then map_option PaneExited (args_id line ''%pane-exited'')
     else if keyword = ''pane-mode-changed'' then map_option PaneModeChanged (args_id line ''%pane-mode-changed'')
     else if keyword = ''session-changed'' then do {
       args \<leftarrow> rest_after_keyword line ''%session-changed'';
       map_option SessionChanged (part 0 (words args))
     }
     else if keyword = ''session-window-changed'' then do {
       args \<leftarrow> rest_after_keyword line ''%session-window-changed'';
       map_option SessionWindowChanged (part 1 (words args))
     }
     else if keyword = ''session-renamed'' then do {
       args \<leftarrow> rest_after_keyword line ''%session-renamed'';
       map_option SessionRenamed (part 0 (words args))
     }
     else if keyword = ''sessions-changed'' then Some SessionsChanged
     else if keyword = ''client-session-changed'' then Some ClientSessionChanged
     else if keyword = ''client-detached'' then map_option ClientDetached (rest_after_keyword line ''%client-detached'')
     else if keyword = ''pause'' then map_option Pause (args_id line ''%pause'')
     else if keyword = ''continue'' then map_option Continue (args_id line ''%continue'')
     else if keyword = ''exit'' then
       Some (Exit (case rest_after_keyword line ''%exit'' of
           Some reason \<Rightarrow> if reason = [] then None else Some reason | None \<Rightarrow> None))
     else if keyword = ''config-error'' then map_option ConfigError (rest_after_keyword line ''%config-error'')
     else if keyword = ''message'' then map_option Message (rest_after_keyword line ''%message'')
     else Some Ignored
   }"

definition parse_line :: "u8 list \<Rightarrow> ControlMessage option" where
  "parse_line line =
     (case strip_prefix (as_bytes ''%output '') line of
        Some args \<Rightarrow> parse_output args
      | None \<Rightarrow>
          (case strip_prefix (as_bytes ''%extended-output '') line of
             Some args \<Rightarrow> parse_extended_output args
           | None \<Rightarrow> parse_text (of_bytes (from_utf8_lossy line))))"


section \<open>Lines do not depend on how the stream is cut\<close>

definition parser_ok :: "ControlParser \<Rightarrow> bool" where
  "parser_ok p \<longleftrightarrow> consumed p \<le> length (cp_bytes p)"

definition pending :: "ControlParser \<Rightarrow> u8 list" where
  "pending p = drop (consumed p) (cp_bytes p)"

text \<open>The complete lines of a stream and what is left after the last of them.\<close>

definition complete_lines :: "u8 list \<Rightarrow> u8 list list" where
  "complete_lines s = map strip_cr (butlast (split_on 0x0a s))"

definition unfinished :: "u8 list \<Rightarrow> u8 list" where
  "unfinished s = last (split_on 0x0a s)"

lemma last_split_on: "d \<notin> set (last (split_on d xs))"
  by (induction xs) (auto split: list.splits if_splits)

lemma split_on_app: "split_on d (xs @ ys) = butlast (split_on d xs) @ split_on d (last (split_on d xs) @ ys)"
proof (induction xs)
  case (Cons x xs)
  obtain z zs where z: "split_on d xs = z # zs" by (cases "split_on d xs") simp_all
  show ?case
  proof (cases "zs = []")
    case True
    then show ?thesis using Cons z last_split_on [of d xs] by auto
  next
    case False
    then show ?thesis using Cons z by auto
  qed
qed simp

lemma complete_lines_append:
  "complete_lines (xs @ ys) = complete_lines xs @ complete_lines (unfinished xs @ ys)"
  by (simp add: complete_lines_def unfinished_def split_on_app [of _ xs] butlast_append)

lemma unfinished_append: "unfinished (xs @ ys) = unfinished (unfinished xs @ ys)"
  by (simp add: unfinished_def split_on_app [of _ xs])

lemma complete_lines_Cons:
  "0x0a \<notin> set l \<Longrightarrow> complete_lines (l @ 0x0a # s) = strip_cr l # complete_lines s"
  "0x0a \<notin> set l \<Longrightarrow> unfinished (l @ 0x0a # s) = unfinished s"
  by (simp_all add: complete_lines_def unfinished_def)

lemma complete_lines_Nil [simp]: "0x0a \<notin> set s \<Longrightarrow> complete_lines s = []" "0x0a \<notin> set s \<Longrightarrow> unfinished s = s"
  by (simp_all add: complete_lines_def unfinished_def)

lemma push_bytes_pending:
  assumes "parser_ok p"
  obtains p' where "push_bytes data p = Inr p'" "parser_ok p'" "pending p' = pending p @ data"
  using assms that by (cases "consumed p = 0") (auto simp: push_bytes_def parser_ok_def pending_def)

lemma next_line_pending:
  assumes "parser_ok p"
  obtains (none) "next_line p = Inr (None, p)" "0x0a \<notin> set (pending p)"
    | (one) l p' where "next_line p = Inr (Some (strip_cr l), p')" "parser_ok p'" "0x0a \<notin> set l"
        "pending p = l @ 0x0a # pending p'"
proof (cases "split_once 0x0a (pending p)")
  case None
  then have "next_line p = Inr (None, p)"
    using assms by (simp add: next_line_def parser_ok_def pending_def del: split_once_None_iff)
  then show thesis using none None by simp
next
  case (Some r)
  obtain l s where r: "r = (l, s)" by fastforce
  let ?p = "p\<lparr>consumed := consumed p + length l + 1\<rparr>"
  have split: "pending p = l @ 0x0a # s" "0x0a \<notin> set l" using split_once_Some Some r by fastforce+
  have "length (pending p) = length (cp_bytes p) - consumed p" by (simp add: pending_def)
  then have "parser_ok ?p" using assms split by (simp add: parser_ok_def)
  moreover have "pending ?p = drop (length l + 1) (pending p)" by (simp add: pending_def add.commute add.left_commute)
  then have "pending ?p = s" using split by simp
  moreover have "next_line p = Inr (Some (strip_cr l), ?p)"
    using assms Some r by (simp add: next_line_def parser_ok_def pending_def)
  ultimately show thesis using one split by blast
qed

lemma take_pending_ok: "parser_ok p \<Longrightarrow> take_pending p = Inr (pending p, control_new)"
  by (simp add: take_pending_def parser_ok_def pending_def control_new_def)

text \<open>Any interleaving of received chunks with requests for a line.\<close>

datatype parser_op = Push "u8 list" | Next

fun pushed :: "parser_op list \<Rightarrow> u8 list" where
  "pushed [] = []"
| "pushed (Push data # ops) = data @ pushed ops"
| "pushed (Next # ops) = pushed ops"

fun run_parser :: "parser_op list \<Rightarrow> ControlParser \<Rightarrow> panic + u8 list list \<times> ControlParser" where
  "run_parser [] p = Inr ([], p)"
| "run_parser (Push data # ops) p = and_then (push_bytes data p) (run_parser ops)"
| "run_parser (Next # ops) p =
     and_then (next_line p) (\<lambda>(l, p).
     and_then (run_parser ops p) (\<lambda>(ls, p). Inr ((case l of None \<Rightarrow> ls | Some l \<Rightarrow> l # ls), p)))"

lemma run_parser_lines:
  assumes "parser_ok p"
  obtains ls p' where "run_parser ops p = Inr (ls, p')" "parser_ok p'"
    "complete_lines (pending p @ pushed ops) = ls @ complete_lines (pending p')"
    "unfinished (pending p @ pushed ops) = unfinished (pending p')"
  using assms
proof (induction ops arbitrary: p thesis)
  case Nil
  then show ?case by simp
next
  case (Cons op ops)
  show ?case
  proof (cases op)
    case (Push data)
    obtain p1 where p1: "push_bytes data p = Inr p1" "parser_ok p1" "pending p1 = pending p @ data"
      by (rule push_bytes_pending [OF Cons.prems(2)])
    show ?thesis by (rule Cons.IH [OF _ p1(2)]) (use Cons.prems(1) Push p1 in simp)
  next
    case Next
    show ?thesis
      using Cons.prems(2)
    proof (cases rule: next_line_pending)
      case none
      show ?thesis by (rule Cons.IH [OF _ Cons.prems(2)]) (use Cons.prems(1) Next none in simp)
    next
      case (one l p1)
      show ?thesis
        by (rule Cons.IH [OF _ one(2)]) (use Cons.prems(1) Next one complete_lines_Cons [OF one(3)] in simp)
    qed
  qed
qed


section \<open>Escaped output comes back\<close>

definition octal :: "u8 \<Rightarrow> u8 list" where
  "octal b = [0x5c, word_of_nat (48 + unat b div 64), word_of_nat (48 + unat b div 8 mod 8), word_of_nat (48 + unat b mod 8)]"

definition escape :: "(u8 \<Rightarrow> bool) \<Rightarrow> u8 list \<Rightarrow> u8 list" where
  "escape esc bs = concat (map (\<lambda>b. if esc b then octal b else [b]) bs)"

lemma octal_digit:
  assumes "k < 8"
  shows "(0x30 :: u8) \<le> word_of_nat (48 + k)" "word_of_nat (48 + k) \<le> (0x37 :: u8)"
    "unat (word_of_nat (48 + k) - 0x30 :: u8) = k" "k < 4 \<Longrightarrow> word_of_nat (48 + k) \<le> (0x33 :: u8)"
    "word_of_nat (48 + k) \<noteq> (0x0a :: u8)" "word_of_nat (48 + k) \<noteq> (0x0d :: u8)"
proof -
  have "k = 0 \<or> k = 1 \<or> k = 2 \<or> k = 3 \<or> k = 4 \<or> k = 5 \<or> k = 6 \<or> k = 7" using assms by arith
  then show "(0x30 :: u8) \<le> word_of_nat (48 + k)" "word_of_nat (48 + k) \<le> (0x37 :: u8)"
    "unat (word_of_nat (48 + k) - 0x30 :: u8) = k" "k < 4 \<Longrightarrow> word_of_nat (48 + k) \<le> (0x33 :: u8)"
    "word_of_nat (48 + k) \<noteq> (0x0a :: u8)" "word_of_nat (48 + k) \<noteq> (0x0d :: u8)"
    by (elim disjE; simp)+
qed

lemma octal_value: "n div 64 * 64 + n div 8 mod 8 * 8 + n mod 8 = (n :: nat)"
proof -
  have "n div 8 * 8 + n mod 8 = n" "n div 8 div 8 * 8 + n div 8 mod 8 = n div 8" by (rule div_mult_mod_eq)+
  moreover have "n div 64 = n div 8 div 8" by (simp add: div_mult2_eq [symmetric])
  ultimately show ?thesis by linarith
qed

lemma unescape_octal_byte: "unescape_octal (octal b @ rest) = b # unescape_octal rest"
proof -
  have b: "unat b < 256" using unsigned_less [of b] by simp
  then have h: "unat b div 64 < 8" "unat b div 64 < 4" by simp_all
  have "unat b div 64 * 64 + unat b div 8 mod 8 * 8 + unat b mod 8 = unat b"
    by (rule octal_value)
  then have "word_of_nat (unat b div 64 * 64 + unat b div 8 mod 8 * 8 + unat b mod 8) = b" by simp
  then show ?thesis
    using octal_digit [OF h(1)] octal_digit(4) [OF h] octal_digit [of "unat b div 8 mod 8"] octal_digit [of "unat b mod 8"]
    by (simp add: octal_def)
qed

lemma unescape_octal_plain: "b \<noteq> 0x5c \<Longrightarrow> unescape_octal (b # rest) = b # unescape_octal rest"
  by (cases "b # rest" rule: unescape_octal.cases) auto

lemma unescape_escape_octal: "esc 0x5c \<Longrightarrow> unescape_octal (escape esc bs) = bs"
proof (induction bs)
  case (Cons b bs)
  then have "esc b \<or> b \<noteq> 0x5c" by auto
  with Cons show ?case by (auto simp: escape_def unescape_octal_byte unescape_octal_plain)
qed (simp add: escape_def)

lemma escape_avoids:
  assumes "esc 0x0a" "esc 0x0d"
  shows "0x0a \<notin> set (escape esc bs)" "0x0d \<notin> set (escape esc bs)"
proof -
  have "0x0a \<notin> set (octal b) \<and> 0x0d \<notin> set (octal b)" for b
  proof -
    have "unat b < 256" using unsigned_less [of b] by simp
    then have "unat b div 64 < 8" by simp
    then show ?thesis using octal_digit(5,6) [of "unat b div 64"] octal_digit(5,6) [of "unat b div 8 mod 8"]
        octal_digit(5,6) [of "unat b mod 8"] by (auto simp: octal_def)
  qed
  then show "0x0a \<notin> set (escape esc bs)" "0x0d \<notin> set (escape esc bs)" using assms by (auto simp: escape_def)
qed


section \<open>Layouts\<close>

text \<open>The layout string of a window as tmux prints it, without its checksum.\<close>

definition dec_bytes :: "nat \<Rightarrow> u8 list" where
  "dec_bytes n = as_bytes (dec_string n)"

fun join_commas :: "u8 list list \<Rightarrow> u8 list" where
  "join_commas [] = []"
| "join_commas [x] = x"
| "join_commas (x # y # xs) = x @ 0x2c # join_commas (y # xs)"

fun print_cell :: "LayoutCell \<Rightarrow> u8 list" where
  "print_cell (LayoutCell w h x y pane cols cs) =
     dec_bytes w @ 0x78 # dec_bytes h @ 0x2c # dec_bytes x @ 0x2c # dec_bytes y
     @ (case pane of
          Some p \<Rightarrow> 0x2c # dec_bytes p
        | None \<Rightarrow> (if cols then 0x7b else 0x5b) # join_commas (map print_cell cs) @ [if cols then 0x7d else 0x5d])"

text \<open>A cell of a layout: a pane, or cells side by side or stacked.\<close>

fun cell_ok :: "LayoutCell \<Rightarrow> bool" where
  "cell_ok (LayoutCell w h x y pane cols cs) \<longleftrightarrow>
     w < 2 ^ 32 \<and> h < 2 ^ 32 \<and> x < 2 ^ 32 \<and> y < 2 ^ 32 \<and>
     (case pane of Some p \<Rightarrow> p < 2 ^ 32 \<and> cs = [] \<and> \<not> cols | None \<Rightarrow> cs \<noteq> [] \<and> list_all cell_ok cs)"

fun cell_shape :: "LayoutCell \<Rightarrow> bool" where
  "cell_shape (LayoutCell w h x y pane cols cs) \<longleftrightarrow> (pane = None \<or> cs = []) \<and> list_all cell_shape cs"

lemma find_map_None_iff: "find_map f xs = None \<longleftrightarrow> (\<forall>x\<in>set xs. f x = None)"
  by (induction xs) (auto split: option.splits)

lemma find_pane_None_iff: "cell_shape c \<Longrightarrow> find_pane p c = None \<longleftrightarrow> p \<notin> set (pane_ids c)"
proof (induction c)
  case (LayoutCell w h x y pane cols cs)
  then show ?case by (cases pane) (auto simp: find_map_None_iff list_all_iff)
qed

lemma find_pane_Some: "find_pane p c = Some d \<Longrightarrow> cell_pane d = Some p"
proof (induction c)
  case (LayoutCell w h x y pane cols cs)
  then show ?case by (auto split: if_splits dest!: find_map_SomeD)
qed

lemma parse_cell_shape:
  "parse_cell input pos = Some (c, j) \<Longrightarrow> cell_shape c"
  "children_loop input closer pos cs = Some (cs', j) \<Longrightarrow> list_all cell_shape cs \<Longrightarrow> list_all cell_shape cs'"
proof (induction input pos and input closer pos cs arbitrary: c j and cs' j rule: parse_cell_children_loop.induct)
  case (1 input pos)
  note eq = "1.prems" [unfolded parse_cell.simps [of input pos]]
  obtain w h x y i where head: "cell_head input pos = Some (w, h, x, y, i)"
    using eq by (cases "cell_head input pos") auto
  show ?case
  proof (cases "part i input")
    case (Some b)
    show ?thesis
    proof (cases "b = 0x7b \<or> b = 0x5b")
      case True
      then obtain cs where cs: "children_loop input (if b = 0x7b then 0x7d else 0x5d) (i + 1) [] = Some (cs, j)"
        "c = LayoutCell w h x y None (b = 0x7b) cs"
        using eq head Some by (auto split: option.splits)
      then show ?thesis using "1.IH" [OF head refl refl refl refl Some True cs(1)] by simp
    next
      case False
      then show ?thesis using eq head Some by (auto split: option.splits if_splits)
    qed
  qed (use eq head in auto)
next
  case (2 input closer i cs)
  note eq = "2.prems"(1) [unfolded children_loop.simps [of input closer i cs]]
  obtain child k where child: "parse_cell input i = Some (child, k)" using eq by (cases "parse_cell input i") auto
  have shape: "list_all cell_shape (cs @ [child])" using "2.IH"(1) [OF child] "2.prems"(2) by simp
  then have "list_all cell_shape cs'"
    if "part k input = Some 0x2c" "children_loop input closer (k + 1) (cs @ [child]) = Some (cs', j)"
    by (rule "2.IH"(2) [OF child refl that(1) refl that(2)])
  then show ?case using eq child shape by (auto split: option.splits if_splits)
qed


subsection \<open>Reading a printed layout\<close>

definition no_digit :: "u8 list \<Rightarrow> bool" where
  "no_digit s \<longleftrightarrow> s = [] \<or> \<not> is_ascii_digit (hd s)"

lemma drop_ConsD: "drop i xs = x # r \<Longrightarrow> i < length xs \<and> xs ! i = x \<and> drop (i + 1) xs = r"
  by (metis Cons_nth_drop_Suc Suc_eq_plus1 drop_all list.distinct(1) list.inject not_le_imp_less)

lemma drop_appendD: "drop i xs = a @ b \<Longrightarrow> drop (i + length a) xs = b"
  by (metis add.commute append_eq_conv_conj drop_drop)

lemma part_drop: "part i xs = (case drop i xs of [] \<Rightarrow> None | x # _ \<Rightarrow> Some x)"
  by (auto simp: part_def split: list.splits dest: drop_ConsD)

lemma u32_loop_drop:
  assumes "drop i input = ds @ rest" "list_all is_ascii_digit ds" "no_digit rest"
  shows "u32_loop input i val seen =
    (foldl (\<lambda>v d. min (2 ^ 32 - 1) (min (2 ^ 32 - 1) (v * 10) + unat (d - 0x30))) val ds, i + length ds, seen \<or> ds \<noteq> [])"
  using assms
proof (induction ds arbitrary: i val seen)
  case Nil
  then have "\<not> (i < length input \<and> is_ascii_digit (input ! i))"
    by (metis append_Nil drop_eq_Nil hd_drop_conv_nth no_digit_def not_le)
  then show ?case by (subst u32_loop.simps) auto
next
  case (Cons d ds)
  then have d: "i < length input" "input ! i = d" "drop (i + 1) input = ds @ rest" using drop_ConsD by fastforce+
  then show ?case using Cons.IH [OF d(3)] Cons.prems(2,3) by (simp add: u32_loop.simps [of input i])
qed

lemma digit_byte:
  assumes "d < 10"
  shows "is_ascii_digit (byte_of_char (digit_char d))" "unat (byte_of_char (digit_char d) - 0x30) = d"
proof -
  have "byte_of_char (digit_char d) = word_of_nat (48 + d)" using assms by (simp add: byte_of_char_def digit_char_def)
  moreover have "d = 0 \<or> d = 1 \<or> d = 2 \<or> d = 3 \<or> d = 4 \<or> d = 5 \<or> d = 6 \<or> d = 7 \<or> d = 8 \<or> d = 9" using assms by arith
  ultimately show "is_ascii_digit (byte_of_char (digit_char d))" "unat (byte_of_char (digit_char d) - 0x30) = d"
    by (elim disjE; simp add: is_ascii_digit_def)+
qed

lemma dec_bytes_digits: "list_all is_ascii_digit (dec_bytes n)"
  using dec_string_digits [of _ n] digit_byte(1) by (fastforce simp: dec_bytes_def list_all_iff)

lemma dec_bytes_value:
  assumes "n \<le> m"
  shows "foldl (\<lambda>v d. min m (min m (v * 10) + unat (d - 0x30))) 0 (dec_bytes n) = n"
  using assms
proof (induction n rule: dec_string.induct)
  case (1 n)
  show ?case
  proof (cases "n < 10")
    case True
    then show ?thesis using 1 by (simp add: dec_bytes_def dec_string.simps [of n] digit_byte)
  next
    case False
    then have "foldl (\<lambda>v d. min m (min m (v * 10) + unat (d - 0x30))) 0 (dec_bytes (n div 10)) = n div 10" using 1 by simp
    moreover have "min m (min m (n div 10 * 10) + n mod 10) = n" using "1.prems" by simp
    ultimately show ?thesis using False by (simp add: dec_bytes_def dec_string.simps [of n] digit_byte)
  qed
qed

lemma parse_u32_dec:
  assumes "drop i input = dec_bytes n @ rest" "n < 2 ^ 32" "no_digit rest"
  shows "parse_u32 input i = Some (n, i + length (dec_bytes n))"
proof -
  have "n \<le> 2 ^ 32 - 1" using assms(2) by linarith
  note val = dec_bytes_value [OF this]
  have "dec_bytes n \<noteq> []" by (simp add: dec_bytes_def)
  then show ?thesis
    unfolding parse_u32_def u32_loop_drop [OF assms(1) dec_bytes_digits assms(3)] val by simp
qed

lemma cell_head_print:
  assumes "drop i input = dec_bytes w @ 0x78 # dec_bytes h @ 0x2c # dec_bytes x @ 0x2c # dec_bytes y @ rest"
    and "w < 2 ^ 32" "h < 2 ^ 32" "x < 2 ^ 32" "y < 2 ^ 32" "no_digit rest"
  obtains j where "cell_head input i = Some (w, h, x, y, j)" "drop j input = rest"
    "j = i + length (dec_bytes w @ 0x78 # dec_bytes h @ 0x2c # dec_bytes x @ 0x2c # dec_bytes y)"
proof -
  have sep: "no_digit (0x78 # s)" "no_digit (0x2c # s)" for s by (simp_all add: no_digit_def is_ascii_digit_def)
  define i1 where "i1 = i + length (dec_bytes w)"
  define i2 where "i2 = i1 + 1 + length (dec_bytes h)"
  define i3 where "i3 = i2 + 1 + length (dec_bytes x)"
  define i4 where "i4 = i3 + 1 + length (dec_bytes y)"
  note d1 = drop_ConsD [OF drop_appendD [OF assms(1), folded i1_def]]
  note d2 = drop_ConsD [OF drop_appendD [OF conjunct2 [OF conjunct2 [OF d1]], folded i2_def]]
  note d3 = drop_ConsD [OF drop_appendD [OF conjunct2 [OF conjunct2 [OF d2]], folded i3_def]]
  note d4 = drop_appendD [OF conjunct2 [OF conjunct2 [OF d3]], folded i4_def]
  have "parse_u32 input i = Some (w, i1)" unfolding i1_def by (rule parse_u32_dec [OF assms(1,2) sep(1)])
  moreover have "parse_u32 input (i1 + 1) = Some (h, i2)"
    unfolding i2_def by (rule parse_u32_dec [OF conjunct2 [OF conjunct2 [OF d1]] assms(3) sep(2)])
  moreover have "parse_u32 input (i2 + 1) = Some (x, i3)"
    unfolding i3_def by (rule parse_u32_dec [OF conjunct2 [OF conjunct2 [OF d2]] assms(4) sep(2)])
  moreover have "parse_u32 input (i3 + 1) = Some (y, i4)"
    unfolding i4_def by (rule parse_u32_dec [OF conjunct2 [OF conjunct2 [OF d3]] assms(5,6)])
  ultimately have "cell_head input i = Some (w, h, x, y, i4)"
    using d1 d2 d3 by (simp add: cell_head_def expect_def)
  then show thesis using that [of i4] d4 by (simp add: i1_def i2_def i3_def i4_def)
qed

lemma children_loop_print:
  assumes "\<And>c i rest. c \<in> set cs \<Longrightarrow> drop i input = print_cell c @ rest \<Longrightarrow> no_digit rest \<Longrightarrow>
      parse_cell input i = Some (c, i + length (print_cell c))"
    and "cs \<noteq> []" "drop i input = join_commas (map print_cell cs) @ closer # rest" "closer = 0x7d \<or> closer = 0x5d"
  shows "children_loop input closer i acc = Some (acc @ cs, i + length (join_commas (map print_cell cs)) + 1)"
  using assms
proof (induction cs arbitrary: i acc)
  case (Cons c cs)
  have sep: "no_digit (0x2c # s)" "no_digit (closer # s)" for s using Cons.prems(4) by (auto simp: no_digit_def is_ascii_digit_def)
  show ?case
  proof (cases cs)
    case Nil
    then have d: "drop i input = print_cell c @ closer # rest" using Cons.prems(3) by simp
    then show ?thesis using Cons.prems(1) [OF _ d sep(2)] drop_appendD [OF d] Cons.prems(4) Nil
      by (auto simp: children_loop.simps [of input closer i] part_drop)
  next
    case (Cons c' cs')
    then have d: "drop i input = print_cell c @ 0x2c # join_commas (map print_cell cs) @ closer # rest"
      using Cons.prems(3) by simp
    note d' = drop_appendD [OF d]
    have "children_loop input closer (i + length (print_cell c) + 1) (acc @ [c]) =
        Some ((acc @ [c]) @ cs, i + length (print_cell c) + 1 + length (join_commas (map print_cell cs)) + 1)"
      using Cons.prems(1,4) Cons drop_ConsD [OF d'] by (intro Cons.IH) auto
    then show ?thesis using Cons.prems(1) [OF _ d sep(1)] d' Cons
      by (simp add: children_loop.simps [of input closer i] part_drop add.assoc)
  qed
qed simp

lemma parse_cell_print:
  "cell_ok c \<Longrightarrow> drop i input = print_cell c @ rest \<Longrightarrow> no_digit rest \<Longrightarrow>
   parse_cell input i = Some (c, i + length (print_cell c))"
proof (induction c arbitrary: i rest)
  case (LayoutCell w h x y pane cols cs)
  let ?front = "dec_bytes w @ 0x78 # dec_bytes h @ 0x2c # dec_bytes x @ 0x2c # dec_bytes y"
  have bounds: "w < 2 ^ 32" "h < 2 ^ 32" "x < 2 ^ 32" "y < 2 ^ 32" using LayoutCell.prems(1) by simp_all
  show ?case
  proof (cases pane)
    case (Some p)
    have d: "drop i input = dec_bytes w @ 0x78 # dec_bytes h @ 0x2c # dec_bytes x @ 0x2c # dec_bytes y @ 0x2c # dec_bytes p @ rest"
      using LayoutCell.prems(2) Some by simp
    obtain j where j: "cell_head input i = Some (w, h, x, y, j)" "drop j input = 0x2c # dec_bytes p @ rest" "j = i + length ?front"
      by (rule cell_head_print [OF d bounds]) (simp_all add: no_digit_def is_ascii_digit_def)
    have p: "p < 2 ^ 32" using LayoutCell.prems(1) Some by simp
    have "parse_u32 input (j + 1) = Some (p, j + 1 + length (dec_bytes p))"
      using drop_ConsD [OF j(2)] by (intro parse_u32_dec [OF _ p LayoutCell.prems(3)]) blast
    then show ?thesis using j LayoutCell.prems(1) Some by (simp add: parse_cell.simps [of input i] part_drop)
  next
    case None
    define cl :: u8 where "cl = (if cols then 0x7d else 0x5d)"
    define op :: u8 where "op = (if cols then 0x7b else 0x5b)"
    have d: "drop i input = dec_bytes w @ 0x78 # dec_bytes h @ 0x2c # dec_bytes x @ 0x2c # dec_bytes y @
        op # join_commas (map print_cell cs) @ cl # rest"
      using LayoutCell.prems(2) None by (simp add: cl_def op_def)
    obtain j where j: "cell_head input i = Some (w, h, x, y, j)" "drop j input = op # join_commas (map print_cell cs) @ cl # rest"
      "j = i + length ?front"
      by (rule cell_head_print [OF d bounds]) (simp_all add: no_digit_def is_ascii_digit_def op_def)
    have ok: "cell_ok c" if "c \<in> set cs" for c using that LayoutCell.prems(1) None by (simp add: list_all_iff)
    have "children_loop input cl (j + 1) [] = Some ([] @ cs, j + 1 + length (join_commas (map print_cell cs)) + 1)"
      using LayoutCell.IH [OF _ ok] LayoutCell.prems(1) None drop_ConsD [OF j(2)]
      by (intro children_loop_print) (auto simp: cl_def)
    then show ?thesis using j None
      by (cases cols) (simp_all add: parse_cell.simps [of input i] part_drop cl_def op_def)
  qed
qed


section \<open>Output lines\<close>

text \<open>The lines tmux sends for output of pane \<open>n\<close>, plain or with its age in milliseconds.\<close>

definition output_line :: "(u8 \<Rightarrow> bool) \<Rightarrow> nat \<times> nat option \<times> u8 list \<Rightarrow> u8 list" where
  "output_line esc out =
     (case out of
        (n, None, data) \<Rightarrow> as_bytes ''%output %'' @ dec_bytes n @ 0x20 # escape esc data
      | (n, Some age, data) \<Rightarrow>
          as_bytes ''%extended-output %'' @ dec_bytes n @ 0x20 # dec_bytes age @ as_bytes '' - : '' @ escape esc data)"

definition output_message :: "nat \<times> nat option \<times> u8 list \<Rightarrow> ControlMessage" where
  "output_message out =
     (case out of
        (n, None, data) \<Rightarrow> Output (CHR ''%'' # dec_string n) data
      | (n, Some age, data) \<Rightarrow> ExtendedOutput (CHR ''%'' # dec_string n) age data)"

definition graphic :: "char \<Rightarrow> bool" where
  "graphic c \<longleftrightarrow> 0x20 < (of_char c :: nat) \<and> (of_char c :: nat) < 0x7f"

lemma ws_len_graphic: "graphic c \<Longrightarrow> ws_len (c # s) = 0"
  by (simp add: ws_len_def graphic_def)

lemma ws_len_space: "ws_len (CHR '' '' # s) = 1"
  by (simp add: ws_len_def)

lemma words_token: "list_all graphic t \<Longrightarrow> w @ t \<noteq> [] \<Longrightarrow> split_whitespace w (t @ CHR '' '' # s) = (w @ t) # words s"
proof (induction t arbitrary: w)
  case (Cons c t)
  then show ?case using Cons.IH [of "w @ [c]"] by (simp add: split_whitespace.simps(2) [of w c] ws_len_graphic)
qed (simp add: split_whitespace.simps(2) ws_len_space)

lemma digit_graphic: "list_all graphic (dec_string n)"
proof -
  have "graphic (digit_char d)" if "d < 10" for d using that by (simp add: graphic_def digit_char_def)
  then show ?thesis using dec_string_digits [of _ n] by (fastforce simp: list_all_iff)
qed

lemma graphic_byte: "graphic c \<Longrightarrow> byte_of_char c < 0x80 \<and> byte_of_char c \<noteq> 0x20 \<and> byte_of_char c \<noteq> 0x0a \<and> byte_of_char c \<noteq> 0x0d"
  by (auto simp: graphic_def word_less_nat_alt dest: arg_cong [of _ _ unat])

lemma dec_bytes_plain: "b \<in> set (dec_bytes n) \<Longrightarrow> b < 0x80 \<and> b \<noteq> 0x20 \<and> b \<noteq> 0x0a \<and> b \<noteq> 0x0d \<and> b \<noteq> 0x3a"
proof -
  assume b: "b \<in> set (dec_bytes n)"
  then have "is_ascii_digit b" using dec_bytes_digits [of n] by (simp add: list_all_iff)
  then have "b \<noteq> 0x3a" by (auto simp: is_ascii_digit_def)
  moreover obtain c where "c \<in> set (dec_string n)" "b = byte_of_char c" using b by (auto simp: dec_bytes_def)
  ultimately show ?thesis using graphic_byte [of c] digit_graphic [of n] by (auto simp: list_all_iff)
qed

lemma byte_of_char_consts [simp]:
  "byte_of_char (CHR ''%'') = 0x25" "byte_of_char (CHR '' '') = 0x20" "byte_of_char (CHR ''-'') = 0x2d" "byte_of_char (CHR '':'') = 0x3a"
  by (simp_all add: byte_of_char_def)

lemma of_bytes_dec_bytes [simp]: "of_bytes (dec_bytes n) = dec_string n"
  by (simp add: dec_bytes_def o_def map_idI)

lemma char_of_byte_consts [simp]:
  "char_of_byte 0x25 = CHR ''%''" "char_of_byte 0x20 = CHR '' ''" "char_of_byte 0x2d = CHR ''-''"
  by (metis byte_of_char_consts char_of_byte_of_char)+

lemma parse_line_output:
  assumes "esc 0x5c"
  shows "parse_line (output_line esc (n, None, data)) = Some (output_message (n, None, data))"
proof -
  let ?pane = "0x25 # dec_bytes n"
  have line: "output_line esc (n, None, data) = as_bytes ''%output '' @ ?pane @ 0x20 # escape esc data"
    by (simp add: output_line_def)
  have "0x20 \<notin> set ?pane" "utf8_valid ?pane" using dec_bytes_plain by (auto intro: utf8_valid_ascii)
  then have "parse_output (?pane @ 0x20 # escape esc data) = Some (output_message (n, None, data))"
    unfolding parse_output_def split_once_append [OF \<open>0x20 \<notin> set ?pane\<close>]
    by (simp add: output_message_def unescape_escape_octal assms)
  then show ?thesis unfolding line parse_line_def by (simp only: strip_prefix_append option.case)
qed

lemma split_marker_append:
  "0x3a \<notin> set front \<Longrightarrow> split_marker [0x20, 0x3a, 0x20] (front @ 0x20 # 0x3a # 0x20 # rest) = Some (front, rest)"
proof (induction front)
  case (Cons b front)
  then show ?case by (cases front) auto
qed simp

lemma parse_line_extended:
  assumes "esc 0x5c" "age < 2 ^ 64"
  shows "parse_line (output_line esc (n, Some age, data)) = Some (output_message (n, Some age, data))"
proof -
  let ?front = "0x25 # dec_bytes n @ 0x20 # dec_bytes age @ [0x20, 0x2d]"
  have line: "output_line esc (n, Some age, data) =
      as_bytes ''%extended-output '' @ ?front @ 0x20 # 0x3a # 0x20 # escape esc data"
    by (simp add: output_line_def)
  have front: "0x3a \<notin> set ?front" using dec_bytes_plain by auto
  have valid: "utf8_valid ?front" using dec_bytes_plain by (intro utf8_valid_ascii) auto
  have "words (of_bytes ?front) = (CHR ''%'' # dec_string n) # dec_string age # [''-'']"
    using words_token [of "CHR ''%'' # dec_string n" "[]"] words_token [of "dec_string age" "[]"]
    by (simp add: digit_graphic graphic_def split_whitespace.simps(2) ws_len_graphic)
  moreover have "parse_u64 (dec_string age) = Some age"
    using assms(2) from_str_radix_dec_string [of age "2 ^ 64 - 1"] by (simp add: parse_u64_def)
  ultimately have "parse_extended_output (?front @ 0x20 # 0x3a # 0x20 # escape esc data) = Some (output_message (n, Some age, data))"
    unfolding parse_extended_output_def split_marker_append [OF front] using valid
    by (simp add: part_def output_message_def unescape_escape_octal assms)
  moreover have "strip_prefix (as_bytes ''%output '') (as_bytes ''%extended-output '' @ s) = None" for s by simp
  ultimately show ?thesis unfolding line parse_line_def by (simp only: strip_prefix_append option.case)
qed

lemma output_line_avoids:
  assumes "esc 0x0a" "esc 0x0d"
  shows "0x0a \<notin> set (output_line esc out)" "output_line esc out \<noteq> []" "last (output_line esc out) \<noteq> 0x0d"
proof -
  obtain n age data where out: "out = (n, age, data)" by (cases out)
  have avoid: "b \<notin> set (output_line esc out)" if "b = 0x0a \<or> b = 0x0d" for b
    using that dec_bytes_plain escape_avoids [of esc data, OF assms] unfolding out
    by (cases age) (auto simp: output_line_def byte_of_char_def)
  show ne: "output_line esc out \<noteq> []" unfolding out by (cases age) (simp_all add: output_line_def)
  show "0x0a \<notin> set (output_line esc out)" "last (output_line esc out) \<noteq> 0x0d"
    using avoid last_in_set [OF ne] by metis+
qed

lemma complete_output_lines:
  assumes "esc 0x0a" "esc 0x0d" "eol = [0x0a] \<or> eol = [0x0d, 0x0a]"
  shows "complete_lines (concat (map (\<lambda>out. output_line esc out @ eol) outs)) = map (output_line esc) outs \<and>
    unfinished (concat (map (\<lambda>out. output_line esc out @ eol) outs)) = []"
proof (induction outs)
  case (Cons out outs)
  obtain cr where cr: "eol = cr @ [0x0a]" "cr = [] \<or> cr = [0x0d]" using assms(3) by auto
  have "0x0a \<notin> set (output_line esc out @ cr)" using output_line_avoids(1) [OF assms(1,2)] cr(2) by auto
  moreover have "strip_cr (output_line esc out @ cr) = output_line esc out"
    using output_line_avoids(2,3) [OF assms(1,2), of out] cr(2) by (auto simp: strip_cr_def)
  ultimately show ?case
    using Cons complete_lines_Cons [of "output_line esc out @ cr"] by (simp add: cr(1))
qed simp


section \<open>Properties\<close>

lemma control_new_ok [simp]: "parser_ok control_new" "pending control_new = []"
  by (simp_all add: control_new_def parser_ok_def pending_def)

text \<open>The line buffer of tmux control mode. However the stream is cut into chunks and whenever lines are
  asked for, no operation panics; the lines handed out, followed by the complete lines still waiting, are the
  lines of the whole stream without their line ends, in order; and what \<open>take_pending\<close> hands
  over is the rest of the stream, byte for byte.\<close>

theorem tmux_control_lines:
  "\<exists>ls p. run_parser ops control_new = Inr (ls, p) \<and> ls @ complete_lines (pending p) = complete_lines (pushed ops) \<and>
     unfinished (pending p) = unfinished (pushed ops) \<and> take_pending p = Inr (pending p, control_new) \<and>
     (next_line p = Inr (None, p)) = (0x0a \<notin> set (pending p))"
proof -
  obtain ls p where run: "run_parser ops control_new = Inr (ls, p)" "parser_ok p"
    "complete_lines (pushed ops) = ls @ complete_lines (pending p)" "unfinished (pushed ops) = unfinished (pending p)"
    by (rule run_parser_lines [OF control_new_ok(1), of ops]) simp
  have "(next_line p = Inr (None, p)) = (0x0a \<notin> set (pending p))"
    using run(2) by (cases rule: next_line_pending) simp_all
  then show ?thesis using run take_pending_ok [OF run(2)] by auto
qed

text \<open>C13. Pane output over tmux. tmux may escape any bytes as long as it escapes the backslash and the two line
  end characters: when the stream is a sequence of output lines, ended by a line feed with or
  without a carriage return and cut into chunks anywhere, then the lines handed out parse to the panes, ages and
  output bytes they were printed from, whatever bytes those are, and once no line is waiting all of them have been
  handed out.\<close>

theorem tmux_output_stream:
  assumes "esc 0x5c" "esc 0x0a" "esc 0x0d" "eol = [0x0a] \<or> eol = [0x0d, 0x0a]"
    and "\<forall>(n, age, data)\<in>set outs. \<forall>a. age = Some a \<longrightarrow> a < 2 ^ 64"
    and "pushed ops = concat (map (\<lambda>out. output_line esc out @ eol) outs)"
  shows "\<exists>ls p. run_parser ops control_new = Inr (ls, p) \<and>
    map parse_line ls = map (Some \<circ> output_message) (take (length ls) outs) \<and>
    (next_line p = Inr (None, p) \<longrightarrow> length ls = length outs)"
proof -
  obtain ls p where run: "run_parser ops control_new = Inr (ls, p)" "parser_ok p"
    "complete_lines (pushed ops) = ls @ complete_lines (pending p)"
    by (rule run_parser_lines [OF control_new_ok(1), of ops]) simp
  then have split: "map (output_line esc) outs = ls @ complete_lines (pending p)"
    using complete_output_lines [OF assms(2-4), of outs] assms(6) by simp
  have parse: "parse_line (output_line esc out) = Some (output_message out)" if "out \<in> set outs" for out
  proof (cases out)
    case (fields n age data)
    then show ?thesis using that assms(5) parse_line_output [of esc n data, OF assms(1)]
        parse_line_extended [of esc _ n data, OF assms(1)] by (cases age) auto
  qed
  have "ls = map (output_line esc) (take (length ls) outs)"
    using arg_cong [OF split, of "take (length ls)"] by (simp add: take_map)
  then have "map parse_line ls = map (parse_line \<circ> output_line esc) (take (length ls) outs)" by (metis map_map)
  also have "\<dots> = map (Some \<circ> output_message) (take (length ls) outs)"
    using parse by (intro map_cong refl) (auto dest: in_set_takeD)
  finally have lines: "map parse_line ls = map (Some \<circ> output_message) (take (length ls) outs)" .
  have "length ls = length outs" if "next_line p = Inr (None, p)"
  proof -
    have "0x0a \<notin> set (pending p)" using run(2) that by (cases rule: next_line_pending) simp_all
    then show ?thesis using arg_cong [OF split, of length] by simp
  qed
  then show ?thesis using run(1) lines by blast
qed

theorem tmux_output_stream_witness:
  "\<exists>ls p. run_parser [Push (as_bytes ''%output %1 a''), Next, Push (0x5c # as_bytes ''012''), Push [0x0d], Push [0x0a], Next] control_new =
     Inr (ls, p) \<and> map parse_line ls = [Some (Output ''%1'' [0x61, 0x0a])]"
proof -
  let ?esc = "\<lambda>b :: u8. b < 0x20 \<or> b = 0x5c"
  let ?ops = "[Push (as_bytes ''%output %1 a''), Next, Push (0x5c # as_bytes ''012''), Push [0x0d], Push [0x0a], Next]"
  have line: "output_line ?esc (1, None, [0x61, 0x0a]) = as_bytes ''%output %1 a'' @ 0x5c # as_bytes ''012''"
    by (simp add: output_line_def escape_def octal_def dec_bytes_def dec_string.simps [of "Suc 0"] byte_of_char_def)
  obtain ls p where run: "run_parser ?ops control_new = Inr (ls, p)"
    "map parse_line ls = map (Some \<circ> output_message) (take (length ls) [(1, None, [0x61, 0x0a])])"
    using tmux_output_stream [of ?esc "[0x0d, 0x0a]" "[(1, None, [0x61, 0x0a])]" ?ops] line by auto
  have "run_parser ?ops control_new = Inr ([as_bytes ''%output %1 a'' @ 0x5c # as_bytes ''012''],
      \<lparr>cp_bytes = as_bytes ''%output %1 a'' @ 0x5c # as_bytes ''012'' @ [0x0d, 0x0a], consumed = 18\<rparr>)"
    by code_simp
  then have "length ls = 1" using run(1) by (auto simp del: run_parser.simps)
  then have "map parse_line ls = [Some (Output ''%1'' [0x61, 0x0a])]"
    using run(2) by (simp add: output_message_def dec_string.simps [of "Suc 0"])
  then show ?thesis using run(1) by (intro exI conjI)
qed

text \<open>C24. Layouts. The layout string that tmux prints for a tree of cells, behind its checksum, is read back as that
  tree, to its last byte; and in every tree that is read from any string a pane is found by its number
  exactly when the tree lists it.\<close>

theorem tmux_layout_roundtrip:
  assumes "cell_ok c" "list_all is_ascii_hexdigit checksum"
  shows "parse_layout (checksum @ 0x2c # print_cell c) = Some (c, length (checksum @ 0x2c # print_cell c)) \<and>
    (parse_layout input = Some (d, n) \<longrightarrow>
      (find_pane pane d = None \<longleftrightarrow> pane \<notin> set (pane_ids d)) \<and>
      (\<forall>e. find_pane pane d = Some e \<longrightarrow> cell_pane e = Some pane))"
proof -
  let ?in = "checksum @ 0x2c # print_cell c"
  have hex: "takeWhile is_ascii_hexdigit ?in = checksum"
    using assms(2) by (subst takeWhile_append2) (auto simp: list_all_iff is_ascii_hexdigit_def is_ascii_digit_def)
  have "parse_cell ?in (length checksum + 1) = Some (c, length checksum + 1 + length (print_cell c))"
    by (rule parse_cell_print [OF assms(1), of _ _ "[]"]) (simp_all add: no_digit_def)
  then have "parse_layout ?in = Some (c, length ?in)"
    unfolding parse_layout_def hex by (simp add: expect_def)
  moreover have "cell_shape d" if "parse_layout input = Some (d, n)"
    using that by (auto simp: parse_layout_def Let_def split: bind_splits intro: parse_cell_shape(1))
  ultimately show ?thesis using find_pane_None_iff [of d pane] find_pane_Some [of pane d] by blast
qed

theorem tmux_layout_roundtrip_witness:
  "parse_layout (as_bytes ''b25f,15x4,0,0{7x4,0,0,0,7x4,8,0,1}'') =
     Some (LayoutCell 15 4 0 0 None True [LayoutCell 7 4 0 0 (Some 0) False [], LayoutCell 7 4 8 0 (Some 1) False []], 34)"
proof -
  let ?c = "LayoutCell 15 4 0 0 None True [LayoutCell 7 4 0 0 (Some 0) False [], LayoutCell 7 4 8 0 (Some 1) False []]"
  have line: "as_bytes ''b25f'' @ 0x2c # print_cell ?c = as_bytes ''b25f,15x4,0,0{7x4,0,0,0,7x4,8,0,1}''" by code_simp
  have "list_all is_ascii_hexdigit (as_bytes ''b25f'')" by code_simp
  moreover have "cell_ok ?c" by simp
  ultimately show ?thesis using tmux_layout_roundtrip [of ?c "as_bytes ''b25f''"] unfolding line by simp
qed

end
