(* ===== verification/Tmux_Handshake.thy ===== *)
theory Tmux_Handshake
  imports Tmux_Control
begin

text \<open>
  The handshake before a channel is used as a tmux control client (\<open>tmux/handshake.rs\<close> of the transport crate):
  the passive check of the startup lines, the probe that asks for a random token and waits for it in a reply block, and
  the loop that reads the channel. Reading the channel is a list of events after which the time is up; the
  random part of the token and whether writing succeeds are arguments.
\<close>


section \<open>Startup\<close>

definition CONFIRM_MAX_BYTES :: nat where
  "CONFIRM_MAX_BYTES = 512 * 1024"

definition trim_cr :: "u8 list \<Rightarrow> u8 list" where
  "trim_cr l = rev (dropWhile (\<lambda>b. b = 0x0d) (rev l))"

record Startup =
  s_block :: "BlockId option"
  s_completed :: bool
  s_session :: bool

definition startup_default :: Startup where
  "startup_default = \<lparr>s_block = None, s_completed = False, s_session = False\<rparr>"

definition session_number :: "string \<Rightarrow> bool" where
  "session_number session = (case strip_prefix ''$'' session of None \<Rightarrow> False | Some n \<Rightarrow> parse_u64 n \<noteq> None)"

definition startup_message :: "ControlMessage option \<Rightarrow> Startup \<Rightarrow> Startup option" where
  "startup_message m s =
     (case m of
        Some (Begin b) \<Rightarrow> if s_block s = None \<and> \<not> s_completed s then Some (s\<lparr>s_block := Some b\<rparr>) else None
      | Some (End b) \<Rightarrow> if s_block s = Some b then Some (s\<lparr>s_block := None, s_completed := True\<rparr>) else None
      | Some (Error _) \<Rightarrow> None
      | Some (Exit _) \<Rightarrow> None
      | Some (SessionChanged session) \<Rightarrow>
          if s_block s \<noteq> None then Some s
          else if session_number session then Some (s\<lparr>s_session := True\<rparr>) else None
      | Some _ \<Rightarrow> Some s
      | None \<Rightarrow> if s_block s \<noteq> None then Some s else None)"

definition startup_line :: "u8 list \<Rightarrow> Startup \<Rightarrow> (bool \<times> Startup) option" where
  "startup_line line s =
     (if utf8_valid line
      then map_option (\<lambda>s. (s_completed s \<and> s_session s, s)) (startup_message (parse_line (trim_cr line)) s)
      else None)"


section \<open>The probe\<close>

datatype Progress = Pending | Confirmed "u8 list" | Rejected | Exited "u8 list" | LimitExceeded

record Probe =
  token :: string
  command :: string
  raw :: "u8 list"
  p_consumed :: nat
  p_block :: "(BlockId \<times> bool \<times> nat) option"

definition probe_new :: "string \<Rightarrow> u8 list \<Rightarrow> Probe" where
  "probe_new uuid startup =
     (let tok = ''zzclawterm_'' @ uuid in
      \<lparr>token = tok, command = ''display-message -p '' @ [CHR 0x27] @ tok @ [CHR 0x27], raw = startup,
       p_consumed = length startup, p_block = None\<rparr>)"

text \<open>The body of the loop of \<open>feed\<close>: what a line answers, and the block it leaves.\<close>

datatype answer = Go | Reject | Confirm | Leave

definition probe_message ::
  "string \<Rightarrow> string \<Rightarrow> u8 list \<Rightarrow> (BlockId \<times> bool \<times> nat) option \<Rightarrow> answer \<times> (BlockId \<times> bool \<times> nat) option" where
  "probe_message tok cmd line block =
     (case parse_line line of
        Some (Begin b) \<Rightarrow> if block = None then (Go, Some (b, False, 0)) else (Reject, block)
      | Some (End b) \<Rightarrow> 
          (case block of
             Some (begun, matched, count) \<Rightarrow> if count = 1 \<and> begun = b \<and> matched then Confirm else Reject
           | None \<Rightarrow> Reject, None)
      | Some (Exit _) \<Rightarrow> (Leave, block)
      | Some (Error _) \<Rightarrow> (Reject, block)
      | m \<Rightarrow>
          (case block of
             Some (begun, matched, count) \<Rightarrow> (Go, Some (begun, line = as_bytes tok, count + 1))
           | None \<Rightarrow> (if m \<noteq> None \<or> line = as_bytes cmd then Go else Reject, None)))"

function probe_loop :: "Probe \<Rightarrow> Progress \<times> Probe" where
  "probe_loop p =
     (case split_once 0x0a (drop (p_consumed p) (raw p)) of
        None \<Rightarrow> (Pending, p)
      | Some (line, rest) \<Rightarrow>
          if utf8_valid line then
            (case probe_message (token p) (command p) (trim_cr line) (p_block p) of
               (Go, block) \<Rightarrow> probe_loop (p\<lparr>p_consumed := p_consumed p + length line + 1, p_block := block\<rparr>)
             | (Reject, block) \<Rightarrow> (Rejected, p\<lparr>p_consumed := p_consumed p + length line + 1, p_block := block\<rparr>)
             | (Confirm, block) \<Rightarrow> (Confirmed rest, p\<lparr>p_consumed := p_consumed p + length line + 1, p_block := block\<rparr>)
             | (Leave, block) \<Rightarrow> (Exited rest, p\<lparr>p_consumed := p_consumed p + length line + 1, p_block := block\<rparr>))
          else (Rejected, p\<lparr>p_consumed := p_consumed p + length line + 1\<rparr>))"
  by auto
termination
proof (relation "measure (\<lambda>p. length (raw p) - p_consumed p)", goal_cases)
  case (2 p r line rest)
  then have "length (drop (p_consumed p) (raw p)) = length line + 1 + length rest"
    using split_once_Some [of "0x0a" "drop (p_consumed p) (raw p)" line rest] by simp
  then show ?case by simp
qed simp

declare probe_loop.simps [simp del]

definition probe_feed :: "u8 list \<Rightarrow> Probe \<Rightarrow> panic + Progress \<times> Probe" where
  "probe_feed data p =
     (if CONFIRM_MAX_BYTES - length (raw p) < length data then Inr (LimitExceeded, p)
      else
        let p = p\<lparr>raw := raw p @ data\<rparr> in
        if length (raw p) < p_consumed p then Inl OutOfBounds else Inr (probe_loop p))"


section \<open>Verification of a channel\<close>

datatype Failure = Rejected | LimitExceeded | Timeout | WriteFailed | ChannelClosed | ExitStatus nat

datatype Verification = Confirmed "u8 list" | Exited "u8 list" | Failed Failure

datatype ChannelMsg = Data "u8 list" | ExtendedData "u8 list" | Exit_Status nat | Eof | Close | Gone | OtherMsg

definition probe_result :: "Progress \<Rightarrow> Verification option" where
  "probe_result r =
     (case r of
        Progress.Pending \<Rightarrow> None
      | Progress.Confirmed rest \<Rightarrow> Some (Confirmed rest)
      | Progress.Exited rest \<Rightarrow> Some (Exited rest)
      | Progress.Rejected \<Rightarrow> Some (Failed Rejected)
      | Progress.LimitExceeded \<Rightarrow> Some (Failed LimitExceeded))"

fun verify_loop :: "ChannelMsg list \<Rightarrow> Probe \<Rightarrow> panic + Verification" where
  "verify_loop [] p = Inr (Failed Timeout)"
| "verify_loop (Data data # msgs) p =
     and_then (probe_feed data p) (\<lambda>(r, p).
     case probe_result r of Some v \<Rightarrow> Inr v | None \<Rightarrow> verify_loop msgs p)"
| "verify_loop (ExtendedData data # msgs) p =
     and_then (probe_feed data p) (\<lambda>(r, p).
     case probe_result r of Some v \<Rightarrow> Inr v | None \<Rightarrow> verify_loop msgs p)"
| "verify_loop (Exit_Status n # msgs) p = Inr (Failed (ExitStatus n))"
| "verify_loop (Eof # msgs) p = Inr (Failed ChannelClosed)"
| "verify_loop (Close # msgs) p = Inr (Failed ChannelClosed)"
| "verify_loop (Gone # msgs) p = Inr (Failed ChannelClosed)"
| "verify_loop (OtherMsg # msgs) p = verify_loop msgs p"

definition verify :: "string \<Rightarrow> bool \<Rightarrow> u8 list \<Rightarrow> u8 list \<Rightarrow> ChannelMsg list \<Rightarrow> panic + Verification" where
  "verify uuid write_ok startup initial msgs =
     and_then (probe_feed initial (probe_new uuid startup)) (\<lambda>(r, p).
     case probe_result r of
       Some v \<Rightarrow> Inr v
     | None \<Rightarrow> if write_ok then verify_loop msgs p else Inr (Failed WriteFailed))"


section \<open>What a probe answers\<close>

definition is_marker :: "ControlMessage option \<Rightarrow> bool" where
  "is_marker m = (case m of Some (Begin _) \<Rightarrow> True | Some (End _) \<Rightarrow> True | Some (Error _) \<Rightarrow> True | Some (Exit _) \<Rightarrow> True | _ \<Rightarrow> False)"

lemma probe_message_other:
  assumes "\<not> is_marker (parse_line line)"
  shows "probe_message t c line block =
    (case block of
       Some (begun, matched, count) \<Rightarrow> (Go, Some (begun, line = as_bytes t, count + 1))
     | None \<Rightarrow> (if parse_line line \<noteq> None \<or> line = as_bytes c then Go else Reject, None))"
proof (cases "parse_line line")
  case (Some m)
  then show ?thesis using assms by (cases m) (simp_all add: probe_message_def is_marker_def split: option.splits)
qed (simp add: probe_message_def split: option.splits)

text \<open>The loop on the bytes that are still to be read: its result, the block and the unfinished line it leaves.\<close>

type_synonym block = "(BlockId \<times> bool \<times> nat) option"

function stream_probe :: "string \<Rightarrow> string \<Rightarrow> block \<Rightarrow> u8 list \<Rightarrow> Progress \<times> block \<times> u8 list" where
  "stream_probe tok cmd block s =
     (case split_once 0x0a s of
        None \<Rightarrow> (Progress.Pending, block, s)
      | Some (line, rest) \<Rightarrow>
          if utf8_valid line then
            (case probe_message tok cmd (trim_cr line) block of
               (Go, block) \<Rightarrow> stream_probe tok cmd block rest
             | (Reject, block) \<Rightarrow> (Progress.Rejected, block, rest)
             | (Confirm, block) \<Rightarrow> (Progress.Confirmed rest, block, rest)
             | (Leave, block) \<Rightarrow> (Progress.Exited rest, block, rest))
          else (Progress.Rejected, block, rest))"
  by auto
termination
  by (relation "measure (\<lambda>(tok, cmd, block, s). length s)") (auto dest!: split_once_Some)

declare stream_probe.simps [simp del]

lemma stream_probe_line:
  assumes "0x0a \<notin> set line"
  shows "stream_probe tok cmd block (line @ 0x0a # s) =
    (if utf8_valid line then
       (case probe_message tok cmd (trim_cr line) block of
          (Go, block) \<Rightarrow> stream_probe tok cmd block s
        | (Reject, block) \<Rightarrow> (Progress.Rejected, block, s)
        | (Confirm, block) \<Rightarrow> (Progress.Confirmed s, block, s)
        | (Leave, block) \<Rightarrow> (Progress.Exited s, block, s))
     else (Progress.Rejected, block, s))"
  using assms by (subst stream_probe.simps) simp

lemma stream_probe_pending [simp]: "0x0a \<notin> set s \<Longrightarrow> stream_probe tok cmd block s = (Progress.Pending, block, s)"
proof -
  assume "0x0a \<notin> set s"
  then have "split_once 0x0a s = None" by simp
  then show ?thesis by (subst stream_probe.simps) (simp del: split_once_None_iff)
qed

lemma stream_cases:
  obtains (unfinished) "0x0a \<notin> set s" | (line) l r where "s = l @ 0x0a # r" "0x0a \<notin> set l"
  by (meson split_list_first)

lemma probe_loop_stream:
  assumes "p_consumed p \<le> length (raw p)"
    and "stream_probe (token p) (command p) (p_block p) (drop (p_consumed p) (raw p)) = (r, block, rest)"
  shows "\<exists>n \<le> length (raw p). probe_loop p = (r, p\<lparr>p_consumed := n, p_block := block\<rparr>) \<and> drop n (raw p) = rest"
  using assms
proof (induction p rule: probe_loop.induct)
  case (1 p)
  show ?case
  proof (cases "drop (p_consumed p) (raw p)" rule: stream_cases)
    case unfinished
    then have "split_once 0x0a (drop (p_consumed p) (raw p)) = None" by simp
    then have "probe_loop p = (Progress.Pending, p)" by (subst probe_loop.simps) (simp del: split_once_None_iff)
    then show ?thesis using "1.prems" unfinished by auto
  next
    case (line l s)
    let ?n = "p_consumed p + length l + 1"
    have split: "split_once 0x0a (drop (p_consumed p) (raw p)) = Some (l, s)" using line by simp
    have rest: "drop ?n (raw p) = s" using drop_appendD [of "p_consumed p" "raw p" "l @ [0x0a]" s] line(1) by simp
    have "length (drop (p_consumed p) (raw p)) = length l + 1 + length s" using line(1) by simp
    then have le: "?n \<le> length (raw p)" by simp
    obtain a b where m: "probe_message (token p) (command p) (trim_cr l) (p_block p) = (a, b)" by fastforce
    note loop = probe_loop.simps [of p, unfolded split, simplified, unfolded m]
    note stream = "1.prems"(2) [unfolded line(1) stream_probe_line [OF line(2)] m]
    show ?thesis
    proof (cases "utf8_valid l \<and> a = Go")
      case True
      then show ?thesis
        using "1.IH" [OF split refl _ m [symmetric], simplified] True le rest stream loop by simp
    next
      case False
      then show ?thesis using stream loop le rest by (cases a) (auto intro!: exI [of _ ?n])
    qed
  qed
qed

fun grow :: "Progress \<Rightarrow> u8 list \<Rightarrow> Progress" where
  "grow (Progress.Confirmed rest) d = Progress.Confirmed (rest @ d)"
| "grow (Progress.Exited rest) d = Progress.Exited (rest @ d)"
| "grow r d = r"

lemma stream_probe_append:
  "stream_probe tok cmd block (s @ d) =
     (case stream_probe tok cmd block s of (r, block, rest) \<Rightarrow>
        if r = Progress.Pending then stream_probe tok cmd block (rest @ d) else (grow r d, block, rest @ d))"
proof (induction tok cmd block s rule: stream_probe.induct)
  case (1 tok cmd block s)
  show ?case
  proof (cases s rule: stream_cases)
    case (line l r)
    obtain a b where m: "probe_message tok cmd (trim_cr l) block = (a, b)" by fastforce
    have split: "split_once 0x0a s = Some (l, r)" using line by simp
    show ?thesis
      using "1.IH" [OF split refl _ m [symmetric]] line stream_probe_line [OF line(2), of tok cmd block]
      by (cases a) (auto simp: m)
  qed simp
qed


section \<open>Which streams confirm the channel\<close>

definition line_ok :: "u8 list \<Rightarrow> bool" where
  "line_ok l \<longleftrightarrow> 0x0a \<notin> set l \<and> utf8_valid l"

definition lines_text :: "u8 list list \<Rightarrow> u8 list" where
  "lines_text ls = concat (map (\<lambda>l. l @ [0x0a]) ls)"

text \<open>A notification, or the echo of the command.\<close>

definition quiet :: "string \<Rightarrow> u8 list \<Rightarrow> bool" where
  "quiet cmd l \<longleftrightarrow> \<not> is_marker (parse_line (trim_cr l)) \<and> (parse_line (trim_cr l) \<noteq> None \<or> trim_cr l = as_bytes cmd)"

text \<open>After quiet lines comes a block with matching identity that holds the token and nothing else.\<close>

definition answered :: "string \<Rightarrow> string \<Rightarrow> u8 list \<Rightarrow> u8 list \<Rightarrow> bool" where
  "answered tok cmd s rest \<longleftrightarrow>
     (\<exists>qs b t e blk. s = lines_text (qs @ [b, t, e]) @ rest \<and> list_all line_ok (qs @ [b, t, e]) \<and> list_all (quiet cmd) qs \<and>
        parse_line (trim_cr b) = Some (Begin blk) \<and> trim_cr t = as_bytes tok \<and> parse_line (trim_cr e) = Some (End blk))"

lemma marker_cases:
  obtains (other) "\<not> is_marker m" | (begin_) b where "m = Some (Begin b)" | (end_) b where "m = Some (End b)"
    | (error) b where "m = Some (Error b)" | (exit) x where "m = Some (Exit x)"
proof (cases m)
  case (Some x)
  then show thesis using that by (cases x) (simp_all add: is_marker_def)
qed (use that in \<open>simp add: is_marker_def\<close>)

lemma probe_message_marker:
  "parse_line l = Some (Begin b) \<Longrightarrow> probe_message tok cmd l block = (if block = None then (Go, Some (b, False, 0)) else (Reject, block))"
  "parse_line l = Some (Error b) \<Longrightarrow> probe_message tok cmd l block = (Reject, block)"
  "parse_line l = Some (Exit x) \<Longrightarrow> probe_message tok cmd l block = (Leave, block)"
  "parse_line l = Some (End b) \<Longrightarrow> probe_message tok cmd l block =
     ((case block of Some (begun, matched, count) \<Rightarrow> if count = 1 \<and> begun = b \<and> matched then Confirm else Reject
       | None \<Rightarrow> Reject), None)"
  by (simp_all add: probe_message_def)

lemma confirmed_many:
  "2 \<le> n \<Longrightarrow> fst (stream_probe tok cmd (Some (blk, m, n)) s) \<noteq> Progress.Confirmed rest"
proof (induction s arbitrary: m n rule: measure_induct_rule [of length])
  case (less s)
  show ?case
  proof (cases s rule: stream_cases)
    case (line l r)
    then have IH: "fst (stream_probe tok cmd (Some (blk, m', Suc n)) r) \<noteq> Progress.Confirmed rest" for m'
      using less by simp
    show ?thesis unfolding line(1) stream_probe_line [OF line(2)]
      by (cases "parse_line (trim_cr l)" rule: marker_cases)
        (use less.prems IH in \<open>auto simp: probe_message_marker probe_message_other\<close>)
  qed simp
qed

lemma split_first_unique: "0x0a \<notin> set l \<Longrightarrow> l @ 0x0a # r = l' @ (0x0a :: u8) # r' \<Longrightarrow> 0x0a \<notin> set l' \<Longrightarrow> l = l' \<and> r = r'"
  by (metis option.inject prod.inject split_once_append)

lemma confirmed_one:
  "fst (stream_probe tok cmd (Some (blk, m, 1)) s) = Progress.Confirmed rest \<longleftrightarrow>
   m \<and> (\<exists>e. s = e @ 0x0a # rest \<and> line_ok e \<and> parse_line (trim_cr e) = Some (End blk))"
proof (cases s rule: stream_cases)
  case unfinished
  then show ?thesis by auto
next
  case (line l r)
  have "(\<exists>e. s = e @ 0x0a # rest \<and> line_ok e \<and> parse_line (trim_cr e) = Some (End blk)) \<longleftrightarrow>
      r = rest \<and> utf8_valid l \<and> parse_line (trim_cr l) = Some (End blk)"
    using line split_first_unique [OF line(2)] by (auto simp: line_ok_def)
  then show ?thesis unfolding line(1) stream_probe_line [OF line(2)]
    by (cases "parse_line (trim_cr l)" rule: marker_cases)
      (auto simp: probe_message_marker probe_message_other confirmed_many is_marker_def)
qed

lemma confirmed_begun:
  assumes "\<not> is_marker (parse_line (as_bytes tok))"
  shows "fst (stream_probe tok cmd (Some (blk, m, 0)) s) = Progress.Confirmed rest \<longleftrightarrow>
   (\<exists>t e. s = t @ 0x0a # e @ 0x0a # rest \<and> line_ok t \<and> line_ok e \<and> trim_cr t = as_bytes tok \<and>
      parse_line (trim_cr e) = Some (End blk))"
proof (cases s rule: stream_cases)
  case unfinished
  then show ?thesis by auto
next
  case (line l r)
  have "(\<exists>t e. s = t @ 0x0a # e @ 0x0a # rest \<and> line_ok t \<and> line_ok e \<and> trim_cr t = as_bytes tok \<and> parse_line (trim_cr e) = Some (End blk)) \<longleftrightarrow>
      utf8_valid l \<and> trim_cr l = as_bytes tok \<and> (\<exists>e. r = e @ 0x0a # rest \<and> line_ok e \<and> parse_line (trim_cr e) = Some (End blk))"
  proof (intro iffI)
    assume "\<exists>t e. s = t @ 0x0a # e @ 0x0a # rest \<and> line_ok t \<and> line_ok e \<and> trim_cr t = as_bytes tok \<and> parse_line (trim_cr e) = Some (End blk)"
    then obtain t e where te: "l @ 0x0a # r = t @ 0x0a # e @ 0x0a # rest" "line_ok t" "line_ok e" "trim_cr t = as_bytes tok"
      "parse_line (trim_cr e) = Some (End blk)" using line(1) by auto
    then have "l = t \<and> r = e @ 0x0a # rest" by (intro split_first_unique [OF line(2)]) (simp_all add: line_ok_def)
    then show "utf8_valid l \<and> trim_cr l = as_bytes tok \<and> (\<exists>e. r = e @ 0x0a # rest \<and> line_ok e \<and> parse_line (trim_cr e) = Some (End blk))"
      using te by (auto simp: line_ok_def)
  next
    assume "utf8_valid l \<and> trim_cr l = as_bytes tok \<and> (\<exists>e. r = e @ 0x0a # rest \<and> line_ok e \<and> parse_line (trim_cr e) = Some (End blk))"
    then show "\<exists>t e. s = t @ 0x0a # e @ 0x0a # rest \<and> line_ok t \<and> line_ok e \<and> trim_cr t = as_bytes tok \<and> parse_line (trim_cr e) = Some (End blk)"
      using line by - (rule exI [of _ l], auto simp: line_ok_def)
  qed
  moreover have "fst (stream_probe tok cmd (Some (blk, m, 0)) s) = Progress.Confirmed rest \<longleftrightarrow>
      utf8_valid l \<and> trim_cr l = as_bytes tok \<and> (\<exists>e. r = e @ 0x0a # rest \<and> line_ok e \<and> parse_line (trim_cr e) = Some (End blk))"
  proof (cases "is_marker (parse_line (trim_cr l))")
    case True
    then have "trim_cr l \<noteq> as_bytes tok" using assms by auto
    then show ?thesis using True unfolding line(1) stream_probe_line [OF line(2)]
      by (cases "parse_line (trim_cr l)" rule: marker_cases) (simp_all add: probe_message_marker)
  next
    case False
    then show ?thesis unfolding line(1) stream_probe_line [OF line(2)]
      by (simp add: probe_message_other confirmed_one [unfolded One_nat_def])
  qed
  ultimately show ?thesis by (simp only:)
qed

lemma answeredI:
  assumes "s = lines_text (qs @ [b, t, e]) @ rest" "list_all line_ok (qs @ [b, t, e])" "list_all (quiet cmd) qs"
    "parse_line (trim_cr b) = Some (Begin blk)" "trim_cr t = as_bytes tok" "parse_line (trim_cr e) = Some (End blk)"
  shows "answered tok cmd s rest"
  unfolding answered_def using assms by blast

lemma answered_line:
  assumes "0x0a \<notin> set l"
  shows "answered tok cmd (l @ 0x0a # r) rest \<longleftrightarrow> utf8_valid l \<and>
    (quiet cmd l \<and> answered tok cmd r rest \<or>
     (\<exists>blk t e. parse_line (trim_cr l) = Some (Begin blk) \<and> r = t @ 0x0a # e @ 0x0a # rest \<and> line_ok t \<and> line_ok e \<and>
        trim_cr t = as_bytes tok \<and> parse_line (trim_cr e) = Some (End blk)))" (is "_ \<longleftrightarrow> ?R")
proof
  assume "answered tok cmd (l @ 0x0a # r) rest"
  then obtain qs b t e blk where a: "l @ 0x0a # r = lines_text (qs @ [b, t, e]) @ rest" "list_all line_ok (qs @ [b, t, e])"
    "list_all (quiet cmd) qs" "parse_line (trim_cr b) = Some (Begin blk)" "trim_cr t = as_bytes tok" "parse_line (trim_cr e) = Some (End blk)"
    unfolding answered_def by blast
  show ?R
  proof (cases qs)
    case Nil
    then have "l = b \<and> r = t @ 0x0a # e @ 0x0a # rest"
      using a(1,2) by (intro split_first_unique [OF assms]) (simp_all add: lines_text_def line_ok_def)
    then show ?thesis using a Nil by (auto simp: line_ok_def)
  next
    case (Cons q qs')
    then have "l = q \<and> r = lines_text (qs' @ [b, t, e]) @ rest"
      using a(1,2) by (intro split_first_unique [OF assms]) (simp_all add: lines_text_def line_ok_def)
    then have "answered tok cmd r rest" using a Cons by (intro answeredI [of r qs' b t e rest cmd blk tok]) simp_all
    moreover have "l = q" using \<open>l = q \<and> _\<close> by simp
    ultimately show ?thesis using a(2,3) Cons by (simp add: line_ok_def)
  qed
next
  assume R: ?R
  then consider "utf8_valid l" "quiet cmd l" "answered tok cmd r rest"
    | blk t e where "utf8_valid l" "parse_line (trim_cr l) = Some (Begin blk)" "r = t @ 0x0a # e @ 0x0a # rest" "line_ok t" "line_ok e"
        "trim_cr t = as_bytes tok" "parse_line (trim_cr e) = Some (End blk)" by blast
  then show "answered tok cmd (l @ 0x0a # r) rest"
  proof cases
    case 1
    then obtain qs b t e blk where a: "r = lines_text (qs @ [b, t, e]) @ rest" "list_all line_ok (qs @ [b, t, e])"
      "list_all (quiet cmd) qs" "parse_line (trim_cr b) = Some (Begin blk)" "trim_cr t = as_bytes tok" "parse_line (trim_cr e) = Some (End blk)"
      unfolding answered_def by blast
    then show ?thesis using 1 assms
      by (intro answeredI [of _ "l # qs" b t e rest]) (simp_all add: lines_text_def line_ok_def)
  next
    case (2 blk t e)
    then show ?thesis using assms
      by (intro answeredI [of _ "[]" l t e rest]) (simp_all add: lines_text_def line_ok_def)
  qed
qed

lemma answered_unfinished: "answered tok cmd s rest \<Longrightarrow> 0x0a \<in> set s"
  by (auto simp: answered_def lines_text_def)

lemma confirmed_iff:
  assumes "\<not> is_marker (parse_line (as_bytes tok))"
  shows "fst (stream_probe tok cmd None s) = Progress.Confirmed rest \<longleftrightarrow> answered tok cmd s rest"
proof (induction s rule: measure_induct_rule [of length])
  case (less s)
  show ?case
  proof (cases s rule: stream_cases)
    case unfinished
    then show ?thesis using answered_unfinished by fastforce
  next
    case (line l r)
    have IH: "fst (stream_probe tok cmd None r) = Progress.Confirmed rest \<longleftrightarrow> answered tok cmd r rest"
      using less line(1) by simp
    show ?thesis unfolding line(1) stream_probe_line [OF line(2)] answered_line [OF line(2)]
      by (cases "parse_line (trim_cr l)" rule: marker_cases)
        (auto simp: probe_message_marker probe_message_other confirmed_begun [OF assms] is_marker_def quiet_def IH)
  qed
qed


section \<open>Reading the channel\<close>

definition probe_ok :: "Probe \<Rightarrow> bool" where
  "probe_ok p \<longleftrightarrow> p_consumed p \<le> length (raw p) \<and> 0x0a \<notin> set (drop (p_consumed p) (raw p))"

lemma stream_probe_unfinished:
  "stream_probe tok cmd block s = (Progress.Pending, block', rest) \<Longrightarrow> 0x0a \<notin> set rest"
proof (induction tok cmd block s rule: stream_probe.induct)
  case (1 tok cmd block s)
  show ?case
  proof (cases s rule: stream_cases)
    case (line l r)
    obtain a b where m: "probe_message tok cmd (trim_cr l) block = (a, b)" by fastforce
    have split: "split_once 0x0a s = Some (l, r)" using line by simp
    show ?thesis using "1.prems" "1.IH" [OF split refl _ m [symmetric]] unfolding line(1) stream_probe_line [OF line(2)] m
      by (cases a) (auto split: if_splits)
  qed (use "1.prems" in auto)
qed

text \<open>Bytes of the data messages before the channel ends.\<close>

fun received :: "ChannelMsg list \<Rightarrow> u8 list" where
  "received (Data d # msgs) = d @ received msgs"
| "received (ExtendedData d # msgs) = d @ received msgs"
| "received (OtherMsg # msgs) = received msgs"
| "received _ = []"

lemma probe_feed_cases:
  assumes "probe_ok p"
  obtains (limit) "CONFIRM_MAX_BYTES < length (raw p) + length d" "d \<noteq> []" "probe_feed d p = Inr (Progress.LimitExceeded, p)"
    | (fed) r block rest p' where
        "stream_probe (token p) (command p) (p_block p) (drop (p_consumed p) (raw p) @ d) = (r, block, rest)"
        "probe_feed d p = Inr (r, p')" "token p' = token p" "command p' = command p" "p_block p' = block" "raw p' = raw p @ d"
        "drop (p_consumed p') (raw p') = rest" "r = Progress.Pending \<Longrightarrow> probe_ok p'"
proof (cases "CONFIRM_MAX_BYTES - length (raw p) < length d")
  case True
  then have "CONFIRM_MAX_BYTES < length (raw p) + length d" "d \<noteq> []" by auto
  then show thesis using limit True by (simp add: probe_feed_def)
next
  case False
  let ?p = "p\<lparr>raw := raw p @ d\<rparr>"
  have le: "p_consumed ?p \<le> length (raw ?p)" using assms by (simp add: probe_ok_def)
  obtain r block rest where s: "stream_probe (token p) (command p) (p_block p) (drop (p_consumed p) (raw p) @ d) = (r, block, rest)"
    by (metis prod_cases3)
  then have "stream_probe (token ?p) (command ?p) (p_block ?p) (drop (p_consumed ?p) (raw ?p)) = (r, block, rest)"
    using assms by (simp add: probe_ok_def)
  from probe_loop_stream [OF le this] obtain n where n: "n \<le> length (raw p @ d)" "probe_loop ?p = (r, ?p\<lparr>p_consumed := n, p_block := block\<rparr>)"
    "drop n (raw p @ d) = rest" by auto
  have "probe_feed d p = Inr (r, ?p\<lparr>p_consumed := n, p_block := block\<rparr>)"
    using False le n(2) by (simp add: probe_feed_def Let_def)
  moreover have "0x0a \<notin> set rest" if "r = Progress.Pending" using stream_probe_unfinished s that by blast
  ultimately show thesis using fed [OF s] n by (simp add: probe_ok_def)
qed

text \<open>A result is right for the bytes \<open>s\<close> that are read from the state \<open>p\<close> on.\<close>

definition reads_answer :: "Probe \<Rightarrow> u8 list \<Rightarrow> Verification \<Rightarrow> bool" where
  "reads_answer p s v \<longleftrightarrow>
     (let found = fst (stream_probe (token p) (command p) (p_block p) (drop (p_consumed p) (raw p) @ s)) in
      (\<forall>r. v = Confirmed r \<longrightarrow> (\<exists>more. found = Progress.Confirmed (r @ more))) \<and>
      (\<forall>rest. length (raw p) + length s \<le> CONFIRM_MAX_BYTES \<longrightarrow> found = Progress.Confirmed rest \<longrightarrow>
         (\<exists>r more. v = Confirmed r \<and> r @ more = rest)))"

lemma reads_nothing: "probe_ok p \<Longrightarrow> (\<And>r. v \<noteq> Confirmed r) \<Longrightarrow> reads_answer p [] v"
  by (simp add: reads_answer_def probe_ok_def)

lemma data_step:
  assumes "probe_ok p" "\<And>p'. probe_ok p' \<Longrightarrow> \<exists>v. k p' = Inr v \<and> reads_answer p' s v"
  shows "\<exists>v. and_then (probe_feed d p) (\<lambda>(r, p). case probe_result r of Some v \<Rightarrow> Inr v | None \<Rightarrow> k p) = Inr v \<and>
    reads_answer p (d @ s) v"
  using assms(1)
proof (cases rule: probe_feed_cases [where d = d])
  case limit
  then show ?thesis by (simp add: probe_result_def reads_answer_def Let_def)
next
  case (fed r block rest p')
  show ?thesis
  proof (cases "r = Progress.Pending")
    case True
    obtain v where v: "k p' = Inr v" "reads_answer p' s v" using assms(2) fed(8) True by blast
    have "stream_probe (token p) (command p) (p_block p) (drop (p_consumed p) (raw p) @ d @ s) =
        stream_probe (token p') (command p') (p_block p') (drop (p_consumed p') (raw p') @ s)"
      using stream_probe_append [of "token p" "command p" "p_block p" "drop (p_consumed p) (raw p) @ d" s] fed True by simp
    then have "reads_answer p (d @ s) v" using v(2) fed(6) by (simp add: reads_answer_def Let_def add.assoc)
    then show ?thesis using fed(2) v(1) True by (simp add: probe_result_def)
  next
    case False
    have "fst (stream_probe (token p) (command p) (p_block p) (drop (p_consumed p) (raw p) @ d @ s)) = grow r s"
      using stream_probe_append [of "token p" "command p" "p_block p" "drop (p_consumed p) (raw p) @ d" s] fed False by simp
    then show ?thesis using fed(2) False by (cases r) (auto simp: probe_result_def reads_answer_def Let_def)
  qed
qed

lemma verify_loop_received: "probe_ok p \<Longrightarrow> \<exists>v. verify_loop msgs p = Inr v \<and> reads_answer p (received msgs) v"
proof (induction msgs arbitrary: p rule: received.induct)
  case (1 d msgs)
  then show ?case using data_step [of p "verify_loop msgs" "received msgs" d] by simp
next
  case (2 d msgs)
  then show ?case using data_step [of p "verify_loop msgs" "received msgs" d] by simp
qed (auto intro: reads_nothing)

lemma parse_line_plain:
  assumes "b < 0x80" "b \<noteq> 0x25"
  shows "parse_line (b # s) = None"
proof -
  have "char_of_byte b \<noteq> CHR ''%''" using assms(2) char_of_byte_eq_iff [of b "0x25"] by simp
  then have "parse_text (char_of_byte b # t) = None" for t by (simp add: parse_text_def)
  then show ?thesis using assms by (simp add: parse_line_def utf8_head_def)
qed

lemma token_no_marker: "\<not> is_marker (parse_line (as_bytes (''zzclawterm_'' @ u)))"
  using parse_line_plain [of "0x7a"] by (simp add: is_marker_def byte_of_char_def)


section \<open>Block markers\<close>

definition block_text :: "BlockId \<Rightarrow> string" where
  "block_text b = dec_string (block_time b) @ '' '' @ dec_string (block_number b) @ '' '' @ dec_string (block_flags b)"

definition block_ok :: "BlockId \<Rightarrow> bool" where
  "block_ok b \<longleftrightarrow> block_time b < 2 ^ 64 \<and> block_number b < 2 ^ 64 \<and> block_flags b < 2 ^ 64"

lemma from_utf8_lossy_ascii: "list_all (\<lambda>b. b < 0x80) bs \<Longrightarrow> from_utf8_lossy bs = bs"
  by (induction bs) (simp_all add: utf8_head_def)

lemma words_last: "list_all graphic t \<Longrightarrow> w @ t \<noteq> [] \<Longrightarrow> split_whitespace w t = [w @ t]"
proof (induction t arbitrary: w)
  case (Cons c t)
  then show ?case using Cons.IH [of "w @ [c]"] by (simp add: split_whitespace.simps(2) [of w c] ws_len_graphic)
qed simp

lemma parse_u64_dec: "n < 2 ^ 64 \<Longrightarrow> parse_u64 (dec_string n) = Some n"
  using from_str_radix_dec_string [of n "2 ^ 64 - 1"] by (simp add: parse_u64_def)

lemma parse_block_text:
  assumes "block_ok b" "list_all graphic key" "key \<noteq> []"
  shows "parse_block_id (key @ '' '' @ block_text b) = Some b"
proof -
  have "words (key @ '' '' @ block_text b) = [key, dec_string (block_time b), dec_string (block_number b), dec_string (block_flags b)]"
    using words_token [OF assms(2), of "[]"] words_token [OF digit_graphic, of "[]"] words_last [OF digit_graphic, of "[]"] assms(3)
    by (simp add: block_text_def)
  then show ?thesis using assms(1) by (simp add: parse_block_id_def part_def parse_u64_dec block_ok_def)
qed

lemma block_text_ascii: "list_all (\<lambda>b. b < 0x80 \<and> b \<noteq> 0x0a \<and> b \<noteq> 0x0d) (as_bytes (block_text b))"
  using dec_bytes_plain by (fastforce simp: block_text_def list_all_iff dec_bytes_def)

lemma parse_line_block:
  assumes "block_ok b"
  shows "parse_line (as_bytes (''%begin '' @ block_text b)) = Some (Begin b)"
    "parse_line (as_bytes (''%end '' @ block_text b)) = Some (End b)"
proof -
  have ascii: "list_all (\<lambda>b. b < 0x80) (as_bytes (block_text b))" using block_text_ascii [of b] by (auto simp: list_all_iff)
  have lossy: "from_utf8_lossy (as_bytes (''%begin '' @ block_text b)) = as_bytes (''%begin '' @ block_text b)"
    "from_utf8_lossy (as_bytes (''%end '' @ block_text b)) = as_bytes (''%end '' @ block_text b)"
    by (rule from_utf8_lossy_ascii, use ascii in \<open>simp add: byte_of_char_def\<close>)+
  have key: "parse_block_id (''%begin '' @ block_text b) = Some b" "parse_block_id (''%end '' @ block_text b) = Some b"
    using parse_block_text [OF assms, of "''%begin''"] parse_block_text [OF assms, of "''%end''"] by (simp_all add: graphic_def)
  have "parse_text (''%begin '' @ block_text b) = Some (Begin b)" "parse_text (''%end '' @ block_text b) = Some (End b)"
    using key by (simp_all add: parse_text_def keyword_char_def)
  moreover have "strip_prefix (as_bytes ''%output '') (as_bytes (''%begin '' @ s)) = None"
    "strip_prefix (as_bytes ''%output '') (as_bytes (''%end '' @ s)) = None"
    "strip_prefix (as_bytes ''%extended-output '') (as_bytes (''%begin '' @ s)) = None"
    "strip_prefix (as_bytes ''%extended-output '') (as_bytes (''%end '' @ s)) = None" for s
    by simp_all
  ultimately show "parse_line (as_bytes (''%begin '' @ block_text b)) = Some (Begin b)"
    "parse_line (as_bytes (''%end '' @ block_text b)) = Some (End b)"
    unfolding parse_line_def lossy by (simp_all only: option.case of_bytes_as_bytes)
qed


section \<open>Which startups are confirmed\<close>

fun startup_run :: "u8 list list \<Rightarrow> Startup \<Rightarrow> (bool \<times> Startup) option" where
  "startup_run [] s = Some (s_completed s \<and> s_session s, s)"
| "startup_run (l # ls) s = (case startup_line l s of None \<Rightarrow> None | Some (_, s) \<Rightarrow> startup_run ls s)"

definition session_line :: "u8 list \<Rightarrow> bool" where
  "session_line l = (case parse_line (trim_cr l) of Some (SessionChanged _) \<Rightarrow> True | _ \<Rightarrow> False)"

text \<open>A notification outside a block; a change of the session names it by number.\<close>

definition outside :: "u8 list \<Rightarrow> bool" where
  "outside l \<longleftrightarrow> utf8_valid l \<and> \<not> is_marker (parse_line (trim_cr l)) \<and>
     (case parse_line (trim_cr l) of None \<Rightarrow> False | Some (SessionChanged s) \<Rightarrow> session_number s | _ \<Rightarrow> True)"

definition inside :: "u8 list \<Rightarrow> bool" where
  "inside l \<longleftrightarrow> utf8_valid l \<and> \<not> is_marker (parse_line (trim_cr l))"

lemma startup_message_other:
  assumes "\<not> is_marker m"
  shows "startup_message m s =
    (if s_block s \<noteq> None then Some s
     else case m of None \<Rightarrow> None
       | Some (SessionChanged n) \<Rightarrow> if session_number n then Some (s\<lparr>s_session := True\<rparr>) else None
       | _ \<Rightarrow> Some s)"
proof (cases m)
  case (Some x)
  then show ?thesis using assms by (cases x) (simp_all add: startup_message_def is_marker_def)
qed (simp add: startup_message_def)

lemma startup_outside:
  assumes "\<not> is_marker (parse_line (trim_cr l))" "s_block s = None"
  shows "startup_run (l # ls) s = (if outside l then startup_run ls (s\<lparr>s_session := s_session s \<or> session_line l\<rparr>) else None)"
proof (cases "parse_line (trim_cr l)")
  case (Some x)
  then show ?thesis using assms
    by (cases x) (auto simp: startup_line_def startup_message_other outside_def session_line_def)
qed (use assms in \<open>auto simp: startup_line_def startup_message_other outside_def\<close>)

lemma startup_marker:
  "parse_line (trim_cr l) = Some (Begin b) \<Longrightarrow> startup_run (l # ls) s =
     (if utf8_valid l \<and> s_block s = None \<and> \<not> s_completed s then startup_run ls (s\<lparr>s_block := Some b\<rparr>) else None)"
  "parse_line (trim_cr l) = Some (End b) \<Longrightarrow> startup_run (l # ls) s =
     (if utf8_valid l \<and> s_block s = Some b then startup_run ls (s\<lparr>s_block := None, s_completed := True\<rparr>) else None)"
  "parse_line (trim_cr l) = Some (Error b) \<Longrightarrow> startup_run (l # ls) s = None"
  "parse_line (trim_cr l) = Some (Exit x) \<Longrightarrow> startup_run (l # ls) s = None"
  by (simp_all add: startup_line_def startup_message_def)

declare startup_run.simps(2) [simp del]

lemma startup_run_completed:
  assumes "s_block s = None" "s_completed s"
  shows "(\<exists>t. startup_run ls s = Some (True, t)) \<longleftrightarrow> list_all outside ls \<and> (s_session s \<or> list_ex session_line ls)"
  using assms
proof (induction ls arbitrary: s)
  case (Cons l ls)
  show ?case
  proof (cases "is_marker (parse_line (trim_cr l))")
    case True
    then have "\<not> outside l" by (simp add: outside_def)
    then show ?thesis using True Cons.prems
      by (cases "parse_line (trim_cr l)" rule: marker_cases) (simp_all add: startup_marker)
  next
    case False
    then show ?thesis using Cons.prems Cons.IH [of "s\<lparr>s_session := s_session s \<or> session_line l\<rparr>"] by (simp add: startup_outside)
  qed
qed simp

lemma ex_split_Cons:
  "(\<exists>xs e cs. l # ls = xs @ e # cs \<and> P xs e cs) \<longleftrightarrow> P [] l ls \<or> (\<exists>xs e cs. ls = xs @ e # cs \<and> P (l # xs) e cs)"
  by (auto simp: Cons_eq_append_conv)

definition closes_block :: "bool \<Rightarrow> BlockId \<Rightarrow> u8 list list \<Rightarrow> bool" where
  "closes_block named blk ls \<longleftrightarrow>
     (\<exists>xs e cs. ls = xs @ e # cs \<and> list_all inside xs \<and> utf8_valid e \<and> parse_line (trim_cr e) = Some (End blk) \<and>
        list_all outside cs \<and> (named \<or> list_ex session_line cs))"

lemma closes_block_Cons:
  "closes_block named blk (l # ls) \<longleftrightarrow>
     utf8_valid l \<and> parse_line (trim_cr l) = Some (End blk) \<and> list_all outside ls \<and> (named \<or> list_ex session_line ls) \<or>
     inside l \<and> closes_block named blk ls"
  unfolding closes_block_def ex_split_Cons list.pred_inject(2) by (simp only: list.pred_inject(1) list_ex_Nil_iff list_ex_Cons_iff simp_thms disj_assoc) blast

lemma startup_run_begun:
  assumes "s_block s = Some b" "\<not> s_completed s"
  shows "(\<exists>t. startup_run ls s = Some (True, t)) \<longleftrightarrow> closes_block (s_session s) b ls"
  using assms
proof (induction ls arbitrary: s)
  case Nil
  then show ?case by (simp add: closes_block_def)
next
  case (Cons l ls)
  show ?case
  proof (cases "is_marker (parse_line (trim_cr l))")
    case True
    then have "\<not> inside l" by (simp add: inside_def)
    then show ?thesis using True Cons.prems startup_run_completed [of "s\<lparr>s_block := None, s_completed := True\<rparr>" ls]
      by (cases "parse_line (trim_cr l)" rule: marker_cases) (auto simp: startup_marker closes_block_Cons)
  next
    case False
    then have "startup_run (l # ls) s = (if utf8_valid l then startup_run ls s else None)"
      using Cons.prems by (auto simp: startup_run.simps(2) startup_line_def startup_message_other)
    moreover have "parse_line (trim_cr l) \<noteq> Some (End b)" "inside l \<longleftrightarrow> utf8_valid l"
      using False by (auto simp: is_marker_def inside_def)
    ultimately show ?thesis using Cons.IH [OF Cons.prems] by (simp add: closes_block_Cons)
  qed
qed

definition starts_up :: "bool \<Rightarrow> u8 list list \<Rightarrow> bool" where
  "starts_up named ls \<longleftrightarrow>
     (\<exists>as b rest. ls = as @ b # rest \<and> list_all outside as \<and> utf8_valid b \<and>
        (\<exists>blk. parse_line (trim_cr b) = Some (Begin blk) \<and> closes_block (named \<or> list_ex session_line as) blk rest))"

lemma starts_up_Cons:
  "starts_up named (l # ls) \<longleftrightarrow>
     utf8_valid l \<and> (\<exists>blk. parse_line (trim_cr l) = Some (Begin blk) \<and> closes_block named blk ls) \<or>
     outside l \<and> starts_up (named \<or> session_line l) ls"
  unfolding starts_up_def ex_split_Cons list.pred_inject(2) disj_assoc by (simp only: list.pred_inject(1) list_ex_Nil_iff list_ex_Cons_iff simp_thms disj_assoc) blast

lemma startup_run_fresh:
  assumes "s_block s = None" "\<not> s_completed s"
  shows "(\<exists>t. startup_run ls s = Some (True, t)) \<longleftrightarrow> starts_up (s_session s) ls"
  using assms
proof (induction ls arbitrary: s)
  case Nil
  then show ?case by (simp add: starts_up_def)
next
  case (Cons l ls)
  show ?case
  proof (cases "is_marker (parse_line (trim_cr l))")
    case True
    then have out: "\<not> outside l" by (simp add: outside_def)
    have "(\<exists>t. startup_run ls (s\<lparr>s_block := Some b\<rparr>) = Some (True, t)) \<longleftrightarrow> closes_block (s_session s) b ls" for b
      using startup_run_begun [of "s\<lparr>s_block := Some b\<rparr>" b ls] Cons.prems by simp
    then show ?thesis using True Cons.prems out
      by (cases "parse_line (trim_cr l)" rule: marker_cases) (simp_all add: startup_marker starts_up_Cons)
  next
    case False
    have "\<not> (\<exists>blk. parse_line (trim_cr l) = Some (Begin blk))" using False by (auto simp: is_marker_def)
    then have "starts_up (s_session s) (l # ls) \<longleftrightarrow> outside l \<and> starts_up (s_session s \<or> session_line l) ls"
      by (auto simp: starts_up_Cons)
    then show ?thesis
      using Cons.prems Cons.IH [of "s\<lparr>s_session := s_session s \<or> session_line l\<rparr>"] False by (simp add: startup_outside)
  qed
qed


section \<open>Properties\<close>

text \<open>C14. Before a channel is used as a tmux client it must answer the probe. Verification never panics. It confirms
  the channel only when the bytes it read, however they were cut into messages, are notifications and echoes of the
  command followed by one block whose opening and closing markers agree and that holds the random token and nothing else;
  and it does confirm every such answer that stays within the byte limit and arrives in time, handing over the bytes
  behind it.\<close>

theorem tmux_verify_confirms:
  assumes "probe = probe_new uuid startup" "bytes = initial @ (if write_ok then received msgs else [])"
  shows "\<exists>v. verify uuid write_ok startup initial msgs = Inr v \<and>
    (\<forall>r. v = Confirmed r \<longrightarrow> (\<exists>more. answered (token probe) (command probe) bytes (r @ more))) \<and>
    (\<forall>rest. length startup + length bytes \<le> CONFIRM_MAX_BYTES \<longrightarrow> answered (token probe) (command probe) bytes rest \<longrightarrow>
       (\<exists>r more. v = Confirmed r \<and> r @ more = rest))"
proof -
  have ok: "probe_ok probe" by (simp add: assms(1) probe_ok_def probe_new_def Let_def)
  have "\<exists>v. verify uuid write_ok startup initial msgs = Inr v \<and> reads_answer probe bytes v"
    unfolding verify_def assms(1) [symmetric] assms(2)
    by (rule data_step [OF ok]) (use verify_loop_received in \<open>auto intro: reads_nothing\<close>)
  moreover have "fst (stream_probe (token probe) (command probe) None bytes) = Progress.Confirmed rest \<longleftrightarrow>
      answered (token probe) (command probe) bytes rest" for rest
    using token_no_marker [of uuid] by (intro confirmed_iff) (simp only: assms(1) probe_new_def Let_def Probe.simps not_False_eq_True)
  ultimately show ?thesis using assms(1) by (simp add: reads_answer_def probe_new_def Let_def)
qed

theorem tmux_verify_confirms_witness:
  "\<exists>r more. verify ''0'' True [] [] [Data (as_bytes ''%begin 1 2 1'' @ [0x0d, 0x0a]),
       ExtendedData (as_bytes ''zzclawterm_0'' @ [0x0a]), OtherMsg, Data (as_bytes ''%end 1 2 1'' @ [0x0d, 0x0a, 0x58])] =
     Inr (Confirmed r) \<and> r @ more = [0x58]"
proof -
  let ?msgs = "[Data (as_bytes ''%begin 1 2 1'' @ [0x0d, 0x0a]),
       ExtendedData (as_bytes ''zzclawterm_0'' @ [0x0a]), OtherMsg, Data (as_bytes ''%end 1 2 1'' @ [0x0d, 0x0a, 0x58])]"
  let ?probe = "probe_new ''0'' []" and ?b = "\<lparr>block_time = 1, block_number = 2, block_flags = 1\<rparr>"
  have block: "''%begin '' @ block_text ?b = ''%begin 1 2 1''" "''%end '' @ block_text ?b = ''%end 1 2 1''"
    by (simp_all add: block_text_def dec_string.simps [of "Suc 0"] dec_string.simps [of 2])
  have parse: "parse_line (as_bytes ''%begin 1 2 1'') = Some (Begin ?b)" "parse_line (as_bytes ''%end 1 2 1'') = Some (End ?b)"
    using parse_line_block [of ?b] unfolding block by (simp_all add: block_ok_def del: list.map)
  have trim: "trim_cr (as_bytes ''%begin 1 2 1'' @ [0x0d]) = as_bytes ''%begin 1 2 1''"
    "trim_cr (as_bytes ''%end 1 2 1'' @ [0x0d]) = as_bytes ''%end 1 2 1''"
    "trim_cr (as_bytes ''zzclawterm_0'') = as_bytes ''zzclawterm_0''" by code_simp+
  have "answered (token ?probe) (command ?probe) (received ?msgs) [0x58]"
    by (rule answeredI [of _ "[]" "as_bytes ''%begin 1 2 1'' @ [0x0d]" "as_bytes ''zzclawterm_0''" "as_bytes ''%end 1 2 1'' @ [0x0d]"])
      (code_simp, code_simp, simp, unfold trim parse, rule refl, simp add: probe_new_def, rule refl)
  moreover have "length (received ?msgs) \<le> CONFIRM_MAX_BYTES" by (simp add: CONFIRM_MAX_BYTES_def)
  ultimately show ?thesis
    using tmux_verify_confirms [of ?probe "''0''" "[]" "received ?msgs" "[]" True ?msgs] by auto
qed

text \<open>C28. The passive check of a startup. It accepts a sequence of lines as complete exactly when they are
  notifications around one reply block whose markers agree, no line in the block being a marker, and one of the
  notifications names the session by its number.\<close>

theorem tmux_startup_accepts:
  "(\<exists>s. startup_run ls startup_default = Some (True, s)) \<longleftrightarrow>
   (\<exists>as b xs e cs blk. ls = as @ b # xs @ e # cs \<and> list_all outside as \<and> list_all inside xs \<and> list_all outside cs \<and>
      utf8_valid b \<and> parse_line (trim_cr b) = Some (Begin blk) \<and> utf8_valid e \<and> parse_line (trim_cr e) = Some (End blk) \<and>
      list_ex session_line (as @ cs))"
proof -
  have "(\<exists>s. startup_run ls startup_default = Some (True, s)) \<longleftrightarrow> starts_up False ls"
    using startup_run_fresh [of startup_default ls] by (simp add: startup_default_def)
  then show ?thesis unfolding starts_up_def closes_block_def by (simp only: list_ex_append) blast
qed

end
