(* ===== verification/Natural_Order.thy ===== *)
theory Natural_Order
  imports Prelude Cells "HOL-Library.List_Lexorder" "HOL-Library.Product_Lexorder"
begin

text \<open>
  The order of names in lists (\<open>natural_order.rs\<close> of the core crate). A name is the list of its Unicode scalar values;
  their order is the order of the UTF-8 bytes. The lower case of a character is a parameter.
\<close>

datatype Ordering = Less | Equal | Greater

fun reverse_ordering :: "Ordering \<Rightarrow> Ordering" where
  "reverse_ordering Less = Greater"
| "reverse_ordering Equal = Equal"
| "reverse_ordering Greater = Less"

fun then_with :: "Ordering \<Rightarrow> Ordering \<Rightarrow> Ordering" where
  "then_with Equal r = r"
| "then_with l r = l"

definition cmp :: "'a::linorder \<Rightarrow> 'a \<Rightarrow> Ordering" where
  "cmp x y = (if x < y then Less else if x = y then Equal else Greater)"

definition is_digit :: "uchar \<Rightarrow> bool" where
  "is_digit c \<longleftrightarrow> 0x30 \<le> c \<and> c \<le> 0x39"

definition starts_with_digit :: "uchar list \<Rightarrow> bool" where
  "starts_with_digit s \<longleftrightarrow> s \<noteq> [] \<and> is_digit (hd s)"

definition split_digit_run :: "uchar list \<Rightarrow> uchar list \<times> uchar list" where
  "split_digit_run s = (takeWhile is_digit s, dropWhile is_digit s)"

definition strip_zeros :: "uchar list \<Rightarrow> uchar list" where
  "strip_zeros s = dropWhile (\<lambda>c. c = 0x30) s"

definition compare_digit_runs :: "uchar list \<Rightarrow> uchar list \<Rightarrow> Ordering" where
  "compare_digit_runs l r =
     then_with (then_with (cmp (length (strip_zeros l)) (length (strip_zeros r))) (cmp (strip_zeros l) (strip_zeros r)))
       (cmp (length l) (length r))"

function natural_loop :: "(uchar \<Rightarrow> uchar list) \<Rightarrow> uchar list \<Rightarrow> uchar list \<Rightarrow> Ordering" where
  "natural_loop lower [] [] = Equal"
| "natural_loop lower [] (d # r) = Less"
| "natural_loop lower (c # l) [] = Greater"
| "natural_loop lower (c # l) (d # r) =
     (if starts_with_digit (c # l) \<and> starts_with_digit (d # r) then
        let (left_run, left_tail) = split_digit_run (c # l); (right_run, right_tail) = split_digit_run (d # r) in
        if compare_digit_runs left_run right_run \<noteq> Equal then compare_digit_runs left_run right_run
        else natural_loop lower left_tail right_tail
      else if cmp (lower c) (lower d) \<noteq> Equal then cmp (lower c) (lower d)
      else natural_loop lower l r)"
  by pat_completeness auto
termination
proof (relation "measure (\<lambda>(lower, l, r). length l)", goal_cases)
  case (2 lower c l d r x left_run left_tail y right_run right_tail)
  then have "left_tail = dropWhile is_digit l" by (simp add: split_digit_run_def starts_with_digit_def)
  then show ?case by (simp add: le_imp_less_Suc length_dropWhile_le)
qed simp_all

declare natural_loop.simps(4) [simp del]

definition natural_compare :: "(uchar \<Rightarrow> uchar list) \<Rightarrow> uchar list \<Rightarrow> uchar list \<Rightarrow> Ordering" where
  "natural_compare lower l r = then_with (natural_loop lower l r) (cmp l r)"


section \<open>The order as a key\<close>

text \<open>What is relied on of the lower case table: a digit is its own lower case, and no other character has one
  that is empty or starts with a digit.\<close>

definition lower_ok :: "(uchar \<Rightarrow> uchar list) \<Rightarrow> bool" where
  "lower_ok lower \<longleftrightarrow> (\<forall>c. if is_digit c then lower c = [c] else lower c \<noteq> [] \<and> \<not> is_digit (hd (lower c)))"

definition run_key :: "uchar list \<Rightarrow> nat list" where
  "run_key ds = 0x30 # length (strip_zeros ds) # strip_zeros ds @ [length ds]"

function natural_key :: "(uchar \<Rightarrow> uchar list) \<Rightarrow> uchar list \<Rightarrow> nat list list" where
  "natural_key lower [] = []"
| "natural_key lower (c # s) =
     (if is_digit c then run_key (takeWhile is_digit (c # s)) # natural_key lower (dropWhile is_digit s)
      else lower c # natural_key lower s)"
  by pat_completeness auto
termination by (relation "measure (\<lambda>(lower, s). length s)") (auto simp: le_imp_less_Suc length_dropWhile_le)

declare natural_key.simps(2) [simp del]

lemma cmp_simps [simp]:
  "cmp x y = Less \<longleftrightarrow> x < y" "cmp x y = Equal \<longleftrightarrow> x = y" "cmp x y = Greater \<longleftrightarrow> y < x" "cmp x x = Equal"
  by (auto simp: cmp_def)

lemma then_with_simps [simp]:
  "then_with a b = Less \<longleftrightarrow> a = Less \<or> a = Equal \<and> b = Less" "then_with a b = Equal \<longleftrightarrow> a = Equal \<and> b = Equal"
  "then_with a b = Greater \<longleftrightarrow> a = Greater \<or> a = Equal \<and> b = Greater"
  by (cases a; simp)+

lemma then_with_assoc: "then_with (then_with a b) c = then_with a (then_with b c)"
  by (cases a) simp_all

lemma then_with_left [simp]: "a \<noteq> Equal \<Longrightarrow> then_with a b = a" "then_with a Equal = a"
  by (cases a; simp)+

lemma cmp_Cons: "cmp (x # xs) (y # ys) = then_with (cmp x y) (cmp xs ys)"
  by (auto simp: cmp_def)

lemma cmp_append_same: "length xs = length ys \<Longrightarrow> cmp (xs @ us) (ys @ vs) = then_with (cmp xs ys) (cmp us vs)"
proof (induction xs ys rule: list_induct2)
  case (Cons x xs y ys)
  then show ?case by (simp add: cmp_Cons then_with_assoc)
qed (simp add: cmp_def)

lemma cmp_run_key: "cmp (run_key l) (run_key r) = compare_digit_runs l r"
proof (cases "length (strip_zeros l) = length (strip_zeros r)")
  case True
  then show ?thesis by (simp add: run_key_def compare_digit_runs_def cmp_Cons cmp_append_same)
next
  case False
  then show ?thesis by (simp add: run_key_def compare_digit_runs_def cmp_Cons)
qed

lemma cmp_digit_other:
  assumes "is_digit c" "x \<noteq> []" "\<not> is_digit (hd x)"
  shows "cmp [c] x = cmp (run_key ds) x" "cmp x [c] = cmp x (run_key ds)" "cmp [c] x \<noteq> Equal" "cmp x [c] \<noteq> Equal"
  using assms by (cases x; auto simp: cmp_def is_digit_def run_key_def)+

lemma natural_loop_key:
  assumes "lower_ok lower"
  shows "natural_loop lower l r = cmp (natural_key lower l) (natural_key lower r)"
  using assms
proof (induction lower l r rule: natural_loop.induct)
  case (4 lower c l d r)
  have lower: "is_digit x \<Longrightarrow> lower x = [x]" "\<not> is_digit x \<Longrightarrow> lower x \<noteq> [] \<and> \<not> is_digit (hd (lower x))" for x
    using "4.prems" by (auto simp: lower_ok_def split: if_splits)
  consider (runs) "is_digit c" "is_digit d" | (left) "is_digit c" "\<not> is_digit d" | (right) "\<not> is_digit c" "is_digit d"
    | (chars) "\<not> is_digit c" "\<not> is_digit d" by blast
  then show ?case
  proof cases
    case runs
    then show ?thesis using "4.IH"(1) "4.prems"
      by (auto simp: natural_loop.simps(4) natural_key.simps(2) starts_with_digit_def split_digit_run_def cmp_Cons cmp_run_key)
  next
    case left
    then show ?thesis using lower cmp_digit_other(1) [of c "lower d" "takeWhile is_digit (c # l)"] cmp_digit_other(3) [of c "lower d"]
      by (simp add: natural_loop.simps(4) natural_key.simps(2) starts_with_digit_def cmp_Cons)
  next
    case right
    then show ?thesis using lower cmp_digit_other(2) [of d "lower c" "takeWhile is_digit (d # r)"] cmp_digit_other(4) [of d "lower c"]
      by (simp add: natural_loop.simps(4) natural_key.simps(2) starts_with_digit_def cmp_Cons)
  next
    case chars
    then show ?thesis using "4.IH"(2) "4.prems"
      by (cases "cmp (lower c) (lower d) = Equal")
        (simp_all add: natural_loop.simps(4) natural_key.simps(2) starts_with_digit_def cmp_Cons)
  qed
qed (auto simp: cmp_def natural_key.simps(2))

lemma natural_compare_key:
  "lower_ok lower \<Longrightarrow> natural_compare lower l r = cmp (natural_key lower l, l) (natural_key lower r, r)"
  by (simp add: natural_compare_def natural_loop_key) (auto simp: cmp_def less_prod_def')


section \<open>Digit runs by value\<close>

definition digit_value :: "uchar list \<Rightarrow> nat" where
  "digit_value ds = foldl (\<lambda>v d. v * 10 + (d - 0x30)) 0 ds"

lemma digit_value_foldl: "foldl (\<lambda>v d. v * 10 + (d - 0x30)) v ds = v * 10 ^ length ds + digit_value ds"
proof (induction ds arbitrary: v)
  case (Cons d ds)
  have "digit_value (d # ds) = (d - 0x30) * 10 ^ length ds + digit_value ds"
    using Cons.IH [of "d - 0x30"] by (simp add: digit_value_def)
  then show ?case using Cons.IH [of "v * 10 + (d - 0x30)"] by (simp add: algebra_simps)
qed (simp add: digit_value_def)

lemma digit_value_Cons: "digit_value (d # ds) = (d - 0x30) * 10 ^ length ds + digit_value ds"
  using digit_value_foldl [of "d - 0x30" ds] by (simp add: digit_value_def)

lemma digit_value_less: "list_all is_digit ds \<Longrightarrow> digit_value ds < 10 ^ length ds"
proof (induction ds)
  case (Cons d ds)
  then have "d - 0x30 \<le> 9" "digit_value ds < 10 ^ length ds" by (auto simp: is_digit_def)
  then have "(d - 0x30) * 10 ^ length ds + digit_value ds < 9 * 10 ^ length ds + 10 ^ length ds"
    by (intro add_le_less_mono mult_le_mono1)
  then show ?case by (simp add: digit_value_Cons)
qed (simp add: digit_value_def)

lemma digit_value_strip: "digit_value (strip_zeros ds) = digit_value ds"
  by (induction ds) (simp_all add: strip_zeros_def digit_value_Cons)

lemma strip_zeros_digits: "list_all is_digit ds \<Longrightarrow> list_all is_digit (strip_zeros ds)"
  by (induction ds) (simp_all add: strip_zeros_def)

lemma strip_zeros_hd: "strip_zeros ds = d # es \<Longrightarrow> d \<noteq> 0x30"
  by (auto simp: strip_zeros_def dropWhile_eq_Cons_conv)

lemma digit_value_same_length:
  "length xs = length ys \<Longrightarrow> list_all is_digit xs \<Longrightarrow> list_all is_digit ys \<Longrightarrow> cmp (digit_value xs) (digit_value ys) = cmp xs ys"
proof (induction xs ys rule: list_induct2)
  case (Cons x xs y ys)
  have less: "digit_value xs < 10 ^ length ys" "digit_value ys < 10 ^ length ys"
    using digit_value_less [of xs] digit_value_less [of ys] Cons by simp_all
  have mono: "a * n + p < b * n + q" if "a < b" "p < n" for a b n p q :: nat
  proof -
    have "a * n + n \<le> b * n" using that(1) mult_le_mono1 [of "Suc a" b n] by (simp add: add.commute)
    then show ?thesis using that(2) by linarith
  qed
  consider "x = y" | "x < y" | "y < x" by linarith
  then show ?case
  proof cases
    case 1
    have "cmp (a + m) (a + n) = cmp m n" for a m n :: nat by (auto simp: cmp_def)
    then show ?thesis using 1 Cons by (simp add: digit_value_Cons cmp_Cons)
  next
    case 2
    then have "x - 0x30 < y - 0x30" using Cons.prems by (auto simp: is_digit_def)
    from mono [OF this less(1), where q = "digit_value ys"] show ?thesis using 2 Cons.hyps by (auto simp: digit_value_Cons cmp_def)
  next
    case 3
    then have "y - 0x30 < x - 0x30" using Cons.prems by (auto simp: is_digit_def)
    from mono [OF this less(2), where q = "digit_value xs"] show ?thesis using 3 Cons.hyps by (auto simp: digit_value_Cons cmp_def)
  qed
qed (simp add: digit_value_def)

lemma digit_value_shorter:
  assumes "length (strip_zeros l) < length (strip_zeros r)" "list_all is_digit l" "list_all is_digit r"
  shows "digit_value l < digit_value r"
proof -
  obtain d es where r: "strip_zeros r = d # es" using assms(1) by (cases "strip_zeros r") auto
  have "is_digit d" "d \<noteq> 0x30" using strip_zeros_digits [OF assms(3)] strip_zeros_hd [OF r] r by simp_all
  then have "1 \<le> d - 0x30" by (auto simp: is_digit_def)
  then have "1 * 10 ^ length es \<le> (d - 0x30) * 10 ^ length es" by (rule mult_le_mono1)
  then have "10 ^ length es \<le> digit_value r"
    unfolding digit_value_strip [of r, symmetric] r digit_value_Cons by linarith
  moreover have "digit_value l < 10 ^ length (strip_zeros l)"
    using digit_value_less [OF strip_zeros_digits [OF assms(2)]] by (simp add: digit_value_strip)
  moreover have "(10 :: nat) ^ length (strip_zeros l) \<le> 10 ^ length es" using assms(1) r by (intro power_increasing) auto
  ultimately show ?thesis by linarith
qed

lemma compare_digit_runs_value:
  assumes "list_all is_digit l" "list_all is_digit r"
  shows "compare_digit_runs l r = cmp (digit_value l, length l) (digit_value r, length r)"
proof -
  have "then_with (cmp (length (strip_zeros l)) (length (strip_zeros r))) (cmp (strip_zeros l) (strip_zeros r)) =
      cmp (digit_value l) (digit_value r)"
  proof (cases "length (strip_zeros l) = length (strip_zeros r)")
    case True
    then show ?thesis using digit_value_same_length [OF True strip_zeros_digits strip_zeros_digits] assms
      by (simp add: digit_value_strip)
  next
    case False
    then show ?thesis using digit_value_shorter [of l r] digit_value_shorter [of r l] assms
      by (auto simp: cmp_def nat_neq_iff)
  qed
  then show ?thesis by (simp add: compare_digit_runs_def) (auto simp: cmp_def less_prod_def')
qed

lemma natural_key_run:
  assumes "list_all is_digit ds" "ds \<noteq> []" "\<not> starts_with_digit s"
  shows "natural_key lower (ds @ s) = run_key ds # natural_key lower s"
proof -
  obtain d es where ds: "ds = d # es" using assms(2) by (cases ds) auto
  have s: "takeWhile is_digit s = []" "dropWhile is_digit s = s"
    using assms(3) by (cases s; simp add: starts_with_digit_def)+
  have "\<And>x. x \<in> set ds \<Longrightarrow> is_digit x" using assms(1) by (simp add: list_all_iff)
  then show ?thesis using s by (simp add: ds natural_key.simps(2) takeWhile_append2 dropWhile_append2)
qed

lemma dropWhile_last:
  assumes "\<not> is_digit (last xs)" "xs \<noteq> []"
  shows "takeWhile is_digit (xs @ ys) = takeWhile is_digit xs \<and> dropWhile is_digit (xs @ ys) = dropWhile is_digit xs @ ys \<and>
    dropWhile is_digit xs \<noteq> [] \<and> last (dropWhile is_digit xs) = last xs"
  using assms by (induction xs) auto

lemma natural_key_append:
  "p = [] \<or> \<not> is_digit (last p) \<Longrightarrow> natural_key lower (p @ s) = natural_key lower p @ natural_key lower s"
proof (induction lower p rule: natural_key.induct)
  case (2 lower c p)
  show ?case
  proof (cases "is_digit c")
    case True
    then have "p \<noteq> []" "\<not> is_digit (last p)" using "2.prems" by (auto split: if_splits)
    note p = dropWhile_last [OF this(2,1), of s]
    then have "natural_key lower (dropWhile is_digit p @ s) = natural_key lower (dropWhile is_digit p) @ natural_key lower s"
      using "2.IH"(1) [OF True] \<open>\<not> is_digit (last p)\<close> by simp
    then show ?thesis using True p by (simp add: natural_key.simps(2))
  next
    case False
    then show ?thesis using "2.IH"(2) "2.prems" by (auto simp: natural_key.simps(2) split: if_splits)
  qed
qed simp


section \<open>Properties\<close>

text \<open>C27. Sorting names. The comparison is a total order on names, whatever the lower case table is as long as digits
  are only their own lower case: names compare equal only when they are the same, swapping them swaps the
  result, and it is transitive. Names that share a beginning and go on with numbers of different value are
  ordered by these values, however long and padded the numbers are.\<close>

theorem natural_compare_order:
  assumes "lower_ok lower"
  shows "(natural_compare lower a b = Equal \<longleftrightarrow> a = b) \<and>
    natural_compare lower b a = reverse_ordering (natural_compare lower a b) \<and>
    (natural_compare lower a b = Less \<and> natural_compare lower b c = Less \<longrightarrow> natural_compare lower a c = Less) \<and>
    (list_all is_digit m \<and> list_all is_digit n \<and> m \<noteq> [] \<and> n \<noteq> [] \<and> (p = [] \<or> \<not> is_digit (last p)) \<and>
       \<not> starts_with_digit s \<and> \<not> starts_with_digit t \<and> digit_value m \<noteq> digit_value n \<longrightarrow>
     natural_compare lower (p @ m @ s) (p @ n @ t) = cmp (digit_value m) (digit_value n))"
proof -
  have pair: "cmp x y = Less \<and> cmp y z = Less \<longrightarrow> cmp x z = Less" "cmp y x = reverse_ordering (cmp x y)" for x y z :: "'a::linorder"
    by (auto simp: cmp_def)
  have num: "natural_compare lower (p @ m @ s) (p @ n @ t) = cmp (digit_value m) (digit_value n)"
    if "list_all is_digit m" "list_all is_digit n" "m \<noteq> []" "n \<noteq> []" "p = [] \<or> \<not> is_digit (last p)"
      "\<not> starts_with_digit s" "\<not> starts_with_digit t" "digit_value m \<noteq> digit_value n"
  proof -
    have "compare_digit_runs m n = cmp (digit_value m) (digit_value n)"
      using compare_digit_runs_value [OF that(1,2)] that(8) by (simp add: cmp_def)
    moreover have "cmp (digit_value m) (digit_value n) \<noteq> Equal" using that(8) by simp
    moreover have "natural_loop lower (p @ m @ s) (p @ n @ t) = then_with (cmp (run_key m) (run_key n)) (cmp (natural_key lower s) (natural_key lower t))"
      using that by (simp add: natural_loop_key [OF assms] natural_key_append natural_key_run cmp_append_same cmp_Cons)
    ultimately show ?thesis by (simp add: natural_compare_def cmp_run_key)
  qed
  have "natural_compare lower a b = Equal \<longleftrightarrow> a = b" unfolding natural_compare_key [OF assms] by auto
  moreover have "natural_compare lower b a = reverse_ordering (natural_compare lower a b)"
    unfolding natural_compare_key [OF assms] by (rule pair(2))
  moreover have "natural_compare lower a b = Less \<and> natural_compare lower b c = Less \<longrightarrow> natural_compare lower a c = Less"
    unfolding natural_compare_key [OF assms] by (rule pair(1))
  ultimately show ?thesis using num by blast
qed

definition ascii_lower :: "uchar \<Rightarrow> uchar list" where
  "ascii_lower c = [if 0x41 \<le> c \<and> c \<le> 0x5a then c + 0x20 else c]"

theorem natural_compare_order_witness:
  "natural_compare ascii_lower [0x61, 0x39, 0x39] [0x61, 0x31, 0x30, 0x30] = Less \<and>
   natural_compare ascii_lower [0x61, 0x31, 0x30, 0x30] [0x61, 0x39, 0x39] = Greater"
proof -
  have "lower_ok ascii_lower" by (auto simp: lower_ok_def ascii_lower_def is_digit_def)
  from natural_compare_order [OF this, of "[0x61, 0x39, 0x39]" "[0x61, 0x31, 0x30, 0x30]" _ "[0x39, 0x39]" "[0x31, 0x30, 0x30]" "[0x61]" "[]" "[]"]
  show ?thesis by (simp add: is_digit_def starts_with_digit_def digit_value_def cmp_def)
qed

end
