(* ===== verification/Logical_Lines.thy ===== *)
theory Logical_Lines
  imports Prelude
begin

unbundle bit_operations_syntax

text \<open>
  The index of soft-wrapped lines (\<open>logical_lines.rs\<close> of the terminal crate): bit maps of the rows that end a line
  and of those with a spacer before a wide character, in pages of 256 rows, with the counts before each page,
  updated row by row and queried by rank and binary search. Row positions (\<open>i64\<close>) are integers and sizes are
  naturals; a B-tree map is the list of its entries in order.
\<close>


section \<open>Pages\<close>

definition PAGE_ROWS :: int where
  "PAGE_ROWS = 256"

record Page =
  ends :: "u64 list"
  spacers :: "u64 list"

definition page_default :: Page where
  "page_default = \<lparr>ends = replicate 4 0, spacers = replicate 4 0\<rparr>"

definition page_words :: "bool \<Rightarrow> Page \<Rightarrow> u64 list" where
  "page_words sp page = (if sp then spacers page else ends page)"

definition put_bit :: "nat \<Rightarrow> bool \<Rightarrow> u64 list \<Rightarrow> u64 list" where
  "put_bit row v words =
     (let bit = push_bit (row mod 64) 1 in
      words[row div 64 := (if v then words ! (row div 64) OR bit else words ! (row div 64) AND NOT bit)])"

definition page_set :: "nat \<Rightarrow> bool \<Rightarrow> bool \<Rightarrow> Page \<Rightarrow> Page" where
  "page_set row is_end spacer page = page\<lparr>ends := put_bit row is_end (ends page), spacers := put_bit row spacer (spacers page)\<rparr>"

definition count_ones :: "u64 \<Rightarrow> nat" where
  "count_ones w = length (filter (bit w) [0..<64])"

definition page_count :: "nat \<Rightarrow> nat \<Rightarrow> bool \<Rightarrow> Page \<Rightarrow> nat" where
  "page_count start stop sp page =
     sum_list (map (\<lambda>word.
       let lo = min (start - word * 64) 64; hi = min (stop - word * 64) 64 in
       if hi \<le> lo then 0
       else count_ones (page_words sp page ! word AND push_bit lo (- 1) AND drop_bit (64 - hi) (- 1))) [0..<4])"


section \<open>The index\<close>

record IndexedPage =
  ip_number :: int
  ip_data :: Page
  ends_before :: nat
  spacers_before :: nat

record TerminalLogicalLineIndex =
  ix_start :: int
  ix_end :: int
  ix_cols :: nat
  ix_pages :: "IndexedPage list"

definition index_default :: TerminalLogicalLineIndex where
  "index_default = \<lparr>ix_start = 0, ix_end = 0, ix_cols = 0, ix_pages = []\<rparr>"

definition physical_rows :: "TerminalLogicalLineIndex \<Rightarrow> nat" where
  "physical_rows ix = nat (max (ix_end ix - ix_start ix) 0)"

definition clamp_row :: "int \<Rightarrow> nat" where
  "clamp_row i = nat (min (max i 0) PAGE_ROWS)"

definition page_before :: "bool \<Rightarrow> IndexedPage \<Rightarrow> nat" where
  "page_before sp page = (if sp then spacers_before page else ends_before page)"

definition rank :: "nat \<Rightarrow> bool \<Rightarrow> TerminalLogicalLineIndex \<Rightarrow> nat" where
  "rank row sp ix =
     (let position = min (ix_start ix + int (min row (physical_rows ix))) (ix_end ix);
          number = position div PAGE_ROWS;
          i = length (takeWhile (\<lambda>page. ip_number page < number) (ix_pages ix)) in
      if i < length (ix_pages ix) \<and> ip_number (ix_pages ix ! i) = number then
        let page = ix_pages ix ! i in
        page_before sp page
        + page_count (clamp_row (ix_start ix - number * PAGE_ROWS)) (nat (position - number * PAGE_ROWS)) sp (ip_data page)
      else if ix_pages ix \<noteq> [] then
        let page = last (ix_pages ix) in
        page_before sp page
        + page_count (clamp_row (ix_start ix - ip_number page * PAGE_ROWS)) (clamp_row (ix_end ix - ip_number page * PAGE_ROWS)) sp (ip_data page)
      else 0)"

definition logical_rows :: "TerminalLogicalLineIndex \<Rightarrow> nat" where
  "logical_rows ix = (if physical_rows ix = 0 then 0 else rank (physical_rows ix - 1) False ix + 1)"

definition logical_row :: "nat \<Rightarrow> TerminalLogicalLineIndex \<Rightarrow> nat" where
  "logical_row row ix = rank (min row (physical_rows ix - 1)) False ix"

function row_search :: "nat \<Rightarrow> TerminalLogicalLineIndex \<Rightarrow> nat \<Rightarrow> nat \<Rightarrow> nat" where
  "row_search target ix lo hi =
     (if lo < hi then
        let mid = lo + (hi - lo) div 2 in
        if rank mid False ix < target then row_search target ix (mid + 1) hi else row_search target ix lo mid
      else lo)"
  by auto
termination by (relation "measure (\<lambda>(target, ix, lo, hi). hi - lo)") auto

declare row_search.simps [simp del]

definition physical_row :: "nat \<Rightarrow> TerminalLogicalLineIndex \<Rightarrow> nat" where
  "physical_row row ix =
     (if row = 0 then 0
      else if logical_rows ix \<le> row then physical_rows ix
      else row_search row ix 0 (physical_rows ix))"

definition row_group :: "nat \<Rightarrow> TerminalLogicalLineIndex \<Rightarrow> nat \<times> nat" where
  "row_group row ix = (physical_row (logical_row row ix) ix, physical_row (logical_row row ix + 1) ix)"

definition row_width :: "nat \<Rightarrow> TerminalLogicalLineIndex \<Rightarrow> nat" where
  "row_width row ix = ix_cols ix - (rank (row + 1) True ix - rank row True ix)"

definition logical_col :: "nat \<Rightarrow> nat \<Rightarrow> TerminalLogicalLineIndex \<Rightarrow> nat" where
  "logical_col row col ix =
     (let start = physical_row (logical_row row ix) ix in
      saturating_mul (row - start) (ix_cols ix) - (rank row True ix - rank start True ix) + col)"

function col_search :: "nat \<Rightarrow> TerminalLogicalLineIndex \<Rightarrow> nat \<Rightarrow> nat \<Rightarrow> nat" where
  "col_search col ix lo hi =
     (if lo + 1 < hi then
        let mid = lo + (hi - lo) div 2 in
        if logical_col mid 0 ix \<le> col then col_search col ix mid hi else col_search col ix lo mid
      else lo)"
  by auto
termination by (relation "measure (\<lambda>(col, ix, lo, hi). hi - lo)") auto

declare col_search.simps [simp del]

definition source_position :: "nat \<Rightarrow> nat \<Rightarrow> TerminalLogicalLineIndex \<Rightarrow> nat \<times> nat" where
  "source_position row col ix =
     (let start = physical_row row ix; stop = physical_row (row + 1) ix in
      if stop \<le> start then (start, 0)
      else
        let lo = col_search col ix start stop in
        (lo, min (col - logical_col lo 0 ix) (ix_cols ix - 1)))"

definition scroll_metrics :: "nat \<Rightarrow> nat \<Rightarrow> TerminalLogicalLineIndex \<Rightarrow> nat \<times> nat" where
  "scroll_metrics physical_offset viewport ix =
     (let max_top = logical_rows ix - viewport;
          top = (if physical_offset = 0 then max_top
                 else min (logical_row (physical_rows ix - viewport - physical_offset) ix) max_top) in
      (max_top - top, max_top))"

definition physical_offset_for_logical_offset :: "nat \<Rightarrow> nat \<Rightarrow> TerminalLogicalLineIndex \<Rightarrow> nat" where
  "physical_offset_for_logical_offset logical_offset viewport ix =
     (if logical_offset = 0 then 0
      else physical_rows ix - viewport - physical_row (logical_rows ix - viewport - logical_offset) ix)"

definition offset_for_logical_scroll :: "nat \<Rightarrow> nat \<Rightarrow> int \<Rightarrow> TerminalLogicalLineIndex \<Rightarrow> nat" where
  "offset_for_logical_scroll offset viewport delta ix =
     (let total = physical_rows ix;
          anchor = total - viewport - offset;
          logical = (if offset = 0 then logical_rows ix - viewport else logical_row anchor ix);
          target = (if 0 \<le> delta then logical - nat delta else saturating_add logical (nat (- delta)));
          max_top = logical_rows ix - viewport;
          target = min target max_top in
      if target = max_top then 0 else total - viewport - physical_row target ix)"


section \<open>The cache\<close>

record TerminalHistoryState =
  epoch :: nat
  scroll_count :: nat
  alternate_screen :: bool
  scrollback_len :: nat
  cols :: nat
  viewport_rows :: nat

record LogicalLineIndexCache =
  lc_history :: "TerminalHistoryState option"
  lc_end :: int
  lc_pages :: "(int \<times> Page) list"
  lc_index :: TerminalLogicalLineIndex

definition cache_default :: LogicalLineIndexCache where
  "cache_default = \<lparr>lc_history = None, lc_end = 0, lc_pages = [], lc_index = index_default\<rparr>"

fun put_page :: "int \<Rightarrow> Page \<Rightarrow> (int \<times> Page) list \<Rightarrow> (int \<times> Page) list" where
  "put_page n page [] = [(n, page)]"
| "put_page n page ((m, p) # ps) =
     (if n < m then (n, page) # (m, p) # ps else if n = m then (n, page) # ps else (m, p) # put_page n page ps)"

definition update_row :: "int \<Rightarrow> bool \<times> bool \<Rightarrow> (int \<times> Page) list \<Rightarrow> (int \<times> Page) list" where
  "update_row position flag pages =
     (let (wrap, spacer) = flag;
          page = (case map_of pages (position div PAGE_ROWS) of None \<Rightarrow> page_default | Some p \<Rightarrow> p);
          row = nat (position mod PAGE_ROWS);
          bit = push_bit (row mod 64) 1 in
      put_page (position div PAGE_ROWS)
        (if (ends page ! (row div 64) AND bit \<noteq> 0) = wrap \<or> (spacers page ! (row div 64) AND bit \<noteq> 0) \<noteq> spacer
         then page_set row (\<not> wrap) spacer page else page) pages)"

fun index_pages :: "int \<Rightarrow> int \<Rightarrow> nat \<Rightarrow> nat \<Rightarrow> (int \<times> Page) list \<Rightarrow> IndexedPage list" where
  "index_pages start stop es ss [] = []"
| "index_pages start stop es ss ((n, page) # ps) =
     \<lparr>ip_number = n, ip_data = page, ends_before = es, spacers_before = ss\<rparr>
     # index_pages start stop
         (es + page_count (clamp_row (start - n * PAGE_ROWS)) (clamp_row (stop - n * PAGE_ROWS)) False page)
         (ss + page_count (clamp_row (start - n * PAGE_ROWS)) (clamp_row (stop - n * PAGE_ROWS)) True page) ps"

definition needs_reset :: "TerminalHistoryState \<Rightarrow> int \<Rightarrow> LogicalLineIndexCache \<Rightarrow> bool" where
  "needs_reset history stop cache =
     (case lc_history cache of
        None \<Rightarrow> True
      | Some old \<Rightarrow> epoch old \<noteq> epoch history \<or> cols old \<noteq> cols history \<or> alternate_screen old \<noteq> alternate_screen history
          \<or> stop < lc_end cache)"

definition scan_start :: "TerminalHistoryState \<Rightarrow> int \<Rightarrow> LogicalLineIndexCache \<Rightarrow> int" where
  "scan_start history origin cache =
     (let start = origin - int (scrollback_len history) in
      if needs_reset history (origin + int (viewport_rows history)) cache then start
      else max (min (lc_end cache - int (case lc_history cache of None \<Rightarrow> 0 | Some old \<Rightarrow> viewport_rows old)) origin) start)"

definition cache_update ::
  "TerminalHistoryState \<Rightarrow> int \<Rightarrow> int list \<Rightarrow> (int \<Rightarrow> bool \<times> bool) \<Rightarrow> LogicalLineIndexCache \<Rightarrow> LogicalLineIndexCache" where
  "cache_update history origin damaged flags cache =
     (let start = origin - int (scrollback_len history);
          stop = origin + int (viewport_rows history);
          pages = (if needs_reset history stop cache then [] else lc_pages cache);
          pages = filter (\<lambda>(n, _). start < (n + 1) * PAGE_ROWS \<and> n * PAGE_ROWS < stop) pages;
          from = scan_start history origin cache;
          pages = fold (\<lambda>position. update_row position (flags (position - origin))) [from..stop - 1] pages;
          pages = fold (\<lambda>line pages.
              let position = origin + line in
              if start \<le> position \<and> position < stop \<and> position < from then update_row position (flags line) pages else pages)
            damaged pages in
      \<lparr>lc_history = Some history, lc_end = stop, lc_pages = pages,
       lc_index = \<lparr>ix_start = start, ix_end = stop, ix_cols = cols history, ix_pages = index_pages start stop 0 0 pages\<rparr>\<rparr>)"


section \<open>Bits and counts\<close>

definition page_bit :: "bool \<Rightarrow> Page \<Rightarrow> nat \<Rightarrow> bool" where
  "page_bit sp page r = bit (page_words sp page ! (r div 64)) (r mod 64)"

definition page_ok :: "Page \<Rightarrow> bool" where
  "page_ok page \<longleftrightarrow> length (ends page) = 4 \<and> length (spacers page) = 4"

lemma count_ones_sum: "count_ones w = (\<Sum>k<64. of_bool (bit w k))"
proof -
  have "count_ones w = card ({k. bit w k} \<inter> set [0..<64])"
    unfolding count_ones_def by (rule distinct_length_filter) simp
  also have "\<dots> = card ({..<64} \<inter> {k. bit w k})" by (rule arg_cong [of _ _ card]) auto
  finally show ?thesis by simp
qed

lemma bit_window:
  fixes w :: u64
  assumes "k < 64" "hi \<le> 64"
  shows "bit (w AND push_bit lo (- 1) AND drop_bit (64 - hi) (- 1)) k \<longleftrightarrow> bit w k \<and> lo \<le> k \<and> k < hi"
  using assms by (auto simp: bit_simps)

lemma page_count_sum:
  assumes "stop \<le> 256"
  shows "page_count start stop sp page = (\<Sum>r\<in>{start..<stop}. of_bool (page_bit sp page r))"
proof -
  let ?f = "\<lambda>r. of_bool (page_bit sp page r \<and> start \<le> r \<and> r < stop) :: nat"
  have word: "(let lo = min (start - word * 64) 64; hi = min (stop - word * 64) 64 in
       if hi \<le> lo then 0
       else count_ones (page_words sp page ! word AND push_bit lo (- 1) AND drop_bit (64 - hi) (- 1)))
     = sum ?f {word * 64..<word * 64 + 64}" for word
  proof -
    let ?lo = "min (start - word * 64) 64" and ?hi = "min (stop - word * 64) 64" and ?w = "page_words sp page ! word"
    have shift: "sum ?f {word * 64..<word * 64 + 64} = (\<Sum>k<64. ?f (word * 64 + k))"
      using sum.shift_bounds_nat_ivl [of ?f 0 "word * 64" 64] by (simp add: lessThan_atLeast0 add.commute)
    have "?f (word * 64 + k) = of_bool (bit ?w k \<and> ?lo \<le> k \<and> k < ?hi)" if "k < 64" for k
      using that by (auto simp: page_bit_def)
    then have "sum ?f {word * 64..<word * 64 + 64} = (\<Sum>k<64. of_bool (bit ?w k \<and> ?lo \<le> k \<and> k < ?hi))"
      unfolding shift by (intro sum.cong) auto
    also have "\<dots> = (if ?hi \<le> ?lo then 0 else count_ones (?w AND push_bit ?lo (- 1) AND drop_bit (64 - ?hi) (- 1)))"
    proof (cases "?hi \<le> ?lo")
      case True
      then show ?thesis by (auto intro!: sum.neutral)
    next
      case False
      then show ?thesis unfolding count_ones_sum
        by (simp only: if_False) (intro sum.cong refl, use bit_window [of _ ?hi ?w ?lo] in auto)
    qed
    finally show ?thesis by (simp add: Let_def)
  qed
  have "page_count start stop sp page = (\<Sum>word<4. sum ?f {word * 64..<word * 64 + 64})"
    unfolding page_count_def word by (simp add: sum_list_sum_nth lessThan_atLeast0)
  also have "\<dots> = sum ?f {..<256}" using sum.nat_group [of ?f 64 4] by simp
  also have "\<dots> = (\<Sum>r\<in>{start..<stop}. of_bool (page_bit sp page r))"
    using assms by (intro sum.mono_neutral_cong_right) auto
  finally show ?thesis .
qed

lemma put_bit_at:
  assumes "row < 256" "r < 256" "length ws = 4"
  shows "bit (put_bit row v ws ! (r div 64)) (r mod 64) = (if r = row then v else bit (ws ! (r div 64)) (r mod 64))"
proof -
  have "row div 64 < 4" using assms(1) by simp
  moreover have "r mod 64 \<noteq> row mod 64" if "r div 64 = row div 64" "r \<noteq> row" using that by (metis div_mult_mod_eq)
  ultimately show ?thesis using assms(3)
    by (cases "r div 64 = row div 64") (auto simp: put_bit_def Let_def bit_simps)
qed

lemma page_set_bits:
  assumes "page_ok page" "row < 256" "r < 256"
  shows "page_bit sp (page_set row e s page) r = (if r = row then if sp then s else e else page_bit sp page r)"
    "page_ok (page_set row e s page)"
proof -
  have len: "length (page_words sp page) = 4" using assms(1) by (simp add: page_ok_def page_words_def)
  have "page_bit sp (page_set row e s page) r
      = bit (put_bit row (if sp then s else e) (page_words sp page) ! (r div 64)) (r mod 64)"
    by (simp add: page_bit_def page_words_def page_set_def)
  also have "\<dots> = (if r = row then if sp then s else e else page_bit sp page r)"
    unfolding page_bit_def by (rule put_bit_at [OF assms(2,3) len])
  finally show "page_bit sp (page_set row e s page) r = (if r = row then if sp then s else e else page_bit sp page r)" .
  show "page_ok (page_set row e s page)"
    using assms(1) by (simp add: page_set_def page_ok_def put_bit_def Let_def)
qed

lemma page_default_ok: "page_ok page_default"
  by (simp add: page_ok_def page_default_def)



section \<open>Page lists\<close>

text \<open>The flags of a row position as the pages have them: whether it ends a line, whether it has a spacer.\<close>

definition pages_flag :: "(int \<times> Page) list \<Rightarrow> bool \<Rightarrow> int \<Rightarrow> bool" where
  "pages_flag pages sp p =
     (case map_of pages (p div PAGE_ROWS) of None \<Rightarrow> False | Some page \<Rightarrow> page_bit sp page (nat (p mod PAGE_ROWS)))"

definition pages_ok :: "(int \<times> Page) list \<Rightarrow> bool" where
  "pages_ok pages \<longleftrightarrow> sorted_wrt (<) (map fst pages) \<and> list_all (\<lambda>(_, page). page_ok page) pages"

definition row_flag :: "bool \<Rightarrow> bool \<times> bool \<Rightarrow> bool" where
  "row_flag sp flag = (if sp then snd flag else \<not> fst flag)"

lemma put_page_keys: "fst ` set (put_page n page ps) = insert n (fst ` set ps)"
  by (induction n page ps rule: put_page.induct) auto

lemma put_page_map_of: "map_of (put_page n page ps) = (map_of ps)(n \<mapsto> page)"
  by (induction n page ps rule: put_page.induct) auto

lemma put_page_ok: "pages_ok ps \<Longrightarrow> page_ok page \<Longrightarrow> pages_ok (put_page n page ps)"
proof (induction n page ps rule: put_page.induct)
  case (2 n page m p ps)
  then have "pages_ok ps" by (simp add: pages_ok_def)
  then show ?case using 2 put_page_keys [of n page ps] by (auto simp: pages_ok_def)
qed (simp add: pages_ok_def)

lemma pages_ok_page: "pages_ok ps \<Longrightarrow> map_of ps n = Some page \<Longrightarrow> page_ok page"
  by (auto simp: pages_ok_def list_all_iff dest!: map_of_SomeD)

lemma row_same_iff: "(p :: int) div 256 = q div 256 \<Longrightarrow> nat (p mod 256) = nat (q mod 256) \<longleftrightarrow> p = q"
proof -
  assume d: "p div 256 = q div 256"
  have "p mod 256 = q mod 256 \<longleftrightarrow> p = q" using d by (metis div_mult_mod_eq)
  then show ?thesis by (auto simp: nat_eq_iff2)
qed

lemma row_less: "nat (p mod PAGE_ROWS) < 256"
  by (simp add: PAGE_ROWS_def nat_less_iff)

lemma update_row_ok:
  assumes "pages_ok ps"
  shows "pages_ok (update_row p flag ps)" "fst ` set (update_row p flag ps) = insert (p div PAGE_ROWS) (fst ` set ps)"
    "pages_flag (update_row p flag ps) sp q = (if q = p then row_flag sp flag else pages_flag ps sp q)"
proof -
  obtain wrap spacer where flag: "flag = (wrap, spacer)" by fastforce
  let ?r = "nat (p mod PAGE_ROWS)" and ?n = "p div PAGE_ROWS"
  define page where "page = (case map_of ps ?n of None \<Rightarrow> page_default | Some page \<Rightarrow> page)"
  define new where "new = (if page_bit False page ?r = wrap \<or> page_bit True page ?r \<noteq> spacer
      then page_set ?r (\<not> wrap) spacer page else page)"
  have up: "update_row p flag ps = put_page ?n new ps"
    unfolding update_row_def flag page_def new_def page_bit_def page_words_def bit_iff_and_push_bit_not_eq_0 Let_def
    by simp
  have ok: "page_ok page" using pages_ok_page [OF assms] page_default_ok by (auto simp: page_def split: option.splits)
  have bits: "page_bit sp new r = (if r = ?r then row_flag sp flag else page_bit sp page r)" if "r < 256" for r sp
    using page_set_bits(1) [OF ok row_less that, of sp p "\<not> wrap" spacer] by (auto simp: new_def flag row_flag_def)
  have "page_ok new" using ok page_set_bits(2) [OF ok row_less row_less] by (simp add: new_def)
  then show "pages_ok (update_row p flag ps)" unfolding up by (rule put_page_ok [OF assms])
  show "fst ` set (update_row p flag ps) = insert ?n (fst ` set ps)" unfolding up by (rule put_page_keys)
  have default: "page_bit sp page_default r = False" if "r < 256" for r
    using that by (simp add: page_bit_def page_words_def page_default_def)
  show "pages_flag (update_row p flag ps) sp q = (if q = p then row_flag sp flag else pages_flag ps sp q)"
  proof (cases "q div PAGE_ROWS = ?n")
    case True
    then have "nat (q mod PAGE_ROWS) = ?r \<longleftrightarrow> q = p" using row_same_iff [of q p] by (simp add: PAGE_ROWS_def)
    moreover have "page_bit sp page (nat (q mod PAGE_ROWS)) = pages_flag ps sp q"
      using True default [OF row_less] by (simp add: pages_flag_def page_def split: option.splits)
    ultimately show ?thesis using True bits [OF row_less, of sp q] by (simp add: pages_flag_def up put_page_map_of)
  next
    case False
    then have "q \<noteq> p" by auto
    then show ?thesis using False by (simp add: pages_flag_def up put_page_map_of)
  qed
qed


section \<open>Counting rows\<close>

definition row_count :: "(int \<Rightarrow> bool) \<Rightarrow> int \<Rightarrow> int \<Rightarrow> nat" where
  "row_count f a b = (\<Sum>p\<in>{a..<b}. of_bool (f p))"

lemma page_of:
  "p div PAGE_ROWS = n \<longleftrightarrow> n * PAGE_ROWS \<le> p \<and> p < (n + 1) * PAGE_ROWS"
  "n * PAGE_ROWS \<le> p \<longleftrightarrow> n \<le> p div PAGE_ROWS"
proof -
  have p: "p = p div PAGE_ROWS * PAGE_ROWS + p mod PAGE_ROWS" "0 \<le> p mod PAGE_ROWS" "p mod PAGE_ROWS < PAGE_ROWS"
    by (simp_all add: PAGE_ROWS_def)
  show le: "n * PAGE_ROWS \<le> p \<longleftrightarrow> n \<le> p div PAGE_ROWS" for n
    using p unfolding PAGE_ROWS_def by linarith
  show "p div PAGE_ROWS = n \<longleftrightarrow> n * PAGE_ROWS \<le> p \<and> p < (n + 1) * PAGE_ROWS"
    using le [of n] le [of "n + 1"] by linarith
qed

lemma row_count_window:
  "row_count (\<lambda>p. p div PAGE_ROWS = n \<and> f p) a b = row_count f (max a (n * PAGE_ROWS)) (min b ((n + 1) * PAGE_ROWS))"
  unfolding row_count_def by (intro sum.mono_neutral_cong_right) (auto simp: page_of(1))

lemma page_count_rows:
  "page_count (clamp_row (a - n * PAGE_ROWS)) (clamp_row (b - n * PAGE_ROWS)) sp page
     = row_count (\<lambda>p. page_bit sp page (nat (p mod PAGE_ROWS))) (max a (n * PAGE_ROWS)) (min b ((n + 1) * PAGE_ROWS))"
proof -
  let ?lo = "clamp_row (a - n * PAGE_ROWS)" and ?hi = "clamp_row (b - n * PAGE_ROWS)"
  have hi: "?hi \<le> 256" by (simp add: clamp_row_def PAGE_ROWS_def)
  have row: "nat ((n * PAGE_ROWS + int r) mod PAGE_ROWS) = r" if "r < 256" for r
    using that by (simp add: PAGE_ROWS_def)
  show ?thesis unfolding row_count_def page_count_sum [OF hi]
  proof (rule sum.reindex_bij_witness [where i = "\<lambda>p. nat (p - n * PAGE_ROWS)" and j = "\<lambda>r. n * PAGE_ROWS + int r"])
    show "of_bool (page_bit sp page (nat ((n * PAGE_ROWS + int r) mod PAGE_ROWS))) = of_bool (page_bit sp page r)"
      if "r \<in> {?lo..<?hi}" for r using row [of r] that hi by simp
  qed (auto simp: clamp_row_def PAGE_ROWS_def)
qed

lemma pages_flag_Cons:
  assumes "pages_ok ((n, page) # ps)"
  shows "row_count (pages_flag ((n, page) # ps) sp) a b
    = row_count (\<lambda>p. p div PAGE_ROWS = n \<and> page_bit sp page (nat (p mod PAGE_ROWS))) a b + row_count (pages_flag ps sp) a b"
proof -
  have "map_of ps n = None" using assms by (auto simp: pages_ok_def map_of_eq_None_iff)
  then show ?thesis unfolding row_count_def sum.distrib [symmetric]
    by (intro sum.cong) (auto simp: pages_flag_def)
qed

definition page_rows :: "int \<Rightarrow> int \<Rightarrow> bool \<Rightarrow> int \<times> Page \<Rightarrow> nat" where
  "page_rows a b sp np = page_count (clamp_row (a - fst np * PAGE_ROWS)) (clamp_row (b - fst np * PAGE_ROWS)) sp (snd np)"

lemma pages_count: "pages_ok ps \<Longrightarrow> row_count (pages_flag ps sp) a b = sum_list (map (page_rows a b sp) ps)"
proof (induction ps)
  case Nil
  then show ?case by (simp add: row_count_def pages_flag_def)
next
  case (Cons np ps)
  obtain n page where np: "np = (n, page)" by fastforce
  have "pages_ok ps" using Cons.prems by (simp add: pages_ok_def)
  then show ?case using Cons.IH pages_flag_Cons [OF Cons.prems [unfolded np]]
    by (simp add: np page_rows_def page_count_rows row_count_window)
qed

lemma index_pages_length [simp]: "length (index_pages start stop es ss ps) = length ps"
  by (induction start stop es ss ps rule: index_pages.induct) simp_all

lemma index_pages_nth:
  "i < length ps \<Longrightarrow> ip_number (index_pages start stop es ss ps ! i) = fst (ps ! i)
     \<and> ip_data (index_pages start stop es ss ps ! i) = snd (ps ! i)
     \<and> page_before sp (index_pages start stop es ss ps ! i)
       = (if sp then ss else es) + sum_list (map (page_rows start stop sp) (take i ps))"
proof (induction start stop es ss ps arbitrary: i rule: index_pages.induct)
  case (2 start stop es ss n page ps)
  show ?case
  proof (cases i)
    case 0
    then show ?thesis by (simp add: page_before_def)
  next
    case (Suc j)
    then show ?thesis using 2(1) [of j] 2(2) by (simp add: page_rows_def)
  qed
qed simp

lemma index_pages_numbers: "map ip_number (index_pages start stop es ss ps) = map fst ps"
  by (induction start stop es ss ps rule: index_pages.induct) simp_all


section \<open>Ranks\<close>

definition index_of :: "int \<Rightarrow> int \<Rightarrow> nat \<Rightarrow> (int \<times> Page) list \<Rightarrow> TerminalLogicalLineIndex" where
  "index_of start stop n ps = \<lparr>ix_start = start, ix_end = stop, ix_cols = n, ix_pages = index_pages start stop 0 0 ps\<rparr>"

definition pages_cover :: "int \<Rightarrow> int \<Rightarrow> (int \<times> Page) list \<Rightarrow> bool" where
  "pages_cover start stop ps \<longleftrightarrow> start \<le> stop \<and> (\<forall>p. start \<le> p \<and> p < stop \<longrightarrow> p div PAGE_ROWS \<in> fst ` set ps)"

lemma page_rows_before:
  assumes "(fst np + 1) * PAGE_ROWS \<le> b" "b \<le> stop"
  shows "page_rows a b sp np = page_rows a stop sp np"
  using assms by (simp add: page_rows_def clamp_row_def PAGE_ROWS_def)

lemma page_rows_after:
  assumes "b \<le> fst np * PAGE_ROWS"
  shows "page_rows a b sp np = 0"
  unfolding page_rows_def page_count_rows row_count_def using assms by (simp add: PAGE_ROWS_def)

lemma rank_found:
  assumes ok: "pages_ok ps" and i: "i < length ps" "fst (ps ! i) = b div PAGE_ROWS" and b: "b \<le> stop"
  shows "sum_list (map (page_rows a stop sp) (take i ps)) + page_rows a b sp (ps ! i) = row_count (pages_flag ps sp) a b"
proof -
  have sorted: "fst (ps ! j) < fst (ps ! k)" if "j < k" "k < length ps" for j k
    using ok that by (simp add: pages_ok_def sorted_wrt_iff_nth_less)
  have before: "page_rows a b sp np = page_rows a stop sp np" if np: "np \<in> set (take i ps)" for np
  proof (rule page_rows_before [OF _ b])
    obtain j where "j < i" "np = ps ! j" using np i(1) by (auto simp: in_set_conv_nth)
    then have "fst np < b div PAGE_ROWS" using sorted [of j i] i by simp
    then show "(fst np + 1) * PAGE_ROWS \<le> b" by (simp add: page_of(2))
  qed
  have after: "page_rows a b sp np = 0" if np: "np \<in> set (drop (Suc i) ps)" for np
  proof (rule page_rows_after)
    obtain j where "j < length ps - Suc i" "np = ps ! (Suc i + j)" using np i(1) by (auto simp: in_set_conv_nth)
    then have "b div PAGE_ROWS < fst np" using sorted [of i "Suc i + j"] i by simp
    then show "b \<le> fst np * PAGE_ROWS" using page_of(2) [of "fst np" b] by linarith
  qed
  have "sum_list (map (page_rows a b sp) ps) = sum_list (map (page_rows a b sp) (take i ps @ ps ! i # drop (Suc i) ps))"
    using i(1) by (simp add: id_take_nth_drop [symmetric])
  also have "\<dots> = sum_list (map (page_rows a stop sp) (take i ps)) + page_rows a b sp (ps ! i)"
    using before after by (simp add: sum_list_0 cong: map_cong)
  finally show ?thesis by (simp add: pages_count [OF ok])
qed

lemma sorted_position:
  assumes "sorted_wrt (<) (map f xs)" "n \<in> f ` set xs"
  shows "length (takeWhile (\<lambda>x. f x < (n :: int)) xs) < length xs
    \<and> f (xs ! length (takeWhile (\<lambda>x. f x < n) xs)) = n"
  using assms by (induction xs) auto

lemma position_found:
  "length (takeWhile (\<lambda>x. f x < (n :: int)) xs) < length xs \<and> f (xs ! length (takeWhile (\<lambda>x. f x < n) xs)) = n
    \<longleftrightarrow> n \<in> f ` set xs" if "sorted_wrt (<) (map f xs)"
  using sorted_position [OF that] by (metis imageI nth_mem)

lemma index_pages_last:
  "(if index_pages start stop 0 0 ps \<noteq> [] then page_before sp (last (index_pages start stop 0 0 ps))
       + page_rows start stop sp (ip_number (last (index_pages start stop 0 0 ps)), ip_data (last (index_pages start stop 0 0 ps)))
    else 0) = sum_list (map (page_rows start stop sp) ps)"
proof (cases "ps = []")
  case False
  let ?pages = "index_pages start stop 0 0 ps" and ?l = "length ps - 1"
  have l: "?l < length ps" using False by simp
  have "?pages \<noteq> []" using False by (metis index_pages_length length_0_conv)
  moreover have "last ?pages = ?pages ! ?l" using calculation last_conv_nth [of ?pages] by simp
  moreover have "sum_list (map (page_rows start stop sp) (take ?l ps)) + page_rows start stop sp (ps ! ?l)
      = sum_list (map (page_rows start stop sp) ps)"
    using False by (cases ps rule: rev_cases) simp_all
  ultimately show ?thesis using index_pages_nth [OF l, of start stop 0 0 sp] by simp
qed simp

lemma rank_rows:
  assumes ok: "pages_ok ps" and cover: "pages_cover start stop ps"
  shows "rank row sp (index_of start stop n ps)
    = row_count (pages_flag ps sp) start (start + int (min row (nat (stop - start))))"
proof -
  let ?ix = "index_of start stop n ps" and ?pages = "index_pages start stop 0 0 ps"
  define b where "b = start + int (min row (nat (stop - start)))"
  have b: "start \<le> b" "b \<le> stop" using cover by (auto simp: b_def pages_cover_def)
  have pos: "min (ix_start ?ix + int (min row (physical_rows ?ix))) (ix_end ?ix) = b"
    using b by (simp add: index_of_def physical_rows_def b_def max_absorb1)
  define i where "i = length (takeWhile (\<lambda>page. ip_number page < b div PAGE_ROWS) ?pages)"
  have "sorted_wrt (<) (map ip_number ?pages)" using ok by (simp add: index_pages_numbers pages_ok_def)
  then have found: "i < length ?pages \<and> ip_number (?pages ! i) = b div PAGE_ROWS
      \<longleftrightarrow> b div PAGE_ROWS \<in> ip_number ` set ?pages"
    unfolding i_def by (rule position_found)
  have keys: "ip_number ` set ?pages = fst ` set ps" by (metis index_pages_numbers list.set_map)
  have rank: "rank row sp ?ix = (if i < length ?pages \<and> ip_number (?pages ! i) = b div PAGE_ROWS
      then page_before sp (?pages ! i) + page_count (clamp_row (start - b div PAGE_ROWS * PAGE_ROWS))
             (nat (b - b div PAGE_ROWS * PAGE_ROWS)) sp (ip_data (?pages ! i))
      else if ?pages \<noteq> [] then page_before sp (last ?pages) + page_rows start stop sp (ip_number (last ?pages), ip_data (last ?pages))
      else 0)"
    unfolding rank_def pos Let_def page_rows_def by (simp add: index_of_def i_def)
  show ?thesis
  proof (cases "b div PAGE_ROWS \<in> fst ` set ps")
    case True
    then have i: "i < length ps" "ip_number (?pages ! i) = b div PAGE_ROWS" using found keys by auto
    have "b - b div PAGE_ROWS * PAGE_ROWS = b mod PAGE_ROWS" by (simp add: minus_div_mult_eq_mod)
    then have "nat (b - b div PAGE_ROWS * PAGE_ROWS) = clamp_row (b - b div PAGE_ROWS * PAGE_ROWS)"
      by (simp add: clamp_row_def PAGE_ROWS_def)
    then have "rank row sp ?ix = sum_list (map (page_rows start stop sp) (take i ps)) + page_rows start b sp (ps ! i)"
      using i index_pages_nth [OF i(1), of start stop 0 0 sp] unfolding rank by (simp add: page_rows_def)
    also have "\<dots> = row_count (pages_flag ps sp) start b"
      using i index_pages_nth [OF i(1), of start stop 0 0 sp] by (intro rank_found [OF ok i(1) _ b(2)]) simp
    finally show ?thesis unfolding b_def .
  next
    case False
    then have stop: "b = stop" using cover b by (force simp: pages_cover_def)
    then have "rank row sp ?ix = row_count (pages_flag ps sp) start stop"
      using False found keys index_pages_last [of start stop ps sp] unfolding rank pages_count [OF ok] by auto
    then show ?thesis using stop by (simp add: b_def)
  qed
qed


section \<open>Lines\<close>

text \<open>What an index says of its rows: the ranks count the flags of the rows before.\<close>

definition flag_count :: "(nat \<Rightarrow> bool) \<Rightarrow> nat \<Rightarrow> nat" where
  "flag_count f n = (\<Sum>i<n. of_bool (f i))"

definition indexes :: "TerminalLogicalLineIndex \<Rightarrow> (bool \<Rightarrow> nat \<Rightarrow> bool) \<Rightarrow> bool" where
  "indexes ix f \<longleftrightarrow> (\<forall>row sp. rank row sp ix = flag_count (f sp) (min row (physical_rows ix)))"

lemma flag_count_Suc [simp]: "flag_count f (Suc n) = flag_count f n + of_bool (f n)" "flag_count f 0 = 0"
  by (simp_all add: flag_count_def)

lemma flag_count_mono: "m \<le> n \<Longrightarrow> flag_count f m \<le> flag_count f n"
  by (induction rule: dec_induct) simp_all

lemma flag_count_gap: "m \<le> n \<Longrightarrow> flag_count f n \<le> flag_count f m + (n - m)"
  by (induction rule: dec_induct) (simp_all add: Suc_diff_le)

lemma flag_count_eq: "m \<le> n \<Longrightarrow> flag_count f m = flag_count f n \<longleftrightarrow> (\<forall>k. m \<le> k \<and> k < n \<longrightarrow> \<not> f k)"
proof (induction rule: dec_induct)
  case (step n)
  have "flag_count f m \<le> flag_count f n" by (rule flag_count_mono [OF step.hyps(1)])
  then show ?case using step by (auto simp: less_Suc_eq)
qed auto

lemma flag_count_same: "flag_count f j = flag_count f i \<longleftrightarrow> (\<forall>k. min i j \<le> k \<and> k < max i j \<longrightarrow> \<not> f k)"
  using flag_count_eq [of i j f] flag_count_eq [of j i f] by (cases "i \<le> j") (auto simp: min_def max_def)

lemma row_search_least:
  assumes "indexes ix f" "lo \<le> hi" "hi \<le> physical_rows ix" "row \<le> flag_count (f False) hi"
    "\<forall>j<lo. flag_count (f False) j < row"
  shows "row_search row ix lo hi \<le> hi \<and> row \<le> flag_count (f False) (row_search row ix lo hi)
    \<and> (\<forall>j<row_search row ix lo hi. flag_count (f False) j < row)"
  using assms
proof (induction row ix lo hi rule: row_search.induct)
  case (1 row ix lo hi)
  show ?case
  proof (cases "lo < hi")
    case True
    define mid where "mid = lo + (hi - lo) div 2"
    have mid: "lo \<le> mid" "mid < hi" using True by (auto simp: mid_def)
    have rank: "rank mid False ix = flag_count (f False) mid" using 1(3,5) mid by (simp add: indexes_def)
    have search: "row_search row ix lo hi
        = (if flag_count (f False) mid < row then row_search row ix (mid + 1) hi else row_search row ix lo mid)"
      using True rank by (simp add: row_search.simps [of row ix lo hi] mid_def [symmetric] Let_def)
    show ?thesis
    proof (cases "flag_count (f False) mid < row")
      case less: True
      have "\<forall>j<mid + 1. flag_count (f False) j < row"
        using less flag_count_mono [of _ mid "f False"] by (metis le_less_trans less_Suc_eq_le Suc_eq_plus1)
      then show ?thesis using 1(1) [OF True mid_def] 1(3-) less mid rank unfolding search by simp
    next
      case False
      then show ?thesis using 1(2) [OF True mid_def] 1(3-) mid rank unfolding search by auto
    qed
  next
    case False
    then have "row_search row ix lo hi = lo" by (simp add: row_search.simps)
    then show ?thesis using 1(3-) False by simp
  qed
qed

lemma logical_rows_count:
  "indexes ix f \<Longrightarrow> logical_rows ix = (if physical_rows ix = 0 then 0 else flag_count (f False) (physical_rows ix - 1) + 1)"
  by (simp add: logical_rows_def indexes_def)

lemma logical_row_count: "indexes ix f \<Longrightarrow> i < physical_rows ix \<Longrightarrow> logical_row i ix = flag_count (f False) i"
  by (simp add: logical_row_def indexes_def)

lemma physical_row_least:
  assumes "indexes ix f" "row < logical_rows ix"
  shows "physical_row row ix < physical_rows ix" "flag_count (f False) (physical_row row ix) = row"
    "\<forall>j<physical_row row ix. flag_count (f False) j < row"
proof -
  let ?R = "physical_rows ix" and ?c = "flag_count (f False)"
  have R: "0 < ?R" "row \<le> ?c (?R - 1)" using assms logical_rows_count [OF assms(1)] by (auto split: if_splits)
  have least: "row \<le> ?c (physical_row row ix)" "\<forall>j<physical_row row ix. ?c j < row"
  proof -
    have "row \<le> ?c ?R" using R(2) flag_count_mono [of "?R - 1" ?R "f False"] by simp
    then show "row \<le> ?c (physical_row row ix)" "\<forall>j<physical_row row ix. ?c j < row"
      using assms row_search_least [OF assms(1), of 0 ?R row] by (simp_all add: physical_row_def)
  qed
  show "\<forall>j<physical_row row ix. ?c j < row" by (rule least(2))
  show "physical_row row ix < ?R"
  proof (rule ccontr)
    assume "\<not> physical_row row ix < ?R"
    then show False using spec [OF least(2), of "?R - 1"] R by simp
  qed
  show "?c (physical_row row ix) = row"
  proof (cases "physical_row row ix")
    case 0
    then show ?thesis using least(1) by simp
  next
    case (Suc j)
    then show ?thesis using least(1) spec [OF least(2), of j] by (cases "f False j") simp_all
  qed
qed

lemma physical_row_end: "logical_rows ix \<le> row \<Longrightarrow> 0 < row \<Longrightarrow> physical_row row ix = physical_rows ix"
  by (simp add: physical_row_def)

lemma row_group_rows:
  assumes "indexes ix f" "i < physical_rows ix"
  shows "physical_row (logical_row i ix) ix \<le> j \<and> j < physical_row (logical_row i ix + 1) ix
    \<longleftrightarrow> j < physical_rows ix \<and> flag_count (f False) j = flag_count (f False) i"
proof -
  let ?R = "physical_rows ix" and ?c = "flag_count (f False)"
  have row: "logical_row i ix = ?c i" by (rule logical_row_count [OF assms])
  have rows: "logical_rows ix = ?c (?R - 1) + 1" using assms logical_rows_count [OF assms(1)] by simp
  have top: "?c k \<le> ?c (?R - 1)" if "k < ?R" for k using that by (intro flag_count_mono) simp
  have below: "?c i < logical_rows ix" using top [OF assms(2)] rows by simp
  note s = physical_row_least [OF assms(1) below]
  have lower: "physical_row (?c i) ix \<le> j \<longleftrightarrow> ?c i \<le> ?c j"
    using s(2,3) flag_count_mono [of "physical_row (?c i) ix" j "f False"] by (metis leD leI)
  show ?thesis
  proof (cases "?c i + 1 < logical_rows ix")
    case True
    note e = physical_row_least [OF assms(1) True]
    have "j < physical_row (?c i + 1) ix \<longleftrightarrow> ?c j < ?c i + 1"
      using e(2,3) flag_count_mono [of "physical_row (?c i + 1) ix" j "f False"] by (metis leD leI)
    moreover have "j < ?R" if "?c j < ?c i + 1"
      using that True rows flag_count_mono [of "?R - 1" j "f False"] by linarith
    ultimately show ?thesis unfolding row lower by auto
  next
    case False
    then have "physical_row (?c i + 1) ix = ?R" by (intro physical_row_end) simp_all
    moreover have "?c j = ?c i" if "j < ?R" "?c i \<le> ?c j" using that False rows top [OF that(1)] by simp
    ultimately show ?thesis unfolding row lower by auto
  qed
qed


section \<open>Columns\<close>

lemma col_search_range:
  assumes "lo < hi" "\<forall>m. lo \<le> m \<and> m < hi \<longrightarrow> logical_col m 0 ix = P m" "P lo \<le> col"
  shows "lo \<le> col_search col ix lo hi \<and> col_search col ix lo hi < hi \<and> P (col_search col ix lo hi) \<le> col
    \<and> (col_search col ix lo hi + 1 = hi \<or> col < P (col_search col ix lo hi + 1))"
  using assms
proof (induction col ix lo hi rule: col_search.induct)
  case (1 col ix lo hi)
  show ?case
  proof (cases "lo + 1 < hi")
    case True
    define mid where "mid = lo + (hi - lo) div 2"
    have mid: "lo < mid" "mid < hi" using True by (auto simp: mid_def)
    have P: "logical_col mid 0 ix = P mid" using 1(4) mid by simp
    have search: "col_search col ix lo hi = (if P mid \<le> col then col_search col ix mid hi else col_search col ix lo mid)"
      using True P by (simp add: col_search.simps [of col ix lo hi] mid_def [symmetric] Let_def)
    show ?thesis
    proof (cases "P mid \<le> col")
      case le: True
      then show ?thesis using 1(1) [OF True mid_def] 1(4) mid P unfolding search by simp
    next
      case False
      then show ?thesis using 1(2) [OF True mid_def] 1(4,5) mid P unfolding search by fastforce
    qed
  next
    case False
    then have "col_search col ix lo hi = lo" by (simp add: col_search.simps)
    then show ?thesis using 1(3,5) False by simp
  qed
qed

definition line_col :: "TerminalLogicalLineIndex \<Rightarrow> (bool \<Rightarrow> nat \<Rightarrow> bool) \<Rightarrow> nat \<Rightarrow> nat \<Rightarrow> nat" where
  "line_col ix f s m = (m - s) * ix_cols ix - (flag_count (f True) m - flag_count (f True) s)"

lemma line_col_Suc:
  assumes "0 < ix_cols ix" "s \<le> m"
  shows "line_col ix f s (Suc m) = line_col ix f s m + (ix_cols ix - of_bool (f True m))"
proof -
  let ?n = "ix_cols ix" and ?d = "flag_count (f True) m - flag_count (f True) s"
  have "?d \<le> m - s" using flag_count_gap [OF assms(2), of "f True"] by simp
  also have "\<dots> \<le> (m - s) * ?n" using assms(1) by simp
  finally have d: "?d \<le> (m - s) * ?n" .
  have le: "flag_count (f True) s \<le> flag_count (f True) m" by (rule flag_count_mono [OF assms(2)])
  have "(Suc m - s) * ?n = (m - s) * ?n + ?n" using assms(2) by (simp add: Suc_diff_le)
  then show ?thesis using d le assms(1) unfolding line_col_def by (simp add: of_bool_def)
qed

lemma line_col_mono:
  assumes "0 < ix_cols ix" "s \<le> m" "m \<le> k"
  shows "line_col ix f s m \<le> line_col ix f s k"
  using assms(3)
proof (induction rule: dec_induct)
  case (step n)
  have "line_col ix f s n \<le> line_col ix f s (Suc n)" using line_col_Suc [OF assms(1), of s n f] assms(2) step by simp
  then show ?case using step by linarith
qed simp

lemma row_width_count:
  "indexes ix f \<Longrightarrow> i < physical_rows ix \<Longrightarrow> row_width i ix = ix_cols ix - of_bool (f True i)"
  by (simp add: row_width_def indexes_def)

lemma logical_col_line:
  assumes "indexes ix f" "i < physical_rows ix" "physical_rows ix * ix_cols ix < 2 ^ 64"
  shows "logical_col i c ix = line_col ix f (physical_row (logical_row i ix) ix) i + c"
proof -
  let ?s = "physical_row (logical_row i ix) ix"
  have s: "?s \<le> i" using row_group_rows [OF assms(1,2), of i] assms(2) by simp
  have "(i - ?s) * ix_cols ix \<le> physical_rows ix * ix_cols ix" using assms(2) by (intro mult_right_mono) simp_all
  then have "saturating_mul (i - ?s) (ix_cols ix) = (i - ?s) * ix_cols ix"
    using assms(3) unfolding saturating_mul_def by linarith
  then show ?thesis using assms(1,2) s by (simp add: logical_col_def line_col_def Let_def indexes_def)
qed

lemma source_position_inverse:
  assumes ix: "indexes ix f" and i: "i < physical_rows ix" and small: "physical_rows ix * ix_cols ix < 2 ^ 64"
    and c: "c < row_width i ix"
  shows "source_position (logical_row i ix) (logical_col i c ix) ix = (i, c)"
proof -
  let ?s = "physical_row (logical_row i ix) ix" and ?e = "physical_row (logical_row i ix + 1) ix"
  let ?P = "line_col ix f ?s" and ?col = "logical_col i c ix"
  note group = row_group_rows [OF ix i]
  have bounds: "?s \<le> i" "i < ?e" using group [of i] i by simp_all
  have width: "c < ix_cols ix - of_bool (f True i)" using c row_width_count [OF ix i] by simp
  then have pos: "0 < ix_cols ix" by simp
  have col: "?col = ?P i + c" by (rule logical_col_line [OF ix i small])
  have same: "logical_row m ix = logical_row i ix" "m < physical_rows ix" if "?s \<le> m" "m < ?e" for m
    using group [of m] that i by (simp_all add: logical_row_count [OF ix])
  have P: "\<forall>m. ?s \<le> m \<and> m < ?e \<longrightarrow> logical_col m 0 ix = ?P m"
    using logical_col_line [OF ix same(2) small, of _ 0] same(1) by simp
  have zero: "?P ?s \<le> ?col" by (simp add: line_col_def)
  define l where "l = col_search ?col ix ?s ?e"
  have l: "?s \<le> l" "l < ?e" "?P l \<le> ?col" "l + 1 = ?e \<or> ?col < ?P (l + 1)"
    using col_search_range [OF _ P zero] bounds unfolding l_def by simp_all
  have "?col < ?P (Suc i)" using line_col_Suc [OF pos bounds(1), of f] width col by simp
  then have "l \<le> i" using l(3) line_col_mono [OF pos _ , of ?s "Suc i" l f] bounds(1) by (meson le_SucI leD leI le_trans Suc_leI)
  moreover have "i \<le> l" using l(4) bounds line_col_mono [OF pos, of ?s "l + 1" i f] l(1) col by fastforce
  ultimately have found: "col_search ?col ix ?s ?e = i" unfolding l_def by (rule antisym)
  have "logical_col i 0 ix = ?P i" using P bounds by simp
  then have "min (?col - logical_col i 0 ix) (ix_cols ix - 1) = c" using col width by simp
  then show ?thesis using bounds unfolding source_position_def Let_def found by simp
qed


section \<open>Scrolling\<close>

lemma logical_rows_remaining:
  assumes "indexes ix f" "row < logical_rows ix"
  shows "physical_row row ix + (logical_rows ix - row) \<le> physical_rows ix"
proof -
  note p = physical_row_least [OF assms]
  have "flag_count (f False) (physical_rows ix - 1) \<le> row + (physical_rows ix - 1 - physical_row row ix)"
    using flag_count_gap [of "physical_row row ix" "physical_rows ix - 1" "f False"] p(1,2) by simp
  then show ?thesis using p(1) assms(2) logical_rows_count [OF assms(1)] by (simp split: if_splits)
qed

lemma offset_top:
  assumes "indexes ix f" "0 < away" "away \<le> logical_rows ix - viewport"
  shows "physical_rows ix - viewport - physical_offset_for_logical_offset away viewport ix
      = physical_row (logical_rows ix - viewport - away) ix"
    "0 < physical_offset_for_logical_offset away viewport ix"
    "logical_row (physical_row (logical_rows ix - viewport - away) ix) ix = logical_rows ix - viewport - away"
proof -
  let ?top = "logical_rows ix - viewport - away"
  have top: "?top < logical_rows ix" using assms(2,3) by simp
  have "physical_row ?top ix + viewport + away \<le> physical_rows ix"
    using logical_rows_remaining [OF assms(1) top] assms(2,3) by simp
  then show "physical_rows ix - viewport - physical_offset_for_logical_offset away viewport ix = physical_row ?top ix"
    "0 < physical_offset_for_logical_offset away viewport ix"
    using assms(2) by (simp_all add: physical_offset_for_logical_offset_def)
  show "logical_row (physical_row ?top ix) ix = ?top"
    using physical_row_least [OF assms(1) top] logical_row_count [OF assms(1)] by simp
qed

lemma scroll_metrics_offset:
  assumes "indexes ix f" "away \<le> logical_rows ix - viewport"
  shows "scroll_metrics (physical_offset_for_logical_offset away viewport ix) viewport ix = (away, logical_rows ix - viewport)"
proof (cases "away = 0")
  case True
  then show ?thesis by (simp add: scroll_metrics_def physical_offset_for_logical_offset_def Let_def)
next
  case False
  then show ?thesis using offset_top [OF assms(1) _ assms(2)] assms(2) by (simp add: scroll_metrics_def Let_def)
qed

lemma scroll_target:
  assumes "away \<le> m" "m < 2 ^ 64"
  shows "min (if 0 \<le> delta then m - away - nat delta else saturating_add (m - away) (nat (- delta))) m
    = m - nat (max 0 (min (int away + delta) (int m)))"
proof (cases "0 \<le> delta")
  case True
  then show ?thesis using assms(1) by (simp add: min_def nat_diff_distrib) linarith
next
  case False
  define k where "k = nat (- delta)"
  have delta: "delta = - int k" using False by (simp add: k_def)
  have "nat (max 0 (min (int away + delta) (int m))) = away - k" using assms(1) by (simp add: delta)
  moreover have "min (min (m - away + k) (2 ^ 64 - 1)) m = m - (away - k)"
    using assms unfolding min_def by (simp split: if_splits)
  ultimately show ?thesis using False unfolding saturating_add_def k_def [symmetric] by simp
qed

lemma scroll_by_offset:
  assumes "indexes ix f" "away \<le> logical_rows ix - viewport" "physical_rows ix < 2 ^ 64"
  shows "offset_for_logical_scroll (physical_offset_for_logical_offset away viewport ix) viewport delta ix
    = physical_offset_for_logical_offset (nat (max 0 (min (int away + delta) (int (logical_rows ix - viewport))))) viewport ix"
proof -
  let ?max = "logical_rows ix - viewport" and ?off = "physical_offset_for_logical_offset away viewport ix"
  let ?goal = "nat (max 0 (min (int away + delta) (int ?max)))"
  have start: "(if ?off = 0 then ?max else logical_row (physical_rows ix - viewport - ?off) ix) = ?max - away"
  proof (cases "away = 0")
    case True
    then show ?thesis by (simp add: physical_offset_for_logical_offset_def)
  next
    case False
    then show ?thesis using offset_top [OF assms(1) _ assms(2)] by simp
  qed
  have "logical_rows ix \<le> physical_rows ix"
    using logical_rows_count [OF assms(1)] flag_count_gap [of 0 "physical_rows ix - 1" "f False"]
    by (cases "physical_rows ix") simp_all
  then have "?max < 2 ^ 64" using assms(3) by simp
  then have target: "min (if 0 \<le> delta then ?max - away - nat delta else saturating_add (?max - away) (nat (- delta))) ?max = ?max - ?goal"
    by (rule scroll_target [OF assms(2)])
  show ?thesis unfolding offset_for_logical_scroll_def Let_def start target
    using assms(2) by (auto simp: physical_offset_for_logical_offset_def)
qed


section \<open>Updates\<close>

text \<open>
  The cache over the life of a terminal whose row at an absolute position has the flags \<open>T\<close>: a run starts at the
  default cache and updates it with the flags of the rows as they are. An update that does not reset the index may
  drop rows from the top, and names as damaged every row above the old viewport whose flags have changed.
\<close>

definition honest_report ::
  "TerminalHistoryState \<Rightarrow> int \<Rightarrow> int list \<Rightarrow> (int \<Rightarrow> bool \<times> bool) \<Rightarrow> (int \<Rightarrow> bool \<times> bool) \<Rightarrow> LogicalLineIndexCache \<Rightarrow> bool" where
  "honest_report history origin damaged T T' cache \<longleftrightarrow>
     needs_reset history (origin + int (viewport_rows history)) cache
     \<or> (let start = origin - int (scrollback_len history) in
        ix_start (lc_index cache) \<le> start
        \<and> (\<forall>p. start \<le> p \<and> p < scan_start history origin cache \<and> p - origin \<notin> set damaged \<longrightarrow> T' p = T p))"

inductive line_run :: "LogicalLineIndexCache \<Rightarrow> (int \<Rightarrow> bool \<times> bool) \<Rightarrow> bool" where
  init: "line_run cache_default T"
| step: "line_run cache T \<Longrightarrow> honest_report history origin damaged T T' cache \<Longrightarrow>
     line_run (cache_update history origin damaged (\<lambda>line. T' (origin + line)) cache) T'"

definition cache_inv :: "LogicalLineIndexCache \<Rightarrow> (int \<Rightarrow> bool \<times> bool) \<Rightarrow> bool" where
  "cache_inv cache T \<longleftrightarrow>
     (\<exists>start n. lc_index cache = index_of start (lc_end cache) n (lc_pages cache)
        \<and> pages_ok (lc_pages cache) \<and> pages_cover start (lc_end cache) (lc_pages cache)
        \<and> (\<forall>p sp. start \<le> p \<and> p < lc_end cache \<longrightarrow> pages_flag (lc_pages cache) sp p = row_flag sp (T p)))"

definition update_rows :: "(int \<Rightarrow> bool \<times> bool) \<Rightarrow> int list \<Rightarrow> (int \<times> Page) list \<Rightarrow> (int \<times> Page) list" where
  "update_rows T positions = fold (\<lambda>p. update_row p (T p)) positions"

lemma update_rows_ok:
  assumes "pages_ok ps"
  shows "pages_ok (update_rows T qs ps)"
    "fst ` set (update_rows T qs ps) = (\<lambda>p. p div PAGE_ROWS) ` set qs \<union> fst ` set ps"
    "pages_flag (update_rows T qs ps) sp p = (if p \<in> set qs then row_flag sp (T p) else pages_flag ps sp p)"
proof -
  have "pages_ok (update_rows T qs ps) \<and> fst ` set (update_rows T qs ps) = (\<lambda>p. p div PAGE_ROWS) ` set qs \<union> fst ` set ps
      \<and> (pages_flag (update_rows T qs ps) sp p = (if p \<in> set qs then row_flag sp (T p) else pages_flag ps sp p))"
    using assms
  proof (induction qs arbitrary: ps)
    case (Cons q qs)
    note up = update_row_ok [OF Cons.prems, of q "T q"]
    show ?case using Cons.IH [OF up(1)] up(2,3) by (auto simp: update_rows_def)
  qed (simp add: update_rows_def)
  then show "pages_ok (update_rows T qs ps)"
    "fst ` set (update_rows T qs ps) = (\<lambda>p. p div PAGE_ROWS) ` set qs \<union> fst ` set ps"
    "pages_flag (update_rows T qs ps) sp p = (if p \<in> set qs then row_flag sp (T p) else pages_flag ps sp p)"
    by blast+
qed

lemma retain_pages:
  fixes start stop :: int
  assumes "pages_ok ps"
  defines "keep \<equiv> filter (\<lambda>(n, _). start < (n + 1) * PAGE_ROWS \<and> n * PAGE_ROWS < stop) ps"
  shows "pages_ok keep"
    "start \<le> p \<Longrightarrow> p < stop \<Longrightarrow> p div PAGE_ROWS \<in> fst ` set keep \<longleftrightarrow> p div PAGE_ROWS \<in> fst ` set ps"
    "start \<le> p \<Longrightarrow> p < stop \<Longrightarrow> pages_flag keep sp p = pages_flag ps sp p"
proof -
  show "pages_ok keep" using assms(1) unfolding keep_def pages_ok_def
    by (auto simp: list_all_iff sorted_wrt_map intro: sorted_wrt_filter)
  show keys: "p div PAGE_ROWS \<in> fst ` set keep \<longleftrightarrow> p div PAGE_ROWS \<in> fst ` set ps" if "start \<le> p" "p < stop"
    using page_of(1) [of p "p div PAGE_ROWS"] that unfolding keep_def by force
  have "map_of keep n = (if start < (n + 1) * PAGE_ROWS \<and> n * PAGE_ROWS < stop then map_of ps n else None)" for n
    using assms(1) unfolding keep_def by (induction ps) (auto simp: pages_ok_def map_of_eq_None_iff)
  then show "pages_flag keep sp p = pages_flag ps sp p" if "start \<le> p" "p < stop"
    using page_of(1) [of p "p div PAGE_ROWS"] that by (simp add: pages_flag_def)
qed

lemma cache_update_pages:
  fixes T history origin cache damaged
  defines "start \<equiv> origin - int (scrollback_len history)" and "stop \<equiv> origin + int (viewport_rows history)"
    and "scan \<equiv> scan_start history origin cache"
    and "keep \<equiv> filter (\<lambda>(n, _). origin - int (scrollback_len history) < (n + 1) * PAGE_ROWS
                  \<and> n * PAGE_ROWS < origin + int (viewport_rows history))
                (if needs_reset history (origin + int (viewport_rows history)) cache then [] else lc_pages cache)"
    and "qs \<equiv> filter (\<lambda>p. origin - int (scrollback_len history) \<le> p \<and> p < origin + int (viewport_rows history)
                  \<and> p < scan_start history origin cache) (map (\<lambda>line. origin + line) damaged)"
  shows "cache_update history origin damaged (\<lambda>line. T (origin + line)) cache
    = \<lparr>lc_history = Some history, lc_end = stop, lc_pages = update_rows T ([scan..stop - 1] @ qs) keep,
       lc_index = index_of start stop (cols history) (update_rows T ([scan..stop - 1] @ qs) keep)\<rparr>"
proof -
  have fold: "fold (\<lambda>line pages. if start \<le> origin + line \<and> origin + line < stop \<and> origin + line < scan
        then update_row (origin + line) (T (origin + line)) pages else pages) damaged ps = update_rows T qs ps" for ps
    unfolding qs_def update_rows_def start_def stop_def scan_def by (induction damaged arbitrary: ps) auto
  show ?thesis unfolding cache_update_def Let_def index_of_def fold [unfolded start_def stop_def scan_def]
    by (simp add: update_rows_def fold [unfolded update_rows_def start_def stop_def scan_def] start_def stop_def scan_def keep_def)
qed

lemma cache_inv_step:
  assumes inv: "cache_inv cache T" and honest: "honest_report history origin damaged T T' cache"
  shows "cache_inv (cache_update history origin damaged (\<lambda>line. T' (origin + line)) cache) T'"
proof -
  define start where "start = origin - int (scrollback_len history)"
  define stop where "stop = origin + int (viewport_rows history)"
  define scan where "scan = scan_start history origin cache"
  define old where "old = (if needs_reset history stop cache then [] else lc_pages cache)"
  define keep where "keep = filter (\<lambda>(n, _). start < (n + 1) * PAGE_ROWS \<and> n * PAGE_ROWS < stop) old"
  define qs where "qs = filter (\<lambda>p. start \<le> p \<and> p < stop \<and> p < scan) (map (\<lambda>line. origin + line) damaged)"
  define pages where "pages = update_rows T' ([scan..stop - 1] @ qs) keep"
  have up: "cache_update history origin damaged (\<lambda>line. T' (origin + line)) cache
    = \<lparr>lc_history = Some history, lc_end = stop, lc_pages = pages, lc_index = index_of start stop (cols history) pages\<rparr>"
    unfolding cache_update_pages pages_def qs_def keep_def old_def start_def stop_def scan_def by simp
  obtain s n where old_ix: "lc_index cache = index_of s (lc_end cache) n (lc_pages cache)"
    "pages_ok (lc_pages cache)" "pages_cover s (lc_end cache) (lc_pages cache)"
    and flags: "\<forall>p sp. s \<le> p \<and> p < lc_end cache \<longrightarrow> pages_flag (lc_pages cache) sp p = row_flag sp (T p)"
    using inv unfolding cache_inv_def by blast
  have ok: "pages_ok old" using old_ix(2) by (simp add: old_def pages_ok_def)
  note keep = retain_pages [OF ok, where start = start and stop = stop, folded keep_def]
  note rows = update_rows_ok [OF keep(1), of T' "[scan..stop - 1] @ qs", folded pages_def]
  have known: "p div PAGE_ROWS \<in> fst ` set keep \<and> (p \<in> set qs \<or> (\<forall>sp. pages_flag keep sp p = row_flag sp (T' p)))"
    if p: "start \<le> p" "p < stop" "p < scan" for p
  proof -
    have keepers: "\<not> needs_reset history stop cache" using p(1,3) by (auto simp: scan_def scan_start_def start_def stop_def Let_def)
    have named: "p \<in> set qs" if "p - origin \<in> set damaged"
      using p imageI [OF that, of "\<lambda>line. origin + line"] by (simp add: qs_def)
    have same: "s \<le> start" "p \<notin> set qs \<longrightarrow> T' p = T p"
      using honest p old_ix(1) keepers named unfolding honest_report_def Let_def
      by (auto simp: start_def stop_def scan_def index_of_def)
    have "scan \<le> lc_end cache" using keepers p(1,3)
      by (auto simp: scan_def scan_start_def start_def stop_def Let_def max_def min_def split: if_splits)
    then have "s \<le> p" "p < lc_end cache" using same(1) p by linarith+
    then show ?thesis using keepers flags old_ix(3) same(2) keep(2,3) [OF p(1,2)] by (auto simp: old_def pages_cover_def)
  qed
  have "p div PAGE_ROWS \<in> fst ` set pages" if "start \<le> p" "p < stop" for p
    unfolding rows(2) using known [OF that] that by (cases "p < scan") auto
  then have "pages_cover start stop pages" by (simp add: pages_cover_def start_def stop_def)
  moreover have "pages_flag pages sp p = row_flag sp (T' p)" if "start \<le> p" "p < stop" for p sp
    using known [OF that] rows(3) [of sp p] that by (cases "p < scan") auto
  ultimately show ?thesis unfolding up cache_inv_def using rows(1) by auto
qed

lemma cache_inv_run: "line_run cache T \<Longrightarrow> cache_inv cache T"
proof (induction rule: line_run.induct)
  case (init T)
  have "index_default = index_of 0 0 0 []" by (simp add: index_default_def index_of_def)
  then show ?case unfolding cache_inv_def cache_default_def
    by (intro exI [of _ 0]) (auto simp: pages_ok_def pages_cover_def)
next
  case step
  then show ?case by (blast intro: cache_inv_step)
qed

lemma line_run_indexes:
  assumes "line_run cache T"
  shows "indexes (lc_index cache) (\<lambda>sp i. row_flag sp (T (ix_start (lc_index cache) + int i)))"
proof -
  obtain start n where ix: "lc_index cache = index_of start (lc_end cache) n (lc_pages cache)"
    and ok: "pages_ok (lc_pages cache)" "pages_cover start (lc_end cache) (lc_pages cache)"
    and flags: "\<forall>p sp. start \<le> p \<and> p < lc_end cache \<longrightarrow> pages_flag (lc_pages cache) sp p = row_flag sp (T p)"
    using cache_inv_run [OF assms] unfolding cache_inv_def by blast
  have le: "start \<le> lc_end cache" using ok(2) by (simp add: pages_cover_def)
  have rows: "physical_rows (lc_index cache) = nat (lc_end cache - start)" "ix_start (lc_index cache) = start"
    using le by (simp_all add: ix physical_rows_def index_of_def max_absorb1)
  have "row_count (pages_flag (lc_pages cache) sp) start (start + int m) = flag_count (\<lambda>i. row_flag sp (T (start + int i))) m"
    if "m \<le> nat (lc_end cache - start)" for m sp
    unfolding row_count_def flag_count_def
    by (rule sum.reindex_bij_witness [where i = "\<lambda>i. start + int i" and j = "\<lambda>p. nat (p - start)"])
      (use that flags in auto)
  then show ?thesis unfolding indexes_def rows using rank_rows [OF ok, of _ _ n] by (simp add: ix)
qed


section \<open>Properties\<close>

text \<open>C15. The incremental index is the index of the rows: after any run of updates that name the damaged rows, whatever
  was scanned, kept and dropped, a rank is the number of rows before it that end a line (or have a spacer).\<close>

theorem logical_index_update:
  assumes "line_run cache T"
  shows "rank row sp (lc_index cache)
    = (\<Sum>i<min row (physical_rows (lc_index cache)). of_bool (row_flag sp (T (ix_start (lc_index cache) + int i))))"
  using line_run_indexes [OF assms] by (simp add: indexes_def flag_count_def)

definition sample_history :: "nat \<Rightarrow> TerminalHistoryState" where
  "sample_history n = \<lparr>epoch = 1, scroll_count = n, alternate_screen = False, scrollback_len = n, cols = 4, viewport_rows = 2\<rparr>"

definition sample_flags :: "int \<Rightarrow> bool \<times> bool" where
  "sample_flags p = (p mod 3 \<noteq> 2, p mod 3 = 1)"

definition sample_cache :: LogicalLineIndexCache where
  "sample_cache = cache_update (sample_history 3) 3 [] (\<lambda>line. sample_flags (3 + line))
     (cache_update (sample_history 1) 1 [] (\<lambda>line. sample_flags (1 + line)) cache_default)"

lemma cache_update_index:
  "ix_start (lc_index (cache_update history origin damaged flags cache)) = origin - int (scrollback_len history)"
  "ix_end (lc_index (cache_update history origin damaged flags cache)) = origin + int (viewport_rows history)"
  "ix_cols (lc_index (cache_update history origin damaged flags cache)) = cols history"
  by (simp_all add: cache_update_def Let_def)

lemma sample_first: "line_run (cache_update (sample_history 1) 1 [] (\<lambda>line. sample_flags (1 + line)) cache_default) sample_flags"
  by (rule line_run.step [OF line_run.init [of sample_flags]]) (simp add: honest_report_def needs_reset_def cache_default_def)

lemma sample_run: "line_run sample_cache sample_flags"
  unfolding sample_cache_def
  by (rule line_run.step [OF sample_first])
    (simp add: honest_report_def Let_def sample_history_def cache_update_index)

lemma sample_index: "ix_start (lc_index sample_cache) = 0" "physical_rows (lc_index sample_cache) = 5"
    "ix_cols (lc_index sample_cache) = 4"
  by (simp_all add: sample_cache_def cache_update_index sample_history_def physical_rows_def)

theorem logical_index_update_witness:
  "line_run sample_cache sample_flags \<and> rank 4 False (lc_index sample_cache) = 1 \<and> rank 9 True (lc_index sample_cache) = 2"
  using sample_run logical_index_update [OF sample_run, of 4 False] logical_index_update [OF sample_run, of 9 True]
  by (simp add: sample_index row_flag_def sample_flags_def numeral_eq_Suc lessThan_Suc)

text \<open>C18. The rows grouped with a row are those with no line end between, and the source position of a row's logical
  line and column is that row and column again.\<close>

theorem logical_line_positions:
  assumes "line_run cache T" "i < physical_rows (lc_index cache)" "c < row_width i (lc_index cache)"
    "physical_rows (lc_index cache) * ix_cols (lc_index cache) < 2 ^ 64"
  shows "(\<forall>j. fst (row_group i (lc_index cache)) \<le> j \<and> j < snd (row_group i (lc_index cache))
      \<longleftrightarrow> j < physical_rows (lc_index cache)
        \<and> (\<forall>k. min i j \<le> k \<and> k < max i j \<longrightarrow> fst (T (ix_start (lc_index cache) + int k))))
    \<and> source_position (logical_row i (lc_index cache)) (logical_col i c (lc_index cache)) (lc_index cache) = (i, c)"
proof -
  note ix = line_run_indexes [OF assms(1)]
  show ?thesis
    using source_position_inverse [OF ix assms(2,4,3)]
    unfolding row_group_def fst_conv snd_conv row_group_rows [OF ix assms(2)] flag_count_same by (simp add: row_flag_def)
qed

theorem logical_line_positions_witness:
  "fst (row_group 4 (lc_index sample_cache)) \<le> 3
    \<and> source_position (logical_row 4 (lc_index sample_cache)) (logical_col 4 2 (lc_index sample_cache)) (lc_index sample_cache) = (4, 2)"
proof -
  have width: "2 < row_width 4 (lc_index sample_cache)"
    using row_width_count [OF line_run_indexes [OF sample_run], of 4] by (simp add: sample_index)
  have wraps: "\<forall>k. min 4 3 \<le> k \<and> k < max 4 3 \<longrightarrow> fst (sample_flags (int k))"
  proof clarify
    fix k :: nat
    assume "min 4 3 \<le> k" "k < max 4 3"
    then have "k = 3" by (simp add: min_def max_def split: if_splits)
    then show "fst (sample_flags (int k))" by (simp add: sample_flags_def)
  qed
  have small: "physical_rows (lc_index sample_cache) * ix_cols (lc_index sample_cache) < 2 ^ 64" by (simp add: sample_index)
  have row: "4 < physical_rows (lc_index sample_cache)" by (simp add: sample_index)
  note positions = logical_line_positions [OF sample_run row width small]
  have "fst (row_group 4 (lc_index sample_cache)) \<le> 3"
    using spec [OF conjunct1 [OF positions], of 3] wraps unfolding sample_index by simp
  then show ?thesis using conjunct2 [OF positions] by (rule conjI)
qed

text \<open>C29. Scrolling by lines: the scroll metrics of the physical offset chosen for a logical offset give that logical
  offset, and scrolling from there by a number of lines goes to the offset of the sum, kept within the range.\<close>

theorem logical_scroll_roundtrip:
  assumes "line_run cache T" "physical_rows (lc_index cache) < 2 ^ 64" "away \<le> logical_rows (lc_index cache) - viewport"
  shows "scroll_metrics (physical_offset_for_logical_offset away viewport (lc_index cache)) viewport (lc_index cache)
      = (away, logical_rows (lc_index cache) - viewport)
    \<and> offset_for_logical_scroll (physical_offset_for_logical_offset away viewport (lc_index cache)) viewport delta (lc_index cache)
      = physical_offset_for_logical_offset
          (nat (max 0 (min (int away + delta) (int (logical_rows (lc_index cache) - viewport))))) viewport (lc_index cache)"
  using scroll_metrics_offset [OF line_run_indexes [OF assms(1)] assms(3)]
    scroll_by_offset [OF line_run_indexes [OF assms(1)] assms(3,2)] by blast

theorem logical_scroll_roundtrip_witness:
  "scroll_metrics (physical_offset_for_logical_offset 1 1 (lc_index sample_cache)) 1 (lc_index sample_cache) = (1, 1)"
proof -
  have "logical_rows (lc_index sample_cache) = 2"
    using logical_rows_count [OF line_run_indexes [OF sample_run]]
    by (simp add: sample_index flag_count_def row_flag_def sample_flags_def numeral_eq_Suc lessThan_Suc)
  then show ?thesis using logical_scroll_roundtrip [OF sample_run, of 1 1 0] by (simp add: sample_index)
qed

end
