(* ===== verification/Spec2Isabelle.thy ===== *)
theory Spec2Isabelle
  imports Prelude Otp_Encoding Otp_Hash Otp Cells Telnet Xymodem Mailbox Event_Queue Recording Framebuffer Sync
    Text_Offsets Document_Edit Text_Edit Output_Store Hex_Document Tmux_Control Tmux_Handshake Natural_Order
    Logical_Lines
begin

text \<open>
  ZzClawTerm is a terminal client written in Rust. This development models parts of its
  library crates and proves the properties that make them correct.
\<close>

end
